(* ===== verification/P2P_Prelude.thy ===== *)
theory P2P_Prelude
  imports Main "HOL-Library.Word" "HOL-Library.Monad_Syntax"
begin

unbundle bit_operations_syntax

text \<open>
  The ground the component theories stand on: the machine types of the C code, the memory
  representation of integers on the little-endian hosts the program is built for, the byte-order
  functions of \<^verbatim>\<open>arpa/inet.h\<close>, C strings, decimal printing and the dotted-quad address
  functions \<^verbatim>\<open>inet_ntop\<close> and \<^verbatim>\<open>inet_pton\<close> of the standard library.
\<close>

type_synonym byte = "8 word"
type_synonym u16 = "16 word"
type_synonym u32 = "32 word"

named_theorems mem_simps \<open>memory layout: lengths and read-back of stored integers\<close>
named_theorems inv_intros \<open>one preservation lemma per operation\<close>

section \<open>Integers in memory and in network byte order\<close>

definition mem16 :: "u16 \<Rightarrow> byte list" where
  "mem16 w = [ucast w, ucast (drop_bit 8 w)]"

definition mem32 :: "u32 \<Rightarrow> byte list" where
  "mem32 w = [ucast w, ucast (drop_bit 8 w), ucast (drop_bit 16 w), ucast (drop_bit 24 w)]"

definition rd16 :: "byte list \<Rightarrow> u16" where
  "rd16 bs = ucast (bs ! 0) OR push_bit 8 (ucast (bs ! 1))"

definition rd32 :: "byte list \<Rightarrow> u32" where
  "rd32 bs = ucast (bs ! 0) OR push_bit 8 (ucast (bs ! 1))
     OR push_bit 16 (ucast (bs ! 2)) OR push_bit 24 (ucast (bs ! 3))"

definition htons :: "u16 \<Rightarrow> u16" where
  "htons w = rd16 (rev (mem16 w))"

definition htonl :: "u32 \<Rightarrow> u32" where
  "htonl w = rd32 (rev (mem32 w))"

abbreviation ntohs :: "u16 \<Rightarrow> u16" where "ntohs \<equiv> htons"
abbreviation ntohl :: "u32 \<Rightarrow> u32" where "ntohl \<equiv> htonl"

lemma length_mem16 [simp, mem_simps]: "length (mem16 w) = 2"
  by (simp add: mem16_def)

lemma length_mem32 [simp, mem_simps]: "length (mem32 w) = 4"
  by (simp add: mem32_def)

lemma rd16_mem16 [simp, mem_simps]: "rd16 (mem16 w @ bs) = w"
  by (rule bit_word_eqI) (auto simp: rd16_def mem16_def bit_simps)

lemma rd32_mem32 [simp, mem_simps]: "rd32 (mem32 w @ bs) = w"
proof (rule bit_word_eqI)
  fix n assume "n < LENGTH(32)"
  then consider "n < 8" | "8 \<le> n" "n < 16" | "16 \<le> n" "n < 24" | "24 \<le> n" "n < 32"
    by fastforce
  then show "bit (rd32 (mem32 w @ bs)) n = bit w n"
    by cases (auto simp: rd32_def mem32_def bit_simps)
qed

lemma byte_bit_high [simp]:
  "\<not> bit (a :: byte) (8 + n)" "\<not> bit (a :: byte) (16 + n)" "\<not> bit (a :: byte) (24 + n)"
  by (auto dest: bit_imp_le_length)

lemma mem16_rd16 [simp]: "mem16 (rd16 [a, b]) = [a, b]"
  by (auto simp: rd16_def mem16_def bit_simps intro!: bit_word_eqI)

lemma mem32_rd32 [simp]: "mem32 (rd32 [a, b, c, d]) = [a, b, c, d]"
  by (auto simp: rd32_def mem32_def bit_simps intro!: bit_word_eqI)

lemma rd16_mem16_Nil [simp, mem_simps]: "rd16 (mem16 w) = w"
  using rd16_mem16 [of w "[]"] by simp

lemma rd32_mem32_Nil [simp, mem_simps]: "rd32 (mem32 w) = w"
  using rd32_mem32 [of w "[]"] by simp

lemma mem16_htons: "mem16 (htons w) = rev (mem16 w)"
  by (simp add: htons_def mem16_def [of w])

lemma mem32_htonl: "mem32 (htonl w) = rev (mem32 w)"
  by (simp add: htonl_def mem32_def [of w])

lemma htons_htons [simp]: "htons (htons w) = w"
  by (simp add: htons_def [of "htons w"] mem16_htons)

lemma htonl_htonl [simp]: "htonl (htonl w) = w"
  by (simp add: htonl_def [of "htonl w"] mem32_htonl)

lemma htonl_zero [simp]: "htonl 0 = 0"
  by (simp add: htonl_def mem32_def rd32_def)

section \<open>Characters and bytes\<close>

definition bytes_of :: "string \<Rightarrow> byte list" where
  "bytes_of s = map (\<lambda>c. word_of_nat (of_char c)) s"

definition string_of :: "byte list \<Rightarrow> string" where
  "string_of bs = map (\<lambda>b. char_of (unat b)) bs"

lemma byte_lt_256: "unat (b :: byte) < 256"
  using unsigned_less [of b] by simp

lemma u32_lt: "unat (w :: u32) < 2 ^ 32"
  using unsigned_less [of w] by simp

lemma length_bytes_of [simp, mem_simps]: "length (bytes_of s) = length s"
  by (simp add: bytes_of_def)

lemma length_string_of [simp, mem_simps]: "length (string_of s) = length s"
  by (simp add: string_of_def)

lemma string_of_bytes_of [simp]: "string_of (bytes_of s) = s"
proof -
  have "char_of (unat (word_of_nat (of_char c) :: byte)) = c" for c :: char
  proof -
    have "(of_char c :: nat) < 256" by simp
    then have "unat (word_of_nat (of_char c) :: byte) = of_char c"
      by (simp add: unat_of_nat)
    then show ?thesis by simp
  qed
  then show ?thesis by (induction s) (simp_all add: string_of_def bytes_of_def)
qed

section \<open>Decimal numbers\<close>

definition digit :: "nat \<Rightarrow> char" where
  "digit d = char_of (48 + d)"

fun dec :: "nat \<Rightarrow> string" where
  "dec n = (if n < 10 then [digit n] else dec (n div 10) @ [digit (n mod 10)])"

declare dec.simps [simp del]

definition is_digit :: "char \<Rightarrow> bool" where
  "is_digit c \<longleftrightarrow> 48 \<le> (of_char c :: nat) \<and> (of_char c :: nat) \<le> 57"

definition digit_val :: "char \<Rightarrow> nat" where
  "digit_val c = of_char c - 48"

definition dec_val :: "string \<Rightarrow> nat" where
  "dec_val s = foldl (\<lambda>n c. 10 * n + digit_val c) 0 s"

definition dec_int :: "int \<Rightarrow> string" where
  "dec_int i = (if i < 0 then CHR ''-'' # dec (nat (- i)) else dec (nat i))"

lemma digit_val_digit [simp]: "d < 10 \<Longrightarrow> digit_val (digit d) = d"
  by (simp add: digit_val_def digit_def)

lemma is_digit_digit [simp]: "d < 10 \<Longrightarrow> is_digit (digit d)"
  by (simp add: is_digit_def digit_def)

lemma dec_nonempty [simp]: "dec n \<noteq> []"
  by (subst dec.simps) simp

lemma dec_digits: "\<forall>c \<in> set (dec n). is_digit c"
proof (induction n rule: dec.induct)
  case (1 n)
  then show ?case by (cases "n < 10") (auto simp: dec.simps [of n])
qed

lemma dec_val_dec [simp]: "dec_val (dec n) = n"
proof (induction n rule: dec.induct)
  case (1 n)
  then show ?case by (cases "n < 10") (auto simp: dec.simps [of n] dec_val_def)
qed

lemma dec_inj: "dec m = dec n \<Longrightarrow> m = n"
  by (metis dec_val_dec)

lemma dec_hd: "0 < n \<Longrightarrow> digit_val (hd (dec n)) \<noteq> 0"
proof (induction n rule: dec.induct)
  case (1 n)
  then show ?case by (cases "n < 10") (auto simp: dec.simps [of n])
qed

lemma length_dec_byte: "n < 256 \<Longrightarrow> length (dec n) \<le> 3"
  by (auto simp: dec.simps [of n] dec.simps [of "n div 10"] dec.simps [of "n div 10 div 10"])

lemma length_dec: "n < 10 ^ Suc k \<Longrightarrow> length (dec n) \<le> Suc k"
proof (induction k arbitrary: n)
  case (Suc k)
  show ?case
  proof (cases "n < 10")
    case False
    have "n div 10 < 10 ^ Suc k" using Suc.prems by (simp add: div_less_iff_less_mult)
    from Suc.IH [OF this] False show ?thesis by (simp add: dec.simps [of n])
  qed (simp add: dec.simps [of n])
qed (subst dec.simps, simp)

lemma length_dec_int: "- (2 ^ 31) \<le> i \<Longrightarrow> i < 2 ^ 31 \<Longrightarrow> length (dec_int i) \<le> 11"
  using length_dec [of "nat (- i)" 9] length_dec [of "nat i" 9]
  by (auto simp: dec_int_def nat_less_iff)

section \<open>Lists without duplicates\<close>

lemma distinct_map_filter:
  "(\<And>i j. i < length xs \<Longrightarrow> j < length xs \<Longrightarrow> P (xs ! i) \<Longrightarrow> P (xs ! j) \<Longrightarrow> f (xs ! i) = f (xs ! j) \<Longrightarrow> i = j)
    \<Longrightarrow> distinct (map f (filter P xs))"
proof (induction xs)
  case (Cons x xs)
  have "distinct (map f (filter P xs))"
  proof (rule Cons.IH)
    fix i j assume "i < length xs" "j < length xs" "P (xs ! i)" "P (xs ! j)" "f (xs ! i) = f (xs ! j)"
    then show "i = j" using Cons.prems [of "Suc i" "Suc j"] by simp
  qed
  moreover have "f x \<noteq> f y" if "P x" "y \<in> set xs" "P y" for y
  proof
    assume "f x = f y"
    from that(2) obtain j where "j < length xs" "y = xs ! j" by (auto simp: in_set_conv_nth)
    with that \<open>f x = f y\<close> Cons.prems [of 0 "Suc j"] show False by simp
  qed
  ultimately show ?case by auto
qed simp

section \<open>Dotted-quad addresses\<close>

text \<open>
  An IPv4 address is \<^verbatim>\<open>sin_addr.s_addr\<close>, whose four bytes in memory are the four numbers
  of the dotted quad in order. The longest text has 15 characters and a terminating NUL, which
  is \<^verbatim>\<open>INET_ADDRSTRLEN\<close> = 16. The parser is the strict one of \<^verbatim>\<open>inet_pton\<close>: four
  decimal numbers up to 255, no leading zero.
\<close>

definition INET_ADDRSTRLEN :: nat where "INET_ADDRSTRLEN = 16"

definition inet_ntop :: "u32 \<Rightarrow> string" where
  "inet_ntop a =
     (let bs = mem32 a in
      dec (unat (bs ! 0)) @ CHR ''.'' # dec (unat (bs ! 1)) @ CHR ''.'' #
      dec (unat (bs ! 2)) @ CHR ''.'' # dec (unat (bs ! 3)))"

fun split_on :: "char \<Rightarrow> string \<Rightarrow> string list" where
  "split_on d [] = [[]]"
| "split_on d (c # cs) =
     (if c = d then [] # split_on d cs
      else case split_on d cs of [] \<Rightarrow> [[c]] | w # ws \<Rightarrow> (c # w) # ws)"

definition octet :: "string \<Rightarrow> byte option" where
  "octet s =
     (if s \<noteq> [] \<and> list_all is_digit s \<and> (length s = 1 \<or> hd s \<noteq> CHR ''0'') \<and> dec_val s \<le> 255
      then Some (word_of_nat (dec_val s)) else None)"

definition inet_pton :: "string \<Rightarrow> u32 option" where
  "inet_pton s =
     (case split_on CHR ''.'' s of
        [a, b, c, d] \<Rightarrow>
          do { x \<leftarrow> octet a; y \<leftarrow> octet b; z \<leftarrow> octet c; w \<leftarrow> octet d; Some (rd32 [x, y, z, w]) }
      | _ \<Rightarrow> None)"

lemma split_on_free: "d \<notin> set s \<Longrightarrow> split_on d s = [s]"
  by (induction s) auto

lemma split_on_append: "d \<notin> set s \<Longrightarrow> split_on d (s @ d # t) = s # split_on d t"
  by (induction s) auto

lemma dot_notin_dec [simp]: "CHR ''.'' \<notin> set (dec n)"
  using dec_digits [of n] by (auto simp: is_digit_def)

lemma dec_no_leading_zero: "length (dec n) = 1 \<or> hd (dec n) \<noteq> CHR ''0''"
proof (cases "n = 0")
  case True
  then show ?thesis by (simp add: dec.simps)
next
  case False
  then show ?thesis using dec_hd [of n] by (auto simp: digit_val_def)
qed

lemma octet_dec [simp]: "octet (dec (unat b)) = Some b"
proof -
  have "unat b < 256" by (rule byte_lt_256)
  moreover have "list_all is_digit (dec (unat b))"
    using dec_digits by (simp add: list_all_iff)
  ultimately show ?thesis using dec_no_leading_zero by (simp add: octet_def)
qed

lemma mem32_bytes: "mem32 a = [mem32 a ! 0, mem32 a ! 1, mem32 a ! 2, mem32 a ! 3]"
  by (simp add: mem32_def)

lemma inet_pton_ntop [simp]: "inet_pton (inet_ntop a) = Some a"
proof -
  have "rd32 [mem32 a ! 0, mem32 a ! 1, mem32 a ! 2, mem32 a ! 3] = a"
    using rd32_mem32_Nil [of a] mem32_bytes [of a] by simp
  then show ?thesis
    by (simp add: inet_pton_def inet_ntop_def Let_def split_on_append split_on_free)
qed

lemma inet_ntop_inj: "inet_ntop a = inet_ntop b \<longleftrightarrow> a = b"
  by (metis inet_pton_ntop option.inject)

lemma length_inet_ntop: "length (inet_ntop a) < INET_ADDRSTRLEN"
proof -
  have "length (dec (unat b)) \<le> 3" for b :: byte
    by (rule length_dec_byte [OF byte_lt_256])
  from this [of "mem32 a ! 0"] this [of "mem32 a ! 1"] this [of "mem32 a ! 2"] this [of "mem32 a ! 3"]
  show ?thesis by (simp add: inet_ntop_def Let_def INET_ADDRSTRLEN_def)
qed

section \<open>Step relations\<close>

text \<open>What every step of a machine keeps holds in every state it reaches.\<close>

locale kept =
  fixes step :: "'s \<Rightarrow> 's \<Rightarrow> bool" and inv :: "'s \<Rightarrow> bool"
  assumes keeps: "step x y \<Longrightarrow> inv x \<Longrightarrow> inv y"
begin

lemma reach: "rtranclp step x y \<Longrightarrow> inv x \<Longrightarrow> inv y"
  by (induction rule: rtranclp_induct) (auto intro: keeps)

end

text \<open>A machine whose steps are steps of another one reaches no other states.\<close>

locale restricts =
  fixes sub step :: "'s \<Rightarrow> 's \<Rightarrow> bool"
  assumes is_step: "sub x y \<Longrightarrow> step x y"
begin

lemma reach: "rtranclp sub x y \<Longrightarrow> rtranclp step x y"
  by (induction rule: rtranclp_induct) (auto intro: rtranclp.rtrancl_into_rtrancl is_step)

end

end
