(* ===== verification/Float32.thy ===== *)
theory Float32
  imports P2P_Prelude
begin

text \<open>
  The C type \<^verbatim>\<open>float\<close> as the compiler of the project implements it: IEEE 754 binary32,
  rounded to nearest with ties to even, every operation rounded on its own (SSE arithmetic, no
  fused operations). A value is its 32-bit object representation, which is what the program copies
  into packets with \<^verbatim>\<open>memcpy\<close>. Every finite value is an integer multiple of
  \<open>2 ^ -149\<close>, so sums, products and quotients are exact integers or ratios of integers before
  they are rounded. The payload of a NaN that an operation produces is not fixed by the standard;
  the model returns the default quiet NaN, and nothing in the program looks at it.
\<close>

datatype f32 = F32 (f32_bits: u32)

section \<open>Classification and value\<close>

definition F32_INF :: nat where "F32_INF = 255 * 2 ^ 23"

definition f32_neg :: "f32 \<Rightarrow> bool" where
  "f32_neg x \<longleftrightarrow> 2 ^ 31 \<le> unat (f32_bits x)"

definition f32_mag :: "f32 \<Rightarrow> nat" where
  "f32_mag x = unat (f32_bits x) mod 2 ^ 31"

definition f32_nan :: "f32 \<Rightarrow> bool" where
  "f32_nan x \<longleftrightarrow> F32_INF < f32_mag x"

definition f32_inf :: "f32 \<Rightarrow> bool" where
  "f32_inf x \<longleftrightarrow> f32_mag x = F32_INF"

definition f32_finite :: "f32 \<Rightarrow> bool" where
  "f32_finite x \<longleftrightarrow> f32_mag x < F32_INF"

definition mag_val :: "nat \<Rightarrow> nat" where
  "mag_val m = (if m < 2 ^ 23 then m else (2 ^ 23 + m mod 2 ^ 23) * 2 ^ (m div 2 ^ 23 - 1))"

definition f32_val :: "f32 \<Rightarrow> int" where
  "f32_val x = (if f32_neg x then - int (mag_val (f32_mag x)) else int (mag_val (f32_mag x)))"

section \<open>Rounding to nearest, ties to even\<close>

fun nbits :: "nat \<Rightarrow> nat" where
  "nbits n = (if n = 0 then 0 else Suc (nbits (n div 2)))"

declare nbits.simps [simp del]

definition rne :: "nat \<Rightarrow> nat \<Rightarrow> nat" where
  "rne n d =
     (let q = n div d; r = n mod d
      in if 2 * r < d \<or> (2 * r = d \<and> even q) then q else q + 1)"

definition f32_shift :: "nat \<Rightarrow> nat" where
  "f32_shift q = (if q < 2 ^ 24 then 0 else nbits q - 24)"

definition round_mag :: "nat \<Rightarrow> nat \<Rightarrow> nat" where
  "round_mag n d =
     (let s = f32_shift (n div d) in min F32_INF (s * 2 ^ 23 + rne n (d * 2 ^ s)))"

definition f32_make :: "bool \<Rightarrow> nat \<Rightarrow> f32" where
  "f32_make s m = F32 (word_of_nat (m + (if s then 2 ^ 31 else 0)))"

definition F32_QNAN :: f32 where "F32_QNAN = F32 0x7FC00000"

section \<open>The operations the program uses\<close>

definition f32_of_nat :: "nat \<Rightarrow> f32" where
  "f32_of_nat n = f32_make False (round_mag (n * 2 ^ 149) 1)"

instantiation f32 :: "{ord, plus, times, inverse}"
begin

definition less_f32 :: "f32 \<Rightarrow> f32 \<Rightarrow> bool" where
  "x < y \<longleftrightarrow> \<not> f32_nan x \<and> \<not> f32_nan y \<and> f32_val x < f32_val y"

definition less_eq_f32 :: "f32 \<Rightarrow> f32 \<Rightarrow> bool" where
  "x \<le> y \<longleftrightarrow> \<not> f32_nan x \<and> \<not> f32_nan y \<and> f32_val x \<le> f32_val y"

definition plus_f32 :: "f32 \<Rightarrow> f32 \<Rightarrow> f32" where
  "x + y =
     (if f32_nan x \<or> f32_nan y then F32_QNAN
      else if f32_inf x then (if f32_inf y \<and> f32_neg x \<noteq> f32_neg y then F32_QNAN else x)
      else if f32_inf y then y
      else let v = f32_val x + f32_val y in
        if v = 0 then f32_make (f32_neg x \<and> f32_neg y) 0
        else f32_make (v < 0) (round_mag (nat \<bar>v\<bar>) 1))"

definition times_f32 :: "f32 \<Rightarrow> f32 \<Rightarrow> f32" where
  "x * y =
     (let s = (f32_neg x \<noteq> f32_neg y) in
      if f32_nan x \<or> f32_nan y then F32_QNAN
      else if f32_inf x \<or> f32_inf y
        then (if f32_mag x = 0 \<or> f32_mag y = 0 then F32_QNAN else f32_make s F32_INF)
      else f32_make s (round_mag (mag_val (f32_mag x) * mag_val (f32_mag y)) (2 ^ 149)))"

definition divide_f32 :: "f32 \<Rightarrow> f32 \<Rightarrow> f32" where
  "x div y =
     (let s = (f32_neg x \<noteq> f32_neg y) in
      if f32_nan x \<or> f32_nan y then F32_QNAN
      else if f32_inf x then (if f32_inf y then F32_QNAN else f32_make s F32_INF)
      else if f32_inf y then f32_make s 0
      else if f32_mag y = 0 then (if f32_mag x = 0 then F32_QNAN else f32_make s F32_INF)
      else f32_make s (round_mag (mag_val (f32_mag x) * 2 ^ 149) (mag_val (f32_mag y))))"

definition inverse_f32 :: "f32 \<Rightarrow> f32" where
  "inverse_f32 x = f32_of_nat 1 div x"

instance ..

end


lemma nbits_0 [simp]: "nbits 0 = 0"
  by (simp add: nbits.simps)

lemma nbits_numeral [simp]:
  "nbits (Suc 0) = 1"
  "nbits (numeral num.One) = 1"
  "nbits (numeral (num.Bit0 n)) = Suc (nbits (numeral n))"
  "nbits (numeral (num.Bit1 n)) = Suc (nbits (numeral n))"
  by (simp_all add: nbits.simps [of "numeral _"] nbits.simps [of "Suc 0"])

lemmas f32_eval =
  f32_of_nat_def round_mag_def f32_shift_def rne_def f32_make_def F32_INF_def mag_val_def
  f32_val_def f32_neg_def f32_mag_def f32_nan_def f32_inf_def Let_def
  plus_f32_def times_f32_def divide_f32_def less_f32_def less_eq_f32_def

section \<open>Representation\<close>

lemma f32_mag_lt: "f32_mag x < 2 ^ 31"
  by (simp add: f32_mag_def)

lemma unat_f32_make: "m < 2 ^ 31 \<Longrightarrow> unat (f32_bits (f32_make s m)) = m + (if s then 2 ^ 31 else 0)"
  by (auto simp: f32_make_def unat_of_nat simp del: of_nat_add)

lemma f32_mag_make [simp]: "m \<le> F32_INF \<Longrightarrow> f32_mag (f32_make s m) = m"
  using unat_f32_make [of m s] by (auto simp: f32_mag_def F32_INF_def)

lemma f32_neg_make [simp]: "m \<le> F32_INF \<Longrightarrow> f32_neg (f32_make s m) = s"
  using unat_f32_make [of m s] by (auto simp: f32_neg_def F32_INF_def)

lemma f32_nan_make [simp]: "m \<le> F32_INF \<Longrightarrow> \<not> f32_nan (f32_make s m)"
  by (simp add: f32_nan_def)

lemma f32_classes: "f32_nan x \<or> f32_inf x \<or> f32_finite x"
  by (auto simp: f32_nan_def f32_inf_def f32_finite_def)

lemma f32_finiteD: "f32_finite x \<Longrightarrow> \<not> f32_nan x" "f32_finite x \<Longrightarrow> \<not> f32_inf x"
  by (auto simp: f32_nan_def f32_inf_def f32_finite_def)

section \<open>Magnitudes are ordered like the values they encode\<close>

lemma mag_val_Suc: "mag_val m < mag_val (Suc m)"
proof (cases "Suc m < 2 ^ 23")
  case True
  then show ?thesis by (simp add: mag_val_def)
next
  case False
  show ?thesis
  proof (cases "m < 2 ^ 23")
    case True
    with False have "m = 2 ^ 23 - 1" by simp
    then show ?thesis by (simp add: mag_val_def)
  next
    case big: False
    define e f where "e = m div 2 ^ 23 - 1" and "f = m mod 2 ^ 23"
    have e: "m div 2 ^ 23 = Suc e"
      using big by (simp add: e_def)
    show ?thesis
    proof (cases "Suc f < 2 ^ 23")
      case True
      then have "Suc m mod 2 ^ 23 = Suc f" "Suc m div 2 ^ 23 = Suc e"
        using e by (auto simp: f_def mod_Suc div_Suc)
      with big e show ?thesis by (simp add: mag_val_def f_def)
    next
      case last: False
      then have f: "f = 2 ^ 23 - 1" using mod_less_divisor [of "2 ^ 23" m] by (simp add: f_def)
      then have "Suc m mod 2 ^ 23 = 0" "Suc m div 2 ^ 23 = Suc (Suc e)"
        using e by (auto simp: f_def mod_Suc div_Suc)
      moreover have "m mod 2 ^ 23 = 2 ^ 23 - 1" using f by (simp add: f_def)
      ultimately show ?thesis using big e by (simp add: mag_val_def)
    qed
  qed
qed

lemma mag_val_strict_mono: "strict_mono mag_val"
  by (simp add: strict_mono_Suc_iff mag_val_Suc)

lemma mag_val_less_iff [simp]: "mag_val m < mag_val n \<longleftrightarrow> m < n"
  by (rule strict_mono_less [OF mag_val_strict_mono])

lemma mag_val_le_iff [simp]: "mag_val m \<le> mag_val n \<longleftrightarrow> m \<le> n"
  by (rule strict_mono_less_eq [OF mag_val_strict_mono])

lemma mag_val_0 [simp]: "mag_val 0 = 0"
  by (simp add: mag_val_def)

lemma mag_val_pos [simp]: "0 < mag_val m \<longleftrightarrow> 0 < m"
  using mag_val_less_iff [of 0 m] by (simp del: mag_val_less_iff)

section \<open>Rounding is exact on representable values and monotone\<close>

lemma nbits_bounds: "0 < n \<Longrightarrow> 2 ^ (nbits n - 1) \<le> n \<and> n < 2 ^ nbits n"
proof (induction n rule: nbits.induct)
  case (1 n)
  show ?case
  proof (cases "n = 1")
    case True
    then show ?thesis by simp
  next
    case False
    define k where "k = n div 2"
    from False 1 have k: "2 ^ (nbits k - 1) \<le> k" "k < 2 ^ nbits k" "0 < k"
      by (auto simp: k_def)
    then have "nbits k \<noteq> 0" by (auto intro: ccontr)
    then have "(2::nat) ^ nbits k = 2 * 2 ^ (nbits k - 1)" by (cases "nbits k") auto
    with k have "2 ^ nbits k \<le> 2 * k" "2 * k + 1 < 2 * 2 ^ nbits k" by auto
    moreover have "n = 2 * k \<or> n = 2 * k + 1" by (auto simp: k_def)
    ultimately show ?thesis using 1 by (auto simp: nbits.simps [of n] k_def [symmetric])
  qed
qed

lemma nbits_le: "n < 2 ^ b \<Longrightarrow> nbits n \<le> b"
proof (cases "n = 0")
  case False
  assume "n < 2 ^ b"
  with False nbits_bounds [of n] have "(2::nat) ^ (nbits n - 1) < 2 ^ b" by linarith
  then show ?thesis by simp
qed simp

lemma nbits_ge: "2 ^ b \<le> n \<Longrightarrow> b < nbits n"
proof -
  assume *: "2 ^ b \<le> n"
  then have "0 < n" by (metis less_le_trans zero_less_numeral zero_less_power)
  with * nbits_bounds [of n] have "(2::nat) ^ b < 2 ^ nbits n" by linarith
  then show ?thesis by simp
qed

lemma nbits_mono: "m \<le> n \<Longrightarrow> nbits m \<le> nbits n"
  using nbits_bounds [of n] nbits_le [of m "nbits n"] by (cases "n = 0") auto

lemma f32_shift_mono: "q \<le> q' \<Longrightarrow> f32_shift q \<le> f32_shift q'"
  using nbits_mono by (auto simp: f32_shift_def diff_le_mono)

lemma f32_shift_upper: "q < 2 ^ 24 * 2 ^ f32_shift q"
proof (cases "q < 2 ^ 24")
  case False
  then have "24 < nbits q" by (intro nbits_ge) simp
  then obtain k where "nbits q = 24 + k" by (metis less_imp_add_positive)
  then have "(2::nat) ^ nbits q = 2 ^ 24 * 2 ^ f32_shift q"
    using False by (simp add: f32_shift_def power_add)
  then show ?thesis using nbits_bounds [of q] False by simp
qed (simp add: f32_shift_def)

lemma f32_shift_lower: "0 < f32_shift q \<Longrightarrow> 2 ^ 23 * 2 ^ f32_shift q \<le> q"
proof -
  assume *: "0 < f32_shift q"
  then have "\<not> q < 2 ^ 24" by (simp add: f32_shift_def split: if_splits)
  then have b: "24 < nbits q" by (intro nbits_ge) simp
  then obtain k where "nbits q = 24 + k" by (metis less_imp_add_positive)
  moreover have "f32_shift q = nbits q - 24" using * by (simp add: f32_shift_def split: if_splits)
  ultimately have "(2::nat) ^ (nbits q - 1) = 2 ^ 23 * 2 ^ f32_shift q"
    using b by (cases k) (simp_all add: power_add)
  then show ?thesis using nbits_bounds [of q] b by (cases "q = 0") auto
qed


lemma rne_cases: "rne n d = n div d \<or> rne n d = n div d + 1"
  by (simp add: rne_def Let_def)

lemma rne_lower: "n div d \<le> rne n d"
  using rne_cases [of n d] by auto

lemma rne_exact [simp]: "0 < d \<Longrightarrow> rne (m * d) d = m"
  by (simp add: rne_def)

lemma div_cross_le:
  fixes n d n' d' :: nat
  assumes "n * d' \<le> n' * d" "0 < d" "0 < d'"
  shows "n div d \<le> n' div d'"
proof -
  have "(n div d) * d \<le> n" by simp
  then have "(n div d) * d * d' \<le> n' * d"
    using assms(1) by (meson le_trans mult_le_mono1)
  then have "(n div d) * d' \<le> n'"
    using assms(2) by (metis mult.assoc mult.commute nat_mult_le_cancel1)
  then show ?thesis using assms(3) by (simp add: less_eq_div_iff_mult_less_eq)
qed

lemma rne_mono:
  assumes "n * d' \<le> n' * d" "0 < d" "0 < d'"
  shows "rne n d \<le> rne n' d'"
proof -
  have q: "n div d \<le> n' div d'" using assms by (rule div_cross_le)
  show ?thesis
  proof (cases "n div d = n' div d'")
    case False
    with q have "n div d + 1 \<le> n' div d'" by simp
    then show ?thesis using rne_cases [of n d] rne_lower [of n' d'] by auto
  next
    case True
    define q r r' where "q = n div d" and "r = n mod d" and "r' = n' mod d'"
    have "n = q * d + r" "n' = q * d' + r'"
      unfolding q_def r_def r'_def by (simp, metis True div_mult_mod_eq)
    with assms(1) have rr: "r * d' \<le> r' * d" by (simp add: algebra_simps)
    have up: "2 * r' > d'" if "2 * r > d"
    proof -
      from that have "d * d' < 2 * r * d'" using assms(3) by simp
      also have "\<dots> \<le> 2 * r' * d" using rr by simp
      finally show ?thesis by (simp add: mult.commute [of d])
    qed
    have tie: "2 * r' \<ge> d'" if "2 * r = d"
    proof -
      from that have "d * d' = 2 * r * d'" by simp
      also have "\<dots> \<le> 2 * r' * d" using rr by simp
      finally show ?thesis using assms(2) by (simp add: mult.commute [of d])
    qed
    show ?thesis
      using up tie True by (auto simp: rne_def Let_def q_def r_def r'_def)
  qed
qed

lemma round_mag_le [simp]: "round_mag n d \<le> F32_INF"
  by (simp add: round_mag_def Let_def)

lemma div_mult_pow: "n div (d * 2 ^ s) = (n div d) div 2 ^ s" for n d s :: nat
  by (simp add: div_mult2_eq)

lemma round_mag_mono:
  assumes "n * d' \<le> n' * d" "0 < d" "0 < d'"
  shows "round_mag n d \<le> round_mag n' d'"
proof -
  define s s' where "s = f32_shift (n div d)" and "s' = f32_shift (n' div d')"
  have q: "n div d \<le> n' div d'" using assms by (rule div_cross_le)
  then have s: "s \<le> s'" by (simp add: s_def s'_def f32_shift_mono)
  have "s * 2 ^ 23 + rne n (d * 2 ^ s) \<le> s' * 2 ^ 23 + rne n' (d' * 2 ^ s')"
  proof (cases "s = s'")
    case True
    have "n * (d' * 2 ^ s) \<le> n' * (d * 2 ^ s)" using assms(1) by (simp flip: mult.assoc)
    then have "rne n (d * 2 ^ s) \<le> rne n' (d' * 2 ^ s)"
      using assms by (intro rne_mono) simp_all
    with True show ?thesis by simp
  next
    case False
    with s have less: "s + 1 \<le> s'" by simp
    have "n div d div 2 ^ s < 2 ^ 24"
      using f32_shift_upper [of "n div d"] by (simp add: s_def less_mult_imp_div_less)
    then have u: "rne n (d * 2 ^ s) \<le> 2 ^ 24"
      using rne_cases [of n "d * 2 ^ s"] by (auto simp: div_mult_pow)
    have "2 ^ 23 \<le> n' div d' div 2 ^ s'"
      using f32_shift_lower [of "n' div d'"] less by (simp add: s'_def less_eq_div_iff_mult_less_eq)
    then have l: "2 ^ 23 \<le> rne n' (d' * 2 ^ s')"
      using rne_lower [of n' "d' * 2 ^ s'"] by (simp add: div_mult_pow)
    from less have "(s + 1) * 2 ^ 23 \<le> s' * 2 ^ 23" by (rule mult_le_mono1)
    with u l show ?thesis by simp
  qed
  then show ?thesis by (simp add: round_mag_def Let_def min_le_iff_disj flip: s_def s'_def)
qed

lemma f32_shift_mag_val: "m < F32_INF \<Longrightarrow> f32_shift (mag_val m) = m div 2 ^ 23 - 1"
proof (cases "m < 2 ^ 24")
  case True
  then have "m div 2 ^ 23 - 1 = 0" by (simp add: div_less_iff_less_mult)
  moreover from True have "mag_val m < 2 ^ 24"
    using mag_val_less_iff [of m "2 ^ 24"] by (simp add: mag_val_def split: if_splits)
  ultimately show ?thesis by (simp add: f32_shift_def)
next
  case False
  define f e where "f = 2 ^ 23 + m mod 2 ^ 23" and "e = m div 2 ^ 23 - 1"
  have v: "mag_val m = f * 2 ^ e" using False by (simp add: mag_val_def f_def e_def)
  have f: "2 ^ 23 \<le> f" "f < 2 ^ 24" using mod_less_divisor [of "2 ^ 23" m] by (simp_all add: f_def)
  have e: "0 < e" using False by (simp add: e_def less_eq_div_iff_mult_less_eq Suc_le_eq)
  have "2 ^ (23 + e) \<le> mag_val m" using f by (simp add: v power_add)
  moreover have "mag_val m < 2 ^ (24 + e)" using f by (simp add: v power_add)
  ultimately have "nbits (mag_val m) = 24 + e"
    using nbits_ge [of "23 + e" "mag_val m"] nbits_le [of "mag_val m" "24 + e"] by simp
  moreover have "(2::nat) ^ 24 \<le> 2 ^ (23 + e)" using e by (intro power_increasing) auto
  ultimately show ?thesis
    using \<open>2 ^ (23 + e) \<le> mag_val m\<close> by (simp add: f32_shift_def e_def)
qed

lemma round_mag_exact: "m < F32_INF \<Longrightarrow> 0 < d \<Longrightarrow> round_mag (mag_val m * d) d = m"
proof -
  assume m: "m < F32_INF" and d: "0 < d"
  define e where "e = m div 2 ^ 23 - 1"
  have e: "f32_shift (mag_val m) = e" using m by (simp add: f32_shift_mag_val e_def)
  have "e * 2 ^ 23 + rne (mag_val m * d) (d * 2 ^ e) = m"
  proof (cases "m < 2 ^ 23")
    case True
    then show ?thesis using d by (simp add: e_def mag_val_def)
  next
    case False
    have "mag_val m * d = (2 ^ 23 + m mod 2 ^ 23) * (d * 2 ^ e)"
      using False by (simp add: mag_val_def e_def)
    then have "rne (mag_val m * d) (d * 2 ^ e) = 2 ^ 23 + m mod 2 ^ 23"
      using d by (simp only: rne_exact) (simp del: power_numeral)
    moreover have "m div 2 ^ 23 = Suc e" using False by (simp add: e_def)
    then have "m = Suc e * 2 ^ 23 + m mod 2 ^ 23" by (metis div_mult_mod_eq)
    ultimately show ?thesis by simp
  qed
  then show ?thesis using m d by (simp add: round_mag_def e)
qed

section \<open>The order of the values that are not NaN\<close>

lemma f32_not_less: "\<not> f32_nan x \<Longrightarrow> \<not> f32_nan y \<Longrightarrow> \<not> x < y \<longleftrightarrow> y \<le> x"
  for x y :: f32
  by (auto simp: less_f32_def less_eq_f32_def)

lemma f32_le_refl: "\<not> f32_nan x \<Longrightarrow> x \<le> x" for x :: f32
  by (simp add: less_eq_f32_def)

lemma f32_le_trans [trans]: "x \<le> y \<Longrightarrow> y \<le> z \<Longrightarrow> x \<le> z" for x y z :: f32
  by (auto simp: less_eq_f32_def)

lemma f32_less_le_trans: "x < y \<Longrightarrow> y \<le> z \<Longrightarrow> x < z" for x y z :: f32
  by (auto simp: less_eq_f32_def less_f32_def)

lemma f32_le_less_trans: "x \<le> y \<Longrightarrow> y < z \<Longrightarrow> x < z" for x y z :: f32
  by (auto simp: less_eq_f32_def less_f32_def)

lemma f32_less_trans: "x < y \<Longrightarrow> y < z \<Longrightarrow> x < z" for x y z :: f32
  by (auto simp: less_f32_def)

lemma f32_less_imp_le: "x < y \<Longrightarrow> x \<le> y" for x y :: f32
  by (auto simp: less_eq_f32_def less_f32_def)

lemma f32_less_irrefl [simp]: "\<not> x < x" for x :: f32
  by (simp add: less_f32_def)

lemma f32_less_not_le: "x < y \<Longrightarrow> \<not> y \<le> x" for x y :: f32
  by (auto simp: less_eq_f32_def less_f32_def)

lemma f32_nan_cmp [simp]: "f32_nan x \<Longrightarrow> \<not> x < y" "f32_nan y \<Longrightarrow> \<not> x < y"
    "f32_nan x \<Longrightarrow> \<not> x \<le> y" "f32_nan y \<Longrightarrow> \<not> x \<le> y"
  for x y :: f32
  by (simp_all add: less_f32_def less_eq_f32_def)

section \<open>Arithmetic on finite values is monotone\<close>

definition sround :: "int \<Rightarrow> int" where
  "sround v = sgn v * int (mag_val (round_mag (nat \<bar>v\<bar>) 1))"

lemma round_mag_0 [simp]: "round_mag 0 d = 0"
  by (auto simp: round_mag_def f32_shift_def rne_def)

lemma round_mag_mono_same: "n \<le> n' \<Longrightarrow> 0 < d \<Longrightarrow> round_mag n d \<le> round_mag n' d"
  by (rule round_mag_mono) simp_all

lemma sround_mono: "v \<le> w \<Longrightarrow> sround v \<le> sround w"
proof -
  assume le: "v \<le> w"
  have nn: "0 \<le> sround v" if "0 \<le> v" for v using that by (simp add: sround_def sgn_if)
  have np: "sround v \<le> 0" if "v \<le> 0" for v using that by (simp add: sround_def sgn_if)
  consider "0 < v" | "v \<le> 0" "0 \<le> w" | "w < 0" by linarith
  then show ?thesis
  proof cases
    case 1
    with le have "round_mag (nat \<bar>v\<bar>) 1 \<le> round_mag (nat \<bar>w\<bar>) 1"
      by (intro round_mag_mono_same) auto
    with 1 le show ?thesis by (simp add: sround_def)
  next
    case 2
    then show ?thesis using nn [of w] np [of v] by linarith
  next
    case 3
    with le have "round_mag (nat \<bar>w\<bar>) 1 \<le> round_mag (nat \<bar>v\<bar>) 1"
      by (intro round_mag_mono_same) auto
    with 3 le show ?thesis by (simp add: sround_def)
  qed
qed

lemma f32_val_make: "m \<le> F32_INF \<Longrightarrow> f32_val (f32_make s m) = (if s then - int (mag_val m) else int (mag_val m))"
  by (simp add: f32_val_def)

lemma f32_add_finite:
  assumes "f32_finite x" "f32_finite y"
  shows "\<not> f32_nan (x + y)" "f32_val (x + y) = sround (f32_val x + f32_val y)"
  using assms
  by (auto simp: plus_f32_def Let_def f32_finiteD f32_val_make sround_def sgn_if)

lemma f32_add_mono:
  assumes "f32_finite a" "f32_finite b" "f32_finite c" "f32_finite d" "a \<le> b" "c \<le> d"
  shows "a + c \<le> b + d"
  using assms by (auto simp: less_eq_f32_def f32_add_finite intro: sround_mono)

definition f32_nonneg :: "f32 \<Rightarrow> bool" where
  "f32_nonneg x \<longleftrightarrow> f32_finite x \<and> \<not> f32_neg x"

lemma f32_nonnegD: "f32_nonneg x \<Longrightarrow> f32_finite x" "f32_nonneg x \<Longrightarrow> \<not> f32_neg x"
    "f32_nonneg x \<Longrightarrow> \<not> f32_nan x" "f32_nonneg x \<Longrightarrow> \<not> f32_inf x"
    "f32_nonneg x \<Longrightarrow> f32_val x = int (mag_val (f32_mag x))"
  by (auto simp: f32_nonneg_def f32_finiteD f32_val_def)

lemma f32_le_nonneg:
  "f32_nonneg x \<Longrightarrow> f32_nonneg y \<Longrightarrow> x \<le> y \<longleftrightarrow> f32_mag x \<le> f32_mag y"
  by (simp add: less_eq_f32_def f32_nonnegD)

lemma f32_mul_nonneg:
  assumes "f32_nonneg x" "f32_nonneg y"
  shows "x * y = f32_make False (round_mag (mag_val (f32_mag x) * mag_val (f32_mag y)) (2 ^ 149))"
  using assms by (simp add: times_f32_def Let_def f32_nonnegD)

lemma f32_make_le [simp]:
  "m \<le> F32_INF \<Longrightarrow> n \<le> F32_INF \<Longrightarrow> f32_make False m \<le> f32_make False n \<longleftrightarrow> m \<le> n"
  by (simp add: less_eq_f32_def f32_val_make)

lemma f32_mul_mono:
  assumes "f32_nonneg x" "f32_nonneg y" "f32_nonneg z" "y \<le> z"
  shows "x * y \<le> x * z"
  using assms by (auto simp: f32_mul_nonneg f32_le_nonneg intro!: round_mag_mono_same)

lemma f32_div_nonneg:
  assumes "f32_nonneg x" "f32_nonneg y" "0 < f32_mag y"
  shows "x / y = f32_make False (round_mag (mag_val (f32_mag x) * 2 ^ 149) (mag_val (f32_mag y)))"
  using assms by (simp add: divide_f32_def Let_def f32_nonnegD)

lemma f32_div_antimono:
  assumes "f32_nonneg x" "f32_nonneg y" "f32_nonneg z" "0 < f32_mag y" "y \<le> z"
  shows "x / z \<le> x / y"
proof -
  have "f32_mag y \<le> f32_mag z" using assms by (simp add: f32_le_nonneg)
  then have "0 < f32_mag z" "mag_val (f32_mag y) \<le> mag_val (f32_mag z)" using assms by simp_all
  then show ?thesis
    using assms by (auto simp: f32_div_nonneg intro!: round_mag_mono)
qed

lemma f32_div_mono:
  assumes "f32_nonneg x" "f32_nonneg y" "f32_nonneg z" "0 < f32_mag z" "x \<le> y"
  shows "x / z \<le> y / z"
  using assms by (auto simp: f32_div_nonneg f32_le_nonneg intro!: round_mag_mono_same)

section \<open>Integers as floats\<close>

lemma f32_of_nat_mag: "f32_mag (f32_of_nat n) = round_mag (n * 2 ^ 149) 1"
  by (simp add: f32_of_nat_def)

lemma f32_of_nat_neg [simp]: "\<not> f32_neg (f32_of_nat n)"
  by (simp add: f32_of_nat_def)

lemma f32_of_nat_nan [simp]: "\<not> f32_nan (f32_of_nat n)"
  by (simp add: f32_of_nat_def)

lemma f32_of_nat_mono: "m \<le> n \<Longrightarrow> f32_of_nat m \<le> f32_of_nat n"
  by (simp add: f32_of_nat_def round_mag_mono_same)

lemma f32_of_nat_nonneg: "n \<le> 2 ^ 64 \<Longrightarrow> f32_nonneg (f32_of_nat n)"
proof -
  assume "n \<le> 2 ^ 64"
  then have "round_mag (n * 2 ^ 149) 1 \<le> round_mag (2 ^ 64 * 2 ^ 149) 1"
    by (intro round_mag_mono_same) simp_all
  also have "\<dots> < F32_INF" by (simp add: f32_eval)
  finally show ?thesis by (simp add: f32_nonneg_def f32_finite_def f32_of_nat_mag)
qed

lemma f32_of_nat_pos: "0 < n \<Longrightarrow> 0 < f32_mag (f32_of_nat n)"
proof -
  assume "0 < n"
  then have "round_mag (1 * 2 ^ 149) 1 \<le> round_mag (n * 2 ^ 149) 1"
    by (intro round_mag_mono_same) simp_all
  moreover have "0 < round_mag (1 * 2 ^ 149) 1" by (simp add: f32_eval)
  ultimately show ?thesis by (simp add: f32_of_nat_mag)
qed

lemma f32_div_one:
  assumes "f32_nonneg x"
  shows "x / f32_of_nat 1 = f32_make False (f32_mag x)"
proof -
  have "mag_val (f32_mag (f32_of_nat 1)) = 2 ^ 149" by (simp add: f32_eval)
  then show ?thesis
    using assms f32_of_nat_pos [of 1] f32_of_nat_nonneg [of 1] round_mag_exact [of "f32_mag x" "2 ^ 149"]
    by (simp add: f32_div_nonneg f32_nonneg_def f32_finite_def)
qed

end
