(* ===== verification/Wire.thy ===== *)
theory Wire
  imports P2P_Prelude Float32
begin

text \<open>
  The shared definitions of \<^verbatim>\<open>common.h\<close>: ports and limits, the message types, the packed
  structures of the wire protocol with their memory images (what \<^verbatim>\<open>memcpy\<close> and
  \<^verbatim>\<open>send\<close> see), the peer entry and the task descriptor. A structure field that the code keeps
  in network byte order holds the swapped integer here too.
\<close>

section \<open>Ports and limits\<close>

definition DISCOVERY_PORT :: u16 where "DISCOVERY_PORT = 9999"
definition DEFAULT_WORKER_PORT :: u16 where "DEFAULT_WORKER_PORT = 7777"

definition MAX_PEERS :: nat where "MAX_PEERS = 64"
definition MAX_HOSTNAME_LEN :: nat where "MAX_HOSTNAME_LEN = 64"
definition MAX_CMD_LEN :: nat where "MAX_CMD_LEN = 4096"
definition MAX_FILENAME_LEN :: nat where "MAX_FILENAME_LEN = 256"
definition MAX_FILE_SIZE :: nat where "MAX_FILE_SIZE = 4 * 1024 * 1024"
definition OUTPUT_BUF_SIZE :: nat where "OUTPUT_BUF_SIZE = 4096"
definition PEER_TIMEOUT_SECS :: int where "PEER_TIMEOUT_SECS = 30"
definition DISCOVERY_INTERVAL :: int where "DISCOVERY_INTERVAL = 5"
definition LOAD_QUERY_TIMEOUT_MS :: nat where "LOAD_QUERY_TIMEOUT_MS = 500"
definition MAX_CONCURRENT_TASKS :: nat where "MAX_CONCURRENT_TASKS = 8"

lemmas limit_defs = MAX_PEERS_def MAX_HOSTNAME_LEN_def MAX_CMD_LEN_def MAX_FILENAME_LEN_def
  MAX_FILE_SIZE_def OUTPUT_BUF_SIZE_def PEER_TIMEOUT_SECS_def MAX_CONCURRENT_TASKS_def

section \<open>Message types\<close>

datatype msg_type_t =
    MSG_HELLO | MSG_BYE | MSG_LOAD_REQ | MSG_LOAD_RESP | MSG_TASK_FILE | MSG_OUTPUT | MSG_TASK_DONE

text \<open>
  The enumeration is packed into one byte. A received type is any byte, so received types are
  compared as bytes with the codes of the enumerators.
\<close>

fun msg_code :: "msg_type_t \<Rightarrow> byte" where
  "msg_code MSG_HELLO = 0x01"
| "msg_code MSG_BYE = 0x02"
| "msg_code MSG_LOAD_REQ = 0x03"
| "msg_code MSG_LOAD_RESP = 0x04"
| "msg_code MSG_TASK_FILE = 0x06"
| "msg_code MSG_OUTPUT = 0x07"
| "msg_code MSG_TASK_DONE = 0x08"

lemma msg_code_inj [simp]: "msg_code s = msg_code t \<longleftrightarrow> s = t"
  by (cases s; cases t) simp_all

declare msg_code.simps [simp del]

text \<open>C compares enumerators by their values, so the message types are linearly ordered.\<close>

instantiation msg_type_t :: linorder
begin

definition less_msg_type_t :: "msg_type_t \<Rightarrow> msg_type_t \<Rightarrow> bool" where
  "s < t \<longleftrightarrow> msg_code s < msg_code t"

definition less_eq_msg_type_t :: "msg_type_t \<Rightarrow> msg_type_t \<Rightarrow> bool" where
  "s \<le> t \<longleftrightarrow> msg_code s \<le> msg_code t"

instance
  by standard (auto simp: less_msg_type_t_def less_eq_msg_type_t_def order.strict_iff_order)

end

section \<open>Fixed-size encodings\<close>

text \<open>
  What sender and receiver of a packed structure rely on: the image has a fixed size, and reading
  it back from the front of a longer buffer gives the structure.
\<close>

locale codec =
  fixes enc :: "'a \<Rightarrow> byte list"
    and dcd :: "byte list \<Rightarrow> 'a"
    and width :: nat
    and valid :: "'a \<Rightarrow> bool"
  assumes enc_width: "valid x \<Longrightarrow> length (enc x) = width"
    and dcd_enc: "valid x \<Longrightarrow> dcd (enc x @ rest) = x"
begin

lemma dcd_enc_alone: "valid x \<Longrightarrow> dcd (enc x) = x"
  using dcd_enc [of x "[]"] by simp

lemma enc_inj: "valid x \<Longrightarrow> valid y \<Longrightarrow> enc x = enc y \<Longrightarrow> x = y"
  using dcd_enc_alone by metis

lemma enc_prefix_free:
  "valid x \<Longrightarrow> valid y \<Longrightarrow> enc x @ r = enc y @ s \<Longrightarrow> x = y \<and> r = s"
  using dcd_enc [of x r] dcd_enc [of y s] by simp

lemma drop_enc: "valid x \<Longrightarrow> drop width (enc x @ rest) = rest"
  using enc_width [of x] by simp

lemma take_enc: "valid x \<Longrightarrow> take width (enc x @ rest) = enc x"
  using enc_width [of x] by simp

end

section \<open>The message header\<close>

record msg_header_t =
  h_type :: byte
  h_flags :: byte
  h_payload_len :: u32
  h_reserved :: u16

definition HDR_SIZE :: nat where "HDR_SIZE = 8"

definition zero_header :: msg_header_t where
  "zero_header = \<lparr>h_type = 0, h_flags = 0, h_payload_len = 0, h_reserved = 0\<rparr>"

definition mem_header :: "msg_header_t \<Rightarrow> byte list" where
  "mem_header h = [h_type h, h_flags h] @ mem32 (h_payload_len h) @ mem16 (h_reserved h)"

definition rd_header :: "byte list \<Rightarrow> msg_header_t" where
  "rd_header bs = \<lparr>h_type = bs ! 0, h_flags = bs ! 1, h_payload_len = rd32 (drop 2 bs),
     h_reserved = rd16 (drop 6 bs)\<rparr>"

lemma length_mem_header [simp, mem_simps]: "length (mem_header h) = 8"
  by (simp add: mem_header_def)

lemma drop_mem [simp]:
  "drop 4 (mem32 w @ bs) = bs" "drop 2 (mem16 v @ bs) = bs" "drop 4 (mem32 w) = []"
  by simp_all

lemma drop_6_header: "drop 6 (a # b # mem32 w @ bs) = bs"
  by (simp add: mem32_def)

lemma rd_mem_header [simp, mem_simps]: "rd_header (mem_header h @ bs) = h"
  by (simp add: rd_header_def mem_header_def drop_6_header)

lemma rd_mem_header_Nil [simp, mem_simps]: "rd_header (mem_header h) = h"
  using rd_mem_header [of h "[]"] by simp

section \<open>Payload structures\<close>

record payload_hello_t =
  tcp_port :: u16
  hostname :: "byte list"

definition HELLO_SIZE :: nat where "HELLO_SIZE = 2 + MAX_HOSTNAME_LEN"

definition mem_hello :: "payload_hello_t \<Rightarrow> byte list" where
  "mem_hello h = mem16 (tcp_port h) @ hostname h"

definition rd_hello :: "byte list \<Rightarrow> payload_hello_t" where
  "rd_hello bs = \<lparr>tcp_port = rd16 bs, hostname = take MAX_HOSTNAME_LEN (drop 2 bs)\<rparr>"

record payload_load_resp_t =
  lr_load_pct :: u32
  lr_active_tasks :: u32
  lr_total_tasks :: u32
  lr_num_cores :: u32

definition LOAD_RESP_SIZE :: nat where "LOAD_RESP_SIZE = 16"

definition mem_load_resp :: "payload_load_resp_t \<Rightarrow> byte list" where
  "mem_load_resp r = mem32 (lr_load_pct r) @ mem32 (lr_active_tasks r)
     @ mem32 (lr_total_tasks r) @ mem32 (lr_num_cores r)"

definition rd_load_resp :: "byte list \<Rightarrow> payload_load_resp_t" where
  "rd_load_resp bs = \<lparr>lr_load_pct = rd32 bs, lr_active_tasks = rd32 (drop 4 bs),
     lr_total_tasks = rd32 (drop 8 bs), lr_num_cores = rd32 (drop 12 bs)\<rparr>"

record payload_task_done_t =
  td_exit_code :: u32

definition mem_task_done :: "payload_task_done_t \<Rightarrow> byte list" where
  "mem_task_done d = mem32 (td_exit_code d)"

lemma length_mem_load_resp [simp, mem_simps]: "length (mem_load_resp r) = 16"
  by (simp add: mem_load_resp_def)

lemma length_mem_hello [simp, mem_simps]: "length (mem_hello h) = 2 + length (hostname h)"
  by (simp add: mem_hello_def)

lemma rd_mem_hello [simp, mem_simps]:
  "length (hostname h) = MAX_HOSTNAME_LEN \<Longrightarrow> rd_hello (mem_hello h @ bs) = h"
  by (simp add: rd_hello_def mem_hello_def)

lemma drop_8_12: "drop 8 (mem32 a @ mem32 b @ bs) = bs"
    "drop 12 (mem32 a @ mem32 b @ mem32 c @ bs) = bs"
  by (simp_all add: mem32_def)

lemma rd_mem_load_resp [simp, mem_simps]: "rd_load_resp (mem_load_resp r @ bs) = r"
  by (simp add: rd_load_resp_def mem_load_resp_def drop_8_12)

lemma rd_mem_task_done [simp, mem_simps]: "rd32 (mem_task_done d @ bs) = td_exit_code d"
  by (simp add: mem_task_done_def)

interpretation hdr: codec mem_header rd_header HDR_SIZE "\<lambda>_. True"
  by unfold_locales (simp_all add: HDR_SIZE_def)

interpretation hello: codec mem_hello rd_hello HELLO_SIZE
    "\<lambda>h. length (hostname h) = MAX_HOSTNAME_LEN"
  by unfold_locales (simp_all add: HELLO_SIZE_def)

interpretation load_resp: codec mem_load_resp rd_load_resp LOAD_RESP_SIZE "\<lambda>_. True"
  by unfold_locales (simp_all add: LOAD_RESP_SIZE_def)

interpretation task_done: codec mem_task_done "\<lambda>bs. \<lparr>td_exit_code = rd32 bs\<rparr>" 4 "\<lambda>_. True"
  by unfold_locales (simp_all add: mem_task_done_def)

text \<open>The payload of \<^verbatim>\<open>MSG_TASK_DONE\<close> for an exit code.\<close>

definition done_payload :: "u32 \<Rightarrow> byte list" where
  "done_payload ec = mem_task_done \<lparr>td_exit_code = htonl ec\<rparr>"

lemma length_done_payload [simp]: "length (done_payload ec) = 4"
  by (simp add: done_payload_def mem_task_done_def)

lemma done_payload_not_Nil [simp]: "done_payload ec \<noteq> []"
  using length_done_payload [of ec] by (metis list.size(3) zero_neq_numeral)

lemma rd32_done [simp]: "rd32 (done_payload ec @ bs) = htonl ec"
  by (simp add: done_payload_def)

section \<open>Peers and tasks\<close>

record peer_info_t =
  p_ip :: string
  p_port :: u16
  p_load_pct :: f32
  p_active_tasks :: u32
  p_total_tasks :: u32
  p_num_cores :: u32
  p_last_seen :: int
  p_valid :: bool

text \<open>What \<^verbatim>\<open>memset(..., 0, sizeof(peer_info_t))\<close> leaves: an empty string, zeroes, an invalid slot.\<close>

definition zero_peer :: peer_info_t where
  "zero_peer = \<lparr>p_ip = [], p_port = 0, p_load_pct = F32 0, p_active_tasks = 0, p_total_tasks = 0,
     p_num_cores = 0, p_last_seen = 0, p_valid = False\<rparr>"

datatype task_type_t = TASK_FILE

record task_t =
  t_type :: task_type_t
  t_filename :: string
  t_file_data :: "byte list"
  t_file_size :: u32

end
