(* ===== verification/Net_Utils.thy ===== *)
theory Net_Utils
  imports Wire
begin

text \<open>
  \<^verbatim>\<open>net_utils.c\<close>: exact-length transfer over a TCP connection, the framed messages, address
  selection and the socket constructors. The kernel's side is explicit. A connection carries the
  answers its future \<^verbatim>\<open>recv\<close> and \<^verbatim>\<open>send\<close> calls get and the bytes the kernel has
  accepted. A call that has no answer left blocks for ever, which is the value \<open>None\<close>.
\<close>

section \<open>One TCP connection\<close>

datatype rx_event = RxData "byte list" | RxEintr | RxErr | RxEof
datatype tx_event = TxTake nat | TxEintr | TxErr

record conn =
  rx :: "rx_event list"
  tx :: "tx_event list"
  outp :: "byte list"

text \<open>The result of a system call: a count, or \<open>-1\<close> with \<^verbatim>\<open>errno\<close> EINTR or another error.\<close>

datatype sysret = SRet nat | SEintr | SErr

fun sys_send :: "conn \<Rightarrow> byte list \<Rightarrow> (sysret \<times> conn) option" where
  "sys_send c buf =
     (case tx c of
        [] \<Rightarrow> None
      | TxTake k # es \<Rightarrow>
          let n = min k (length buf) in Some (SRet n, c\<lparr>tx := es, outp := outp c @ take n buf\<rparr>)
      | TxEintr # es \<Rightarrow> Some (SEintr, c\<lparr>tx := es\<rparr>)
      | TxErr # es \<Rightarrow> Some (SErr, c\<lparr>tx := es\<rparr>))"

text \<open>
  \<^verbatim>\<open>recv\<close> takes at most \<open>k\<close> bytes of the segment at the head; the rest of it stays. The end
  of the stream is the count 0, and it stays the end.
\<close>

fun sys_recv :: "conn \<Rightarrow> nat \<Rightarrow> (sysret \<times> byte list \<times> conn) option" where
  "sys_recv c k =
     (case rx c of
        [] \<Rightarrow> None
      | RxData bs # es \<Rightarrow>
          let n = min k (length bs) in
          Some (SRet n, take n bs, c\<lparr>rx := (if n < length bs then RxData (drop n bs) # es else es)\<rparr>)
      | RxEintr # es \<Rightarrow> Some (SEintr, [], c\<lparr>rx := es\<rparr>)
      | RxErr # es \<Rightarrow> Some (SErr, [], c\<lparr>rx := es\<rparr>)
      | RxEof # es \<Rightarrow> Some (SRet 0, [], c))"

declare sys_send.simps [simp del] sys_recv.simps [simp del]

fun rx_weight :: "rx_event list \<Rightarrow> nat" where
  "rx_weight [] = 0"
| "rx_weight (RxData bs # es) = Suc (length bs + rx_weight es)"
| "rx_weight (_ # es) = Suc (rx_weight es)"

lemma sys_send_tx: "sys_send c buf = Some (r, c') \<Longrightarrow> length (tx c') < length (tx c)"
  by (auto simp: sys_send.simps Let_def split: list.splits tx_event.splits)

lemma sys_recv_weight:
  "sys_recv c k = Some (SRet n, bs, c') \<Longrightarrow> 0 < n \<Longrightarrow> rx_weight (rx c') < rx_weight (rx c)"
  "sys_recv c k = Some (SEintr, bs, c') \<Longrightarrow> rx_weight (rx c') < rx_weight (rx c)"
  by (auto simp: sys_recv.simps Let_def split: list.splits rx_event.splits if_splits)

section \<open>send_all and recv_all\<close>

function send_all_loop :: "conn \<Rightarrow> byte list \<Rightarrow> nat \<Rightarrow> (int \<times> conn) option" where
  "send_all_loop c buf sent =
     (if sent < length buf then
        (case sys_send c (drop sent buf) of
           None \<Rightarrow> None
         | Some (SRet n, c') \<Rightarrow>
             if n = 0 then Some (-1, c') else send_all_loop c' buf (sent + n)
         | Some (SEintr, c') \<Rightarrow> send_all_loop c' buf sent
         | Some (SErr, c') \<Rightarrow> Some (-1, c'))
      else Some (0, c))"
  by pat_completeness auto
termination
  by (relation "measure (\<lambda>(c, buf, sent). length (tx c))") (auto dest: sys_send_tx)

definition send_all :: "conn \<Rightarrow> byte list \<Rightarrow> (int \<times> conn) option" where
  "send_all c buf = send_all_loop c buf 0"

function recv_all_loop :: "conn \<Rightarrow> nat \<Rightarrow> byte list \<Rightarrow> (int \<times> byte list \<times> conn) option" where
  "recv_all_loop c len got =
     (if length got < len then
        (case sys_recv c (len - length got) of
           None \<Rightarrow> None
         | Some (SRet n, bs, c') \<Rightarrow>
             if n = 0 then Some (-1, got, c') else recv_all_loop c' len (got @ bs)
         | Some (SEintr, bs, c') \<Rightarrow> recv_all_loop c' len got
         | Some (SErr, bs, c') \<Rightarrow> Some (-1, got, c'))
      else Some (0, got, c))"
  by pat_completeness auto
termination
  by (relation "measure (\<lambda>(c, len, got). rx_weight (rx c))") (auto dest: sys_recv_weight)

definition recv_all :: "conn \<Rightarrow> nat \<Rightarrow> (int \<times> byte list \<times> conn) option" where
  "recv_all c len = recv_all_loop c len []"

declare send_all_loop.simps [simp del] recv_all_loop.simps [simp del]

section \<open>send_msg and recv_msg\<close>

definition send_msg :: "conn \<Rightarrow> msg_type_t \<Rightarrow> byte list option \<Rightarrow> u32 \<Rightarrow> (int \<times> conn) option" where
  "send_msg c type payload payload_len =
     (let hdr = zero_header\<lparr>h_type := msg_code type, h_payload_len := htonl payload_len\<rparr> in
      do { (r, c1) \<leftarrow> send_all c (mem_header hdr);
           if r \<noteq> 0 then Some (-1, c1)
           else case payload of
             None \<Rightarrow> Some (0, c1)
           | Some p \<Rightarrow>
               if 0 < payload_len then
                 do { (r2, c2) \<leftarrow> send_all c1 (take (unat payload_len) p);
                      if r2 \<noteq> 0 then Some (-1, c2) else Some (0, c2) }
               else Some (0, c1) })"

text \<open>
  What \<^verbatim>\<open>recv_msg\<close> stores through its pointers on success. The payload buffer has one byte
  more than the payload, the terminating NUL; it is NULL (\<open>None\<close>) for an empty payload.
\<close>

record recvd =
  rm_type :: byte
  rm_payload :: "byte list option"
  rm_len :: u32

definition RECV_LIMIT :: nat where
  "RECV_LIMIT = MAX_FILE_SIZE + MAX_FILENAME_LEN + 8"

text \<open>
  The inner \<open>None\<close> is the return value \<open>-1\<close>. \<open>malloc_ok n\<close> says whether
  \<^verbatim>\<open>malloc\<close> grants \<open>n\<close> bytes.
\<close>

definition recv_msg :: "(nat \<Rightarrow> bool) \<Rightarrow> conn \<Rightarrow> (recvd option \<times> conn) option" where
  "recv_msg malloc_ok c =
     do { (r, hb, c1) \<leftarrow> recv_all c HDR_SIZE;
          if r \<noteq> 0 then Some (None, c1)
          else
            let hdr = rd_header hb; plen = ntohl (h_payload_len hdr) in
            if 0 < plen then
              (if RECV_LIMIT < unat plen then Some (None, c1)
               else if \<not> malloc_ok (unat plen + 1) then Some (None, c1)
               else do { (r2, pb, c2) \<leftarrow> recv_all c1 (unat plen);
                         if r2 \<noteq> 0 then Some (None, c2)
                         else Some (Some \<lparr>rm_type = h_type hdr, rm_payload = Some (pb @ [0]),
                                          rm_len = plen\<rparr>, c2) })
            else Some (Some \<lparr>rm_type = h_type hdr, rm_payload = None, rm_len = plen\<rparr>, c1) }"

section \<open>A connection as a byte stream\<close>

text \<open>
  The segments, interruptions and errors the receiver meets amount to a stream of bytes and
  whether the stream ends after them; the sender's side amounts to the bytes accepted so far.
\<close>

fun rx_stream :: "rx_event list \<Rightarrow> byte list" where
  "rx_stream [] = []"
| "rx_stream (RxData bs # es) = (if bs = [] then [] else bs @ rx_stream es)"
| "rx_stream (RxEintr # es) = rx_stream es"
| "rx_stream (RxErr # es) = []"
| "rx_stream (RxEof # es) = []"

fun rx_closed :: "rx_event list \<Rightarrow> bool" where
  "rx_closed [] = False"
| "rx_closed (RxData bs # es) = (bs = [] \<or> rx_closed es)"
| "rx_closed (RxEintr # es) = rx_closed es"
| "rx_closed (RxErr # es) = True"
| "rx_closed (RxEof # es) = True"

abbreviation stream :: "conn \<Rightarrow> byte list" where "stream c \<equiv> rx_stream (rx c)"
abbreviation closed :: "conn \<Rightarrow> bool" where "closed c \<equiv> rx_closed (rx c)"

definition same_tx :: "conn \<Rightarrow> conn \<Rightarrow> bool" where
  "same_tx c c' \<longleftrightarrow> tx c' = tx c \<and> outp c' = outp c"

lemma same_tx_refl [simp]: "same_tx c c"
  by (simp add: same_tx_def)

lemma same_tx_trans: "same_tx a b \<Longrightarrow> same_tx b c \<Longrightarrow> same_tx a c"
  by (simp add: same_tx_def)

lemma sys_recv_None: "sys_recv c k = None \<Longrightarrow> stream c = [] \<and> \<not> closed c"
  by (auto simp: sys_recv.simps Let_def split: list.splits rx_event.splits)

lemma sys_recv_zero: "sys_recv c k = Some (SRet 0, bs, c') \<Longrightarrow> 0 < k \<Longrightarrow>
    stream c = [] \<and> closed c \<and> same_tx c c'"
  by (auto simp: sys_recv.simps Let_def min_def same_tx_def split: list.splits rx_event.splits if_splits)

lemma sys_recv_data: "sys_recv c k = Some (SRet n, bs, c') \<Longrightarrow> 0 < n \<Longrightarrow>
    length bs = n \<and> n \<le> k \<and> stream c = bs @ stream c' \<and> closed c' = closed c \<and> same_tx c c'"
  by (auto simp: sys_recv.simps Let_def min_def same_tx_def split: list.splits rx_event.splits if_splits)

lemma sys_recv_eintr: "sys_recv c k = Some (SEintr, bs, c') \<Longrightarrow>
    stream c' = stream c \<and> closed c' = closed c \<and> same_tx c c'"
  by (auto simp: sys_recv.simps Let_def same_tx_def split: list.splits rx_event.splits)

lemma sys_recv_err: "sys_recv c k = Some (SErr, bs, c') \<Longrightarrow> stream c = [] \<and> closed c \<and> same_tx c c'"
  by (auto simp: sys_recv.simps Let_def same_tx_def split: list.splits rx_event.splits)

lemma recv_all_loop_spec:
  assumes "length got \<le> len"
  shows "case recv_all_loop c len got of
      None \<Rightarrow> length got + length (stream c) < len \<and> \<not> closed c
    | Some (r, bs, c') \<Rightarrow> same_tx c c' \<and>
        (if len \<le> length got + length (stream c)
         then r = 0 \<and> got @ stream c = bs @ stream c' \<and> length bs = len \<and> closed c' = closed c
         else r = -1 \<and> closed c)"
  using assms
proof (induction c len got rule: recv_all_loop.induct)
  case (1 c len got)
  show ?case
  proof (cases "length got < len")
    case False
    then show ?thesis using 1 by (simp add: recv_all_loop.simps [of c])
  next
    case less: True
    note unf = recv_all_loop.simps [of c len got]
    show ?thesis
    proof (cases "sys_recv c (len - length got)")
      case None
      then show ?thesis using less sys_recv_None [OF None] by (simp add: unf)
    next
      case (Some x)
      then obtain r bs c' where x: "sys_recv c (len - length got) = Some (r, bs, c')"
        by (cases x) auto
      show ?thesis
      proof (cases r)
        case (SRet n)
        show ?thesis
        proof (cases "n = 0")
          case True
          then show ?thesis using less x SRet sys_recv_zero [of c "len - length got" bs c']
            by (simp add: unf)
        next
          case False
          with x SRet have d: "length bs = n" "n \<le> len - length got" "stream c = bs @ stream c'"
              "closed c' = closed c" "same_tx c c'"
            using sys_recv_data [of c "len - length got" n bs c'] by auto
          then have le: "length (got @ bs) \<le> len" using less by simp
          from 1(1) [OF less x refl SRet refl False le] show ?thesis
            using x SRet False d less
            by (auto simp: unf split: option.splits if_splits intro: same_tx_trans [OF d(5)])
        qed
      next
        case SEintr
        with x have d: "stream c' = stream c" "closed c' = closed c" "same_tx c c'"
          using sys_recv_eintr [of c "len - length got" bs c'] by auto
        from 1(2) [OF less x refl SEintr refl] show ?thesis
          using x SEintr d less
          by (auto simp: unf split: option.splits if_splits intro: same_tx_trans [OF d(3)])
      next
        case SErr
        then show ?thesis using less x sys_recv_err [of c "len - length got" bs c'] by (simp add: unf)
      qed
    qed
  qed
qed

lemma recv_all_enough:
  assumes "n \<le> length (stream c)"
  obtains c' where "recv_all c n = Some (0, take n (stream c), c')" "stream c' = drop n (stream c)"
    "closed c' = closed c" "same_tx c c'"
proof -
  from recv_all_loop_spec [of "[]" n c] assms obtain bs c' where
    *: "recv_all c n = Some (0, bs, c')" "stream c = bs @ stream c'" "length bs = n"
      "closed c' = closed c" "same_tx c c'"
    by (auto simp: recv_all_def split: option.splits)
  show ?thesis by (rule that [of c']) (use * in auto)
qed

lemma recv_all_short_closed:
  assumes "length (stream c) < n" "closed c"
  obtains bs c' where "recv_all c n = Some (-1, bs, c')" "same_tx c c'"
  using recv_all_loop_spec [of "[]" n c] assms
  by (fastforce simp: recv_all_def split: option.splits)

lemma recv_all_short_open:
  "length (stream c) < n \<Longrightarrow> \<not> closed c \<Longrightarrow> recv_all c n = None"
  using recv_all_loop_spec [of "[]" n c]
  by (fastforce simp: recv_all_def split: option.splits)

section \<open>The receiving side as an interface\<close>

text \<open>
  What a reader of messages relies on: a read of \<open>n\<close> bytes gives exactly the next \<open>n\<close>
  bytes of the stream when they are there, fails when the stream ends before, and waits otherwise.
\<close>

locale byte_source =
  fixes pull :: "'c \<Rightarrow> nat \<Rightarrow> (int \<times> byte list \<times> 'c) option"
    and avail :: "'c \<Rightarrow> byte list"
    and ended :: "'c \<Rightarrow> bool"
  assumes pull_enough: "n \<le> length (avail c) \<Longrightarrow>
      \<exists>c'. pull c n = Some (0, take n (avail c), c') \<and> avail c' = drop n (avail c) \<and> ended c' = ended c"
    and pull_short: "length (avail c) < n \<Longrightarrow> ended c \<Longrightarrow> \<exists>bs c'. pull c n = Some (-1, bs, c')"
    and pull_wait: "length (avail c) < n \<Longrightarrow> \<not> ended c \<Longrightarrow> pull c n = None"
begin

lemma pull_prefix:
  "avail c = a @ rest \<Longrightarrow> \<exists>c'. pull c (length a) = Some (0, a, c') \<and> avail c' = rest \<and> ended c' = ended c"
  using pull_enough [of "length a" c] by auto

lemma pull_two:
  assumes "avail c = a @ b @ rest"
  shows "\<exists>c1 c2. pull c (length a) = Some (0, a, c1) \<and> pull c1 (length b) = Some (0, b, c2) \<and>
    avail c2 = rest \<and> ended c2 = ended c"
proof -
  from pull_prefix [OF assms] obtain c1 where c1: "pull c (length a) = Some (0, a, c1)"
      "avail c1 = b @ rest" "ended c1 = ended c" by blast
  from pull_prefix [OF c1(2)] c1 show ?thesis by auto
qed

lemma pull_Some_0:
  "pull c n = Some (0, bs, c') \<Longrightarrow> n \<le> length (avail c) \<and> bs = take n (avail c) \<and> avail c' = drop n (avail c)
     \<and> ended c' = ended c"
  using pull_enough [of n c] pull_short [of c n] pull_wait [of c n]
  by (cases "n \<le> length (avail c)"; cases "ended c") auto

lemma pull_failed: "pull c n = Some (r, bs, c') \<Longrightarrow> r \<noteq> 0 \<Longrightarrow> r = -1 \<and> length (avail c) < n \<and> ended c"
  using pull_enough [of n c] pull_short [of c n] pull_wait [of c n]
  by (cases "n \<le> length (avail c)"; cases "ended c") auto

lemma pull_blocked: "pull c n = None \<longleftrightarrow> length (avail c) < n \<and> \<not> ended c"
  using pull_enough [of n c] pull_short [of c n] pull_wait [of c n]
  by (cases "n \<le> length (avail c)"; cases "ended c") auto

end

interpretation tcp: byte_source recv_all stream closed
proof unfold_locales
  fix n c
  show "n \<le> length (stream c) \<Longrightarrow>
      \<exists>c'. recv_all c n = Some (0, take n (stream c), c') \<and> stream c' = drop n (stream c) \<and> closed c' = closed c"
    by (metis recv_all_enough)
  show "length (stream c) < n \<Longrightarrow> closed c \<Longrightarrow> \<exists>bs c'. recv_all c n = Some (-1, bs, c')"
    by (metis recv_all_short_closed)
  show "length (stream c) < n \<Longrightarrow> \<not> closed c \<Longrightarrow> recv_all c n = None"
    by (rule recv_all_short_open)
qed

lemma recv_all_same_tx: "recv_all c n = Some (r, bs, c') \<Longrightarrow> same_tx c c'"
  using recv_all_loop_spec [of "[]" n c] by (simp add: recv_all_def)

section \<open>recv_msg against the stream\<close>

text \<open>The contract of \<^verbatim>\<open>recv_msg\<close>: what it does with a stream, whatever the segments are.\<close>

datatype msg_outcome = Msg_Waits | Msg_Fails | Msg_Got recvd "byte list"

definition msg_spec :: "(nat \<Rightarrow> bool) \<Rightarrow> byte list \<Rightarrow> bool \<Rightarrow> msg_outcome" where
  "msg_spec malloc_ok s ends =
     (let short = (if ends then Msg_Fails else Msg_Waits);
          hdr = rd_header s; plen = ntohl (h_payload_len hdr); n = unat plen
      in if length s < HDR_SIZE then short
         else if n = 0 then
           Msg_Got \<lparr>rm_type = h_type hdr, rm_payload = None, rm_len = 0\<rparr> (drop HDR_SIZE s)
         else if RECV_LIMIT < n \<or> \<not> malloc_ok (n + 1) then Msg_Fails
         else if length s < HDR_SIZE + n then short
         else Msg_Got \<lparr>rm_type = h_type hdr, rm_payload = Some (take n (drop HDR_SIZE s) @ [0]),
                       rm_len = plen\<rparr> (drop (HDR_SIZE + n) s))"

lemma rd_header_take: "8 \<le> length s \<Longrightarrow> rd_header (take 8 s) = rd_header s"
  by (simp add: rd_header_def rd32_def rd16_def)

lemma recv_msg_spec:
  "(case recv_msg malloc_ok c of
      None \<Rightarrow> msg_spec malloc_ok (stream c) (closed c) = Msg_Waits
    | Some (None, c') \<Rightarrow> msg_spec malloc_ok (stream c) (closed c) = Msg_Fails \<and> same_tx c c'
    | Some (Some m, c') \<Rightarrow> msg_spec malloc_ok (stream c) (closed c) = Msg_Got m (stream c') \<and>
        closed c' = closed c \<and> same_tx c c')"
proof (cases "recv_all c HDR_SIZE")
  case None
  with tcp.pull_blocked [of c HDR_SIZE] show ?thesis by (simp add: recv_msg_def msg_spec_def)
next
  case (Some x)
  then obtain r hb c1 where x: "recv_all c HDR_SIZE = Some (r, hb, c1)" by (cases x) auto
  note tx1 = recv_all_same_tx [OF x]
  show ?thesis
  proof (cases "r = 0")
    case False
    then show ?thesis using x tx1 tcp.pull_failed [OF x] by (simp add: recv_msg_def msg_spec_def)
  next
    case True
    from tcp.pull_Some_0 [OF x [unfolded True]] have h: "HDR_SIZE \<le> length (stream c)"
        "hb = take HDR_SIZE (stream c)" "stream c1 = drop HDR_SIZE (stream c)" "closed c1 = closed c"
      by auto
    then have hb: "rd_header hb = rd_header (stream c)" by (simp add: rd_header_take HDR_SIZE_def)
    define plen where "plen = ntohl (h_payload_len (rd_header (stream c)))"
    show ?thesis
    proof (cases "plen = 0 \<or> RECV_LIMIT < unat plen \<or> \<not> malloc_ok (unat plen + 1)")
      case True
      then show ?thesis using x tx1 \<open>r = 0\<close> h hb
        by (auto simp: recv_msg_def msg_spec_def Let_def plen_def word_neq_0_conv unat_eq_0)
    next
      case False
      then have pos: "0 < plen" "unat plen \<noteq> 0" by (auto simp: word_neq_0_conv unat_eq_0)
      show ?thesis
      proof (cases "recv_all c1 (unat plen)")
        case None
        then have "length (stream c1) < unat plen" "\<not> closed c1" by (simp_all add: tcp.pull_blocked)
        then show ?thesis using None x tx1 \<open>r = 0\<close> h hb False pos
          by (simp add: recv_msg_def msg_spec_def Let_def flip: plen_def)
      next
        case (Some y)
        then obtain r2 pb c2 where y: "recv_all c1 (unat plen) = Some (r2, pb, c2)" by (cases y) auto
        have tx2: "same_tx c c2" using tx1 recv_all_same_tx [OF y] by (rule same_tx_trans)
        show ?thesis
        proof (cases "r2 = 0")
          case True
          from tcp.pull_Some_0 [OF y [unfolded True]] have
            "unat plen \<le> length (stream c1)" "pb = take (unat plen) (stream c1)"
            "stream c2 = drop (unat plen) (stream c1)" "closed c2 = closed c1" by auto
          then show ?thesis using x y True \<open>r = 0\<close> h hb False pos tx2
            by (simp add: recv_msg_def msg_spec_def Let_def add.commute flip: plen_def)
        next
          case no: False
          then show ?thesis using x y \<open>r = 0\<close> h hb False pos tx2 tcp.pull_failed [OF y no]
            by (simp add: recv_msg_def msg_spec_def Let_def flip: plen_def) linarith
        qed
      qed
    qed
  qed
qed

section \<open>The sending side\<close>

lemma sys_send_SRet: "sys_send c buf = Some (SRet n, c') \<Longrightarrow>
    n \<le> length buf \<and> outp c' = outp c @ take n buf \<and> rx c' = rx c"
  by (auto simp: sys_send.simps Let_def split: list.splits tx_event.splits)

lemma sys_send_failed: "sys_send c buf = Some (r, c') \<Longrightarrow> r = SEintr \<or> r = SErr \<Longrightarrow>
    outp c' = outp c \<and> rx c' = rx c"
  by (auto simp: sys_send.simps Let_def split: list.splits tx_event.splits)

lemma send_all_loop_spec:
  "send_all_loop c buf sent = Some (r, c') \<Longrightarrow> sent \<le> length buf \<Longrightarrow>
     rx c' = rx c \<and> (r = 0 \<and> outp c' = outp c @ drop sent buf \<or>
       r = -1 \<and> (\<exists>k. sent + k < length buf \<and> outp c' = outp c @ take k (drop sent buf)))"
proof (induction c buf sent rule: send_all_loop.induct)
  case (1 c buf sent)
  note unf = send_all_loop.simps [of c buf sent]
  show ?case
  proof (cases "sent < length buf")
    case False
    then show ?thesis using 1 by (simp add: unf send_all_loop.simps [of c buf "length buf"])
  next
    case less: True
    with 1(3) obtain q c1 where q: "sys_send c (drop sent buf) = Some (q, c1)"
      by (auto simp: unf split: option.splits)
    show ?thesis
    proof (cases q)
      case (SRet n)
      have s: "n \<le> length (drop sent buf)" "outp c1 = outp c @ take n (drop sent buf)" "rx c1 = rx c"
        using sys_send_SRet [OF q [unfolded SRet]] by auto
      show ?thesis
      proof (cases "n = 0")
        case True
        then have "r = -1 \<and> c' = c1" using 1(3) less q SRet by (simp add: unf)
        then show ?thesis using s True less by (auto intro: exI [of _ 0])
      next
        case False
        have sb: "sent + n \<le> length buf" using s less by auto
        have "send_all_loop c1 buf (sent + n) = Some (r, c')"
          using 1(3) less q SRet False by (simp add: unf)
        from 1(1) [OF less q refl SRet False this sb] show ?thesis
        proof (elim conjE disjE exE)
          assume "r = 0" "outp c' = outp c1 @ drop (sent + n) buf" "rx c' = rx c1"
          then show ?thesis using s by (simp add: add.commute flip: drop_drop)
        next
          fix k assume k: "r = -1" "sent + n + k < length buf" "rx c' = rx c1"
            "outp c' = outp c1 @ take k (drop (sent + n) buf)"
          then have "outp c' = outp c @ take (n + k) (drop sent buf)"
            using s by (simp add: take_add add.commute [of sent n])
          then show ?thesis using k s by (auto intro!: exI [of _ "n + k"])
        qed
      qed
    next
      case SEintr
      then have "send_all_loop c1 buf sent = Some (r, c')" using 1(3) less q by (simp add: unf)
      from 1(2) [OF less q refl SEintr this 1(4)] show ?thesis
        using sys_send_failed [OF q] SEintr by simp
    next
      case SErr
      then have "r = -1 \<and> c' = c1" using 1(3) less q by (simp add: unf)
      then show ?thesis using sys_send_failed [OF q] SErr less by (auto intro!: exI [of _ 0])
    qed
  qed
qed

lemma send_all_spec:
  assumes "send_all c buf = Some (r, c')"
  shows "rx c' = rx c" "r = 0 \<or> r = -1" "r = 0 \<Longrightarrow> outp c' = outp c @ buf"
    "r \<noteq> 0 \<Longrightarrow> \<exists>k < length buf. outp c' = outp c @ take k buf"
  using send_all_loop_spec [of c buf 0 r c'] assms by (auto simp: send_all_def)

text \<open>
  A connection whose next sends neither fail nor take nothing: enough of them take at least one
  byte each, with any number of interruptions between.
\<close>

definition tx_ok :: "tx_event list \<Rightarrow> bool" where
  "tx_ok es = list_all (\<lambda>e. e \<noteq> TxErr \<and> e \<noteq> TxTake 0) es"

definition tx_takes :: "tx_event list \<Rightarrow> nat" where
  "tx_takes es = length (filter (\<lambda>e. e \<noteq> TxEintr) es)"

lemma send_all_loop_live:
  "tx_ok (tx c) \<Longrightarrow> length buf - sent \<le> tx_takes (tx c) \<Longrightarrow>
     \<exists>c'. send_all_loop c buf sent = Some (0, c') \<and> tx_ok (tx c') \<and>
       tx_takes (tx c) \<le> tx_takes (tx c') + (length buf - sent)"
proof (induction c buf sent rule: send_all_loop.induct)
  case (1 c buf sent)
  note unf = send_all_loop.simps [of c buf sent]
  show ?case
  proof (cases "sent < length buf")
    case False
    then show ?thesis using 1 by (simp add: unf)
  next
    case less: True
    with 1(4) obtain e es where e: "tx c = e # es" by (cases "tx c") (auto simp: tx_takes_def)
    show ?thesis
    proof (cases e)
      case (TxTake k)
      define n where "n = min k (length (drop sent buf))"
      have n: "0 < n" using 1(3) e TxTake less by (auto simp: n_def tx_ok_def)
      let ?c1 = "c\<lparr>tx := es, outp := outp c @ take n (drop sent buf)\<rparr>"
      have q: "sys_send c (drop sent buf) = Some (SRet n, ?c1)"
        using e TxTake by (simp add: sys_send.simps n_def Let_def)
      have p: "tx_ok (tx ?c1)" "length buf - (sent + n) \<le> tx_takes (tx ?c1)"
        using 1(3,4) e TxTake n by (auto simp: tx_ok_def tx_takes_def)
      have "n \<noteq> 0" using n by simp
      from 1(1) [OF less q refl refl this p] show ?thesis
        using less q n e TxTake by (fastforce simp: unf tx_takes_def)
    next
      case TxEintr
      let ?c1 = "c\<lparr>tx := es\<rparr>"
      have q: "sys_send c (drop sent buf) = Some (SEintr, ?c1)"
        using e TxEintr by (simp add: sys_send.simps)
      have p: "tx_ok (tx ?c1)" "length buf - sent \<le> tx_takes (tx ?c1)"
        using 1(3,4) e TxEintr by (auto simp: tx_ok_def tx_takes_def)
      from 1(2) [OF less q refl refl p] show ?thesis
        using less q e TxEintr by (fastforce simp: unf tx_takes_def)
    next
      case TxErr
      then show ?thesis using 1(3) e by (simp add: tx_ok_def)
    qed
  qed
qed

lemma send_all_live:
  assumes "tx_ok (tx c)" "length buf \<le> tx_takes (tx c)"
  obtains c' where "send_all c buf = Some (0, c')" "tx_ok (tx c')"
    "tx_takes (tx c) \<le> tx_takes (tx c') + length buf"
  using send_all_loop_live [of c buf 0] assms by (auto simp: send_all_def)

section \<open>Frames\<close>

definition frame :: "msg_type_t \<Rightarrow> byte list \<Rightarrow> byte list" where
  "frame type p =
     mem_header (zero_header\<lparr>h_type := msg_code type, h_payload_len := htonl (word_of_nat (length p))\<rparr>) @ p"

lemma length_frame [simp, mem_simps]: "length (frame type p) = 8 + length p"
  by (simp add: frame_def)

lemma unat_of_nat_u32: "n < 2 ^ 32 \<Longrightarrow> unat (word_of_nat n :: u32) = n"
  by (simp add: unat_of_nat)

lemma send_msg_frame:
  assumes "send_msg c type (Some p) (word_of_nat (length p)) = Some (r, c')" "length p < 2 ^ 32"
  shows "rx c' = rx c" "r = 0 \<or> r = -1" "r = 0 \<Longrightarrow> outp c' = outp c @ frame type p"
    "r \<noteq> 0 \<Longrightarrow> \<exists>k < length (frame type p). outp c' = outp c @ take k (frame type p)"
proof -
  let ?h = "mem_header (zero_header\<lparr>h_type := msg_code type,
      h_payload_len := htonl (word_of_nat (length p))\<rparr>)"
  obtain r1 c1 where h: "send_all c ?h = Some (r1, c1)"
    using assms(1) by (auto simp: send_msg_def Let_def bind_eq_Some_conv)
  note s1 = send_all_spec [OF h]
  have *: "rx c' = rx c \<and> (r = 0 \<and> outp c' = outp c @ frame type p \<or>
    r = -1 \<and> (\<exists>k < length (frame type p). outp c' = outp c @ take k (frame type p)))"
  proof (cases "r1 = 0")
    case False
    with assms(1) h have r: "r = -1" "c' = c1" by (simp_all add: send_msg_def Let_def)
    from s1(4) [OF False] obtain k where "k < length ?h" "outp c1 = outp c @ take k ?h" by blast
    then show ?thesis using r s1(1) by (auto simp: frame_def intro!: exI [of _ k])
  next
    case True
    show ?thesis
    proof (cases "p = []")
      case True
      then show ?thesis using assms(1) h \<open>r1 = 0\<close> s1 by (auto simp: send_msg_def Let_def frame_def)
    next
      case False
      then have "0 < (word_of_nat (length p) :: u32)"
        using assms(2) by (simp add: word_less_nat_alt unat_of_nat_u32)
      then obtain r2 where p: "send_all c1 p = Some (r2, c')" "r = (if r2 = 0 then 0 else -1)"
        using assms h \<open>r1 = 0\<close>
        by (auto simp: send_msg_def Let_def unat_of_nat_u32 bind_eq_Some_conv split: if_splits)
      note s2 = send_all_spec [OF p(1)]
      show ?thesis
      proof (cases "r2 = 0")
        case False
        from s2(4) [OF False] obtain k where "k < length p" "outp c' = outp c1 @ take k p" by blast
        then show ?thesis using False p s1 s2(1) True
          by (auto simp: frame_def intro!: exI [of _ "8 + k"])
      qed (use p s1 s2 True in \<open>simp add: frame_def\<close>)
    qed
  qed
  then show "rx c' = rx c" "r = 0 \<or> r = -1" "r = 0 \<Longrightarrow> outp c' = outp c @ frame type p"
    "r \<noteq> 0 \<Longrightarrow> \<exists>k < length (frame type p). outp c' = outp c @ take k (frame type p)" by auto
qed

lemma rd_header_frame: "rd_header (frame type p @ rest) =
    zero_header\<lparr>h_type := msg_code type, h_payload_len := htonl (word_of_nat (length p))\<rparr>"
  by (simp add: frame_def)

lemma RECV_LIMIT_lt: "n \<le> RECV_LIMIT \<Longrightarrow> n < 2 ^ 32"
  by (simp add: RECV_LIMIT_def limit_defs)

definition got_frame :: "msg_type_t \<Rightarrow> byte list \<Rightarrow> recvd" where
  "got_frame type p = \<lparr>rm_type = msg_code type, rm_payload = (if p = [] then None else Some (p @ [0])),
     rm_len = word_of_nat (length p)\<rparr>"

lemma msg_spec_frame:
  assumes "length p \<le> RECV_LIMIT" "p \<noteq> [] \<Longrightarrow> malloc_ok (length p + 1)"
  shows "msg_spec malloc_ok (frame type p @ rest) ends = Msg_Got (got_frame type p) rest"
proof -
  have "drop 8 (frame type p @ rest) = p @ rest" by (simp add: frame_def)
  moreover from this have "drop (8 + length p) (frame type p @ rest) = rest" by (simp flip: drop_drop)
  ultimately show ?thesis
    using assms unat_of_nat_u32 [OF RECV_LIMIT_lt [OF assms(1)]]
    by (auto simp: msg_spec_def Let_def rd_header_frame got_frame_def HDR_SIZE_def)
qed

text \<open>A stream that ends anywhere inside a frame gives no message.\<close>

lemma msg_spec_cut:
  assumes "n < length (frame type p)" "length p < 2 ^ 32"
  shows "msg_spec malloc_ok (take n (frame type p)) True = Msg_Fails"
proof (cases "n < HDR_SIZE")
  case True
  then show ?thesis using assms(1) by (simp add: msg_spec_def Let_def)
next
  case False
  let ?s = "take n (frame type p)"
  have "take 8 ?s = take 8 (frame type p)" using False by (simp add: HDR_SIZE_def min_def)
  then have "rd_header ?s = rd_header (frame type p @ [])"
    using False assms(1) rd_header_take [of ?s] rd_header_take [of "frame type p"] by (simp add: HDR_SIZE_def)
  then have "unat (ntohl (h_payload_len (rd_header ?s))) = length p"
    using assms(2) rd_header_frame [of type p "[]"] by (simp add: unat_of_nat_u32)
  then show ?thesis using False assms(1) by (cases "p = []") (simp_all add: msg_spec_def Let_def HDR_SIZE_def)
qed

lemma msg_spec_frame_long:
  "RECV_LIMIT < length p \<Longrightarrow> length p < 2 ^ 32 \<Longrightarrow>
     msg_spec malloc_ok (frame type p @ rest) ends = Msg_Fails"
  by (auto simp: msg_spec_def Let_def rd_header_frame HDR_SIZE_def unat_of_nat_u32)

lemma recv_msg_Got:
  assumes "msg_spec malloc_ok (stream c) (closed c) = Msg_Got m rest"
  obtains c' where "recv_msg malloc_ok c = Some (Some m, c')" "stream c' = rest"
    "closed c' = closed c" "same_tx c c'"
proof (cases "recv_msg malloc_ok c")
  case None
  then show ?thesis using recv_msg_spec [of malloc_ok c] assms by simp
next
  case (Some x)
  obtain y c' where x: "x = (y, c')" by (cases x)
  then show ?thesis
    using recv_msg_spec [of malloc_ok c] assms Some that [of c'] by (cases y) simp_all
qed

lemma recv_msg_frame:
  assumes "stream c = frame type p @ rest" "length p \<le> RECV_LIMIT" "p \<noteq> [] \<Longrightarrow> malloc_ok (length p + 1)"
  obtains c' where "recv_msg malloc_ok c = Some (Some (got_frame type p), c')" "stream c' = rest"
    "closed c' = closed c" "same_tx c c'"
proof -
  have "msg_spec malloc_ok (stream c) (closed c) = Msg_Got (got_frame type p) rest"
    unfolding assms(1) by (rule msg_spec_frame [OF assms(2)]) (rule assms(3))
  from recv_msg_Got [OF this] that show ?thesis by blast
qed

section \<open>A received message uses up input\<close>

lemma sys_recv_weight_le: "sys_recv c k = Some (r, bs, c') \<Longrightarrow> rx_weight (rx c') \<le> rx_weight (rx c)"
  by (auto simp: sys_recv.simps Let_def split: list.splits rx_event.splits if_splits)

lemma recv_all_loop_weight:
  "recv_all_loop c len got = Some (r, bs, c') \<Longrightarrow> rx_weight (rx c') \<le> rx_weight (rx c) \<and>
     (r = 0 \<longrightarrow> length got < len \<longrightarrow> rx_weight (rx c') < rx_weight (rx c))"
proof (induction c len got rule: recv_all_loop.induct)
  case (1 c len got)
  note unf = recv_all_loop.simps [of c len got]
  show ?case
  proof (cases "length got < len")
    case False
    then show ?thesis using 1(3) by (simp add: unf)
  next
    case less: True
    with 1(3) obtain q ds c1 where q: "sys_recv c (len - length got) = Some (q, ds, c1)"
      by (auto simp: unf split: option.splits)
    note le = sys_recv_weight_le [OF q]
    show ?thesis
    proof (cases q)
      case (SRet n)
      show ?thesis
      proof (cases "n = 0")
        case True
        then show ?thesis using 1(3) less q SRet le by (auto simp: unf)
      next
        case False
        then have "recv_all_loop c1 len (got @ ds) = Some (r, bs, c')" using 1(3) less q SRet
          by (simp add: unf)
        from 1(1) [OF less q refl SRet refl False this] show ?thesis
          using sys_recv_weight(1) [OF q [unfolded SRet]] False by simp
      qed
    next
      case SEintr
      then have "recv_all_loop c1 len got = Some (r, bs, c')" using 1(3) less q by (simp add: unf)
      from 1(2) [OF less q refl SEintr refl this] show ?thesis
        using sys_recv_weight(2) [OF q [unfolded SEintr]] by simp
    next
      case SErr
      then show ?thesis using 1(3) less q le by (auto simp: unf)
    qed
  qed
qed

lemma recv_all_weight:
  "recv_all c n = Some (r, bs, c') \<Longrightarrow> rx_weight (rx c') \<le> rx_weight (rx c)"
  "recv_all c n = Some (0, bs, c') \<Longrightarrow> 0 < n \<Longrightarrow> rx_weight (rx c') < rx_weight (rx c)"
  using recv_all_loop_weight [of c n "[]"] by (auto simp: recv_all_def)

lemma recv_msg_weight:
  assumes "recv_msg malloc_ok c = Some (Some m, c')"
  shows "rx_weight (rx c') < rx_weight (rx c)"
proof -
  from assms obtain hb c1 where h: "recv_all c HDR_SIZE = Some (0, hb, c1)"
    by (auto simp: recv_msg_def bind_eq_Some_conv split: if_splits)
  have "rx_weight (rx c1) < rx_weight (rx c)" using recv_all_weight(2) [OF h] by (simp add: HDR_SIZE_def)
  moreover have "rx_weight (rx c') \<le> rx_weight (rx c1)"
    using assms h recv_all_weight(1) [of c1]
    by (auto simp: recv_msg_def Let_def bind_eq_Some_conv split: if_splits)
  ultimately show ?thesis by simp
qed

section \<open>A connection with room for n more bytes\<close>

definition room_for :: "conn \<Rightarrow> nat \<Rightarrow> bool" where
  "room_for c n \<longleftrightarrow> tx_ok (tx c) \<and> n \<le> tx_takes (tx c)"

lemma room_for_mono: "room_for c n \<Longrightarrow> m \<le> n \<Longrightarrow> room_for c m"
  by (simp add: room_for_def)

lemma send_all_room:
  assumes "room_for c (length buf + k)"
  shows "\<exists>c'. send_all c buf = Some (0, c') \<and> room_for c' k"
proof -
  have "tx_ok (tx c)" "length buf \<le> tx_takes (tx c)" using assms by (auto simp: room_for_def)
  then obtain c' where "send_all c buf = Some (0, c')" "tx_ok (tx c')"
      "tx_takes (tx c) \<le> tx_takes (tx c') + length buf"
    by (rule send_all_live)
  then show ?thesis using assms by (auto simp: room_for_def)
qed

lemma send_msg_room:
  assumes "room_for c (length (frame type p) + k)" "length p < 2 ^ 32"
  shows "\<exists>c'. send_msg c type (Some p) (word_of_nat (length p)) = Some (0, c') \<and> room_for c' k \<and>
    rx c' = rx c \<and> outp c' = outp c @ frame type p"
proof -
  let ?h = "mem_header (zero_header\<lparr>h_type := msg_code type,
      h_payload_len := htonl (word_of_nat (length p))\<rparr>)"
  have "room_for c (length ?h + (length p + k))" using assms(1) by (simp add: add.assoc)
  from send_all_room [OF this] obtain c1 where c1: "send_all c ?h = Some (0, c1)" "room_for c1 (length p + k)"
    by blast
  from send_all_room [OF c1(2)] obtain c2 where c2: "send_all c1 p = Some (0, c2)" "room_for c2 k"
    by blast
  have "\<exists>c'. send_msg c type (Some p) (word_of_nat (length p)) = Some (0, c') \<and> room_for c' k"
    using c1 c2 assms(2) room_for_mono [OF c1(2), of k]
    by (auto simp: send_msg_def Let_def unat_of_nat_u32)
  then show ?thesis using send_msg_frame [OF _ assms(2)] by blast
qed

section \<open>Properties\<close>

text \<open>C4: however TCP segments, interrupts or fails the transfer,
  \<^verbatim>\<open>recv_msg\<close> implements its contract on the byte stream: it waits, fails or delivers
  exactly as \<open>msg_spec\<close> says for the bytes that arrive, and consumes exactly one message.\<close>

theorem recv_msg_refines:
  "(case recv_msg malloc_ok c of
      None \<Rightarrow> msg_spec malloc_ok (stream c) (closed c) = Msg_Waits
    | Some (None, c') \<Rightarrow> msg_spec malloc_ok (stream c) (closed c) = Msg_Fails \<and> same_tx c c'
    | Some (Some m, c') \<Rightarrow> msg_spec malloc_ok (stream c) (closed c) = Msg_Got m (stream c') \<and>
        closed c' = closed c \<and> same_tx c c')"
  by (rule recv_msg_spec)

text \<open>C28: a message that \<^verbatim>\<open>send_msg\<close> sends, in however many partial and
  interrupted sends, is the message that \<^verbatim>\<open>recv_msg\<close> delivers at the other end, however the
  bytes are cut into segments: same type, same length, the payload with its terminating zero.\<close>

theorem messages_arrive:
  assumes "send_msg cs type (Some p) (word_of_nat (length p)) = Some (0, cs')" "outp cs = []"
    and "stream cr = outp cs' @ rest"
    and "length p \<le> RECV_LIMIT" "p = [] \<or> malloc_ok (length p + 1)"
  shows "\<exists>cr'. recv_msg malloc_ok cr = Some (Some \<lparr>rm_type = msg_code type,
      rm_payload = (if p = [] then None else Some (p @ [0])), rm_len = word_of_nat (length p)\<rparr>, cr') \<and>
    stream cr' = rest \<and> closed cr' = closed cr"
proof -
  have "outp cs' = frame type p"
    using send_msg_frame(3) [OF assms(1) RECV_LIMIT_lt [OF assms(4)]] assms(2) by simp
  with assms(3) have s: "stream cr = frame type p @ rest" by simp
  have m: "p \<noteq> [] \<Longrightarrow> malloc_ok (length p + 1)" using assms(5) by blast
  obtain cr' where "recv_msg malloc_ok cr = Some (Some (got_frame type p), cr')" "stream cr' = rest"
      "closed cr' = closed cr"
    using recv_msg_frame [OF s assms(4), of malloc_ok] m by blast
  then show ?thesis by (auto simp: got_frame_def)
qed

definition demo_sender :: conn where
  "demo_sender = \<lparr>rx = [], tx = [TxTake 3, TxEintr, TxTake 100, TxTake 1, TxTake 5], outp = []\<rparr>"

definition demo_receiver :: conn where
  "demo_receiver = \<lparr>rx = [RxData [7, 0, 0], RxEintr, RxData [0, 0, 3, 0, 0, 65], RxData [66, 67, 9], RxEof],
     tx = [], outp = []\<rparr>"

lemmas transfer_eval = send_msg_def send_all_def send_all_loop.simps sys_send.simps mem_header_def
  zero_header_def htonl_def rd32_def mem32_def mem16_def msg_code.simps

theorem messages_arrive_witness:
  "outp (snd (the (send_msg demo_sender MSG_OUTPUT (Some [65, 66, 67]) 3))) = [7, 0, 0, 0, 0, 3, 0, 0, 65, 66, 67] \<and>
   (\<exists>cr'. recv_msg (\<lambda>n. n = 4) demo_receiver =
      Some (Some \<lparr>rm_type = 7, rm_payload = Some [65, 66, 67, 0], rm_len = 3\<rparr>, cr') \<and>
    stream cr' = [9] \<and> closed cr')"
proof -
  have s: "send_msg demo_sender MSG_OUTPUT (Some [65, 66, 67]) (word_of_nat (length [65, 66, 67 :: byte])) =
      Some (0, demo_sender\<lparr>tx := [], outp := [7, 0, 0, 0, 0, 3, 0, 0, 65, 66, 67]\<rparr>)"
    by (simp add: transfer_eval demo_sender_def)
  have "\<exists>cr'. recv_msg (\<lambda>n. n = 4) demo_receiver = Some (Some \<lparr>rm_type = msg_code MSG_OUTPUT,
      rm_payload = (if [65, 66, 67 :: byte] = [] then None else Some ([65, 66, 67] @ [0])),
      rm_len = word_of_nat (length [65, 66, 67 :: byte])\<rparr>, cr') \<and>
    stream cr' = [9] \<and> closed cr' = closed demo_receiver"
    by (rule messages_arrive [OF s]) (simp_all add: demo_sender_def demo_receiver_def RECV_LIMIT_def limit_defs)
  then show ?thesis using s by (simp add: demo_receiver_def msg_code.simps)
qed

text \<open>\<^verbatim>\<open>recv_all\<close> delivers exactly the next \<open>n\<close> bytes of the stream and
  leaves the rest, returns \<open>-1\<close> when the stream ends before, and otherwise waits.\<close>

theorem recv_all_exact:
  "(case recv_all c n of
      None \<Rightarrow> length (stream c) < n \<and> \<not> closed c
    | Some (r, bs, c') \<Rightarrow> same_tx c c' \<and>
        (if n \<le> length (stream c)
         then r = 0 \<and> bs = take n (stream c) \<and> stream c' = drop n (stream c) \<and> closed c' = closed c
         else r = -1 \<and> closed c))"
  using recv_all_loop_spec [of "[]" n c] by (auto simp: recv_all_def split: option.splits)

text \<open>When \<^verbatim>\<open>send_all\<close> returns 0 the whole buffer was accepted, in order; when
  it returns \<open>-1\<close> a proper prefix was. It never touches the receiving side.\<close>

theorem send_all_exact:
  assumes "send_all c buf = Some (r, c')"
  shows "rx c' = rx c \<and>
    (if r = 0 then outp c' = outp c @ buf
     else r = -1 \<and> (\<exists>k < length buf. outp c' = outp c @ take k buf))"
  using send_all_spec [OF assms] by auto

theorem send_all_exact_witness:
  "send_all \<lparr>rx = [], tx = [TxTake 2, TxErr], outp = []\<rparr> [1, 2, 3] =
     Some (-1, \<lparr>rx = [], tx = [], outp = [1, 2]\<rparr>) \<and>
   (\<exists>k < length [1, 2, 3 :: byte]. [1, 2] = take k [1, 2, 3 :: byte])"
proof -
  have s: "send_all \<lparr>rx = [], tx = [TxTake 2, TxErr], outp = []\<rparr> [1, 2, 3] =
     Some (-1, \<lparr>rx = [], tx = [], outp = [1, 2]\<rparr>)"
    by (simp add: transfer_eval)
  from send_all_exact [OF s] s show ?thesis by simp
qed

text \<open>On a connection that keeps accepting at least one byte per send and
  never fails, \<^verbatim>\<open>send_all\<close> does return and has sent everything, whatever the interruptions.\<close>

theorem send_all_completes:
  assumes "tx_ok (tx c)" "length buf \<le> tx_takes (tx c)"
  shows "\<exists>c'. send_all c buf = Some (0, c') \<and> outp c' = outp c @ buf"
proof -
  from send_all_live [OF assms] obtain c' where c': "send_all c buf = Some (0, c')" by blast
  with send_all_spec(3) [OF c'] show ?thesis by blast
qed

theorem send_all_completes_witness:
  "\<exists>c'. send_all \<lparr>rx = [], tx = [TxEintr, TxTake 1, TxEintr, TxTake 1], outp = []\<rparr> [4, 5] = Some (0, c') \<and>
     outp c' = [4, 5]"
  using send_all_completes [of "\<lparr>rx = [], tx = [TxEintr, TxTake 1, TxEintr, TxTake 1], outp = []\<rparr>" "[4, 5]"]
  by (simp add: tx_ok_def tx_takes_def)

end
