(* ===== verification/Sockets.thy ===== *)
theory Sockets
  imports Net_Utils
begin

text \<open>
  The socket part of \<^verbatim>\<open>net_utils.c\<close>: the local address and the socket constructors. The
  kernel's table of open descriptors is explicit, with what is bound and what listens, so that the
  lemmas can say that no constructor leaks a descriptor. Whether the kernel grants a call is given
  by the environment.
\<close>

text \<open>The threads of a node, recorded by the operations that start them.\<close>

datatype thread = Announcer | Listener | Reaper | AcceptLoop int | LoadResponder

section \<open>get_local_ip\<close>

datatype if_addr = IF_INET u32 | IF_OTHER

record ifaddr =
  ifa_name :: string
  ifa_addr :: "if_addr option"
  ifa_loopback :: bool

text \<open>
  One pass over the interface list: the first interface with an IPv4 address that is no loopback
  and, when a name is requested, has that name.
\<close>

fun iface_pass :: "string option \<Rightarrow> ifaddr list \<Rightarrow> string option" where
  "iface_pass iface [] = None"
| "iface_pass iface (ifa # rest) =
     (case ifa_addr ifa of
        Some (IF_INET a) \<Rightarrow>
          if ifa_loopback ifa then iface_pass iface rest
          else if iface \<noteq> None \<and> iface \<noteq> Some (ifa_name ifa) then iface_pass iface rest
          else Some (inet_ntop a)
      | _ \<Rightarrow> iface_pass iface rest)"

text \<open>The result and what is written to \<^verbatim>\<open>out_ip\<close>; \<open>ifap\<close> is what \<^verbatim>\<open>getifaddrs\<close> gives.\<close>

definition get_local_ip :: "ifaddr list option \<Rightarrow> string option \<Rightarrow> int \<times> string option" where
  "get_local_ip ifap iface =
     (case ifap of
        None \<Rightarrow> (-1, None)
      | Some ifs \<Rightarrow>
          (case iface_pass iface ifs of
             Some ip \<Rightarrow> (0, Some ip)
           | None \<Rightarrow>
               (case (if iface \<noteq> None then iface_pass None ifs else None) of
                  Some ip \<Rightarrow> (0, Some ip)
                | None \<Rightarrow> (0, Some ''127.0.0.1''))))"

definition usable_iface :: "ifaddr \<Rightarrow> u32 \<Rightarrow> bool" where
  "usable_iface ifa a \<longleftrightarrow> ifa_addr ifa = Some (IF_INET a) \<and> \<not> ifa_loopback ifa"

lemma iface_pass_Some:
  "iface_pass iface ifs = Some ip \<Longrightarrow> \<exists>ifa a. ifa \<in> set ifs \<and> usable_iface ifa a \<and> ip = inet_ntop a
     \<and> (iface = None \<or> iface = Some (ifa_name ifa))"
proof (induction ifs)
  case (Cons ifa rest)
  then show ?case
    by (fastforce simp: usable_iface_def split: option.splits if_addr.splits if_splits)
qed simp

lemma iface_pass_None:
  "iface_pass iface ifs = None \<Longrightarrow> ifa \<in> set ifs \<Longrightarrow> usable_iface ifa a \<Longrightarrow>
     iface \<noteq> None \<and> iface \<noteq> Some (ifa_name ifa)"
proof (induction ifs)
  case (Cons ifb rest)
  then show ?case
    by (auto simp: usable_iface_def split: option.splits if_addr.splits if_splits)
qed simp

section \<open>The descriptor table\<close>

record sockaddr_in =
  sin_port :: u16
  sin_addr :: u32

record kern =
  k_fds :: "nat list"
  k_bound :: "(nat \<times> sockaddr_in) list"
  k_listening :: "nat list"

record sock_env =
  se_socket :: bool
  se_bind :: "sockaddr_in \<Rightarrow> bool"
  se_listen :: bool
  se_connect :: "sockaddr_in \<Rightarrow> bool"

text \<open>A new descriptor is the lowest number not in use.\<close>

definition fresh_fd :: "nat list \<Rightarrow> nat" where
  "fresh_fd fds = hd (filter (\<lambda>n. n \<notin> set fds) [0..<Suc (length fds)])"

definition sys_socket :: "sock_env \<Rightarrow> kern \<Rightarrow> int \<times> kern" where
  "sys_socket e k =
     (if se_socket e
      then let fd = fresh_fd (k_fds k) in (int fd, k\<lparr>k_fds := fd # k_fds k\<rparr>)
      else (-1, k))"

definition sys_close :: "int \<Rightarrow> kern \<Rightarrow> kern" where
  "sys_close fd k =
     k\<lparr>k_fds := removeAll (nat fd) (k_fds k),
       k_bound := filter (\<lambda>(f, _). f \<noteq> nat fd) (k_bound k),
       k_listening := removeAll (nat fd) (k_listening k)\<rparr>"

definition sys_bind :: "sock_env \<Rightarrow> int \<Rightarrow> sockaddr_in \<Rightarrow> kern \<Rightarrow> int \<times> kern" where
  "sys_bind e fd a k =
     (if se_bind e a then (0, k\<lparr>k_bound := (nat fd, a) # k_bound k\<rparr>) else (-1, k))"

definition sys_listen :: "sock_env \<Rightarrow> int \<Rightarrow> kern \<Rightarrow> int \<times> kern" where
  "sys_listen e fd k =
     (if se_listen e then (0, k\<lparr>k_listening := nat fd # k_listening k\<rparr>) else (-1, k))"

definition INADDR_ANY :: u32 where "INADDR_ANY = 0"

section \<open>The socket constructors\<close>

definition make_udp_broadcast_socket :: "sock_env \<Rightarrow> int \<Rightarrow> kern \<Rightarrow> int \<times> kern" where
  "make_udp_broadcast_socket e port k =
     (let (fd, k1) = sys_socket e k in
      if fd < 0 then (-1, k1)
      else if 0 < port then
        (let addr = \<lparr>sin_port = htons (word_of_int port), sin_addr = INADDR_ANY\<rparr>;
             (r, k2) = sys_bind e fd addr k1 in
         if r < 0 then (-1, sys_close fd k2) else (fd, k2))
      else (fd, k1))"

definition make_tcp_server :: "sock_env \<Rightarrow> int \<Rightarrow> kern \<Rightarrow> int \<times> kern" where
  "make_tcp_server e port k =
     (let (fd, k1) = sys_socket e k in
      if fd < 0 then (-1, k1)
      else
        let addr = \<lparr>sin_port = htons (word_of_int port), sin_addr = INADDR_ANY\<rparr>;
            (r, k2) = sys_bind e fd addr k1 in
        if r < 0 then (-1, sys_close fd k2)
        else
          let (l, k3) = sys_listen e fd k2 in
          if l < 0 then (-1, sys_close fd k3) else (fd, k3))"

definition tcp_connect :: "sock_env \<Rightarrow> string \<Rightarrow> u16 \<Rightarrow> kern \<Rightarrow> int \<times> kern" where
  "tcp_connect e ip port k =
     (let (fd, k1) = sys_socket e k in
      if fd < 0 then (-1, k1)
      else case inet_pton ip of
        None \<Rightarrow> (-1, sys_close fd k1)
      | Some a \<Rightarrow>
          if se_connect e \<lparr>sin_port = htons port, sin_addr = a\<rparr> then (fd, k1)
          else (-1, sys_close fd k1))"

section \<open>No constructor leaks a descriptor\<close>

definition kern_ok :: "kern \<Rightarrow> bool" where
  "kern_ok k \<longleftrightarrow> distinct (k_fds k) \<and> fst ` set (k_bound k) \<subseteq> set (k_fds k)
     \<and> set (k_listening k) \<subseteq> set (k_fds k)"

lemma fresh_fd_notin: "fresh_fd fds \<notin> set fds"
proof -
  have "\<exists>n \<in> set [0..<Suc (length fds)]. n \<notin> set fds"
  proof (rule ccontr)
    assume "\<not> ?thesis"
    then have "{0..<Suc (length fds)} \<subseteq> set fds" by (auto simp del: upt_Suc)
    then have "Suc (length fds) \<le> card (set fds)"
      by (metis card_atLeastLessThan card_mono diff_zero List.finite_set)
    then show False using card_length [of fds] by simp
  qed
  then have "filter (\<lambda>n. n \<notin> set fds) [0..<Suc (length fds)] \<noteq> []"
    by (auto simp: filter_empty_conv simp del: upt_Suc)
  from hd_in_set [OF this] show ?thesis by (simp add: fresh_fd_def del: upt_Suc)
qed

lemma close_fresh:
  assumes "kern_ok k"
  shows "sys_close (int (fresh_fd (k_fds k))) (k\<lparr>k_fds := fresh_fd (k_fds k) # k_fds k\<rparr>) = k"
    "sys_close (int (fresh_fd (k_fds k)))
       (k\<lparr>k_fds := fresh_fd (k_fds k) # k_fds k, k_bound := (fresh_fd (k_fds k), a) # k_bound k\<rparr>) = k"
proof -
  let ?fd = "fresh_fd (k_fds k)"
  have "?fd \<notin> set (k_fds k)" by (rule fresh_fd_notin)
  moreover from this assms have "filter (\<lambda>(f, _). f \<noteq> ?fd) (k_bound k) = k_bound k"
    "?fd \<notin> set (k_listening k)"
    by (auto simp: kern_ok_def filter_id_conv)
  ultimately show "sys_close (int ?fd) (k\<lparr>k_fds := ?fd # k_fds k\<rparr>) = k"
    "sys_close (int ?fd) (k\<lparr>k_fds := ?fd # k_fds k, k_bound := (?fd, a) # k_bound k\<rparr>) = k"
    by (simp_all add: sys_close_def)
qed

lemmas socket_defs = sys_socket_def sys_bind_def sys_listen_def Let_def

text \<open>The contract: failure leaves the kernel as it was, success adds one new descriptor.\<close>

definition fd_contract :: "kern \<Rightarrow> int \<times> kern \<Rightarrow> bool" where
  "fd_contract k res \<longleftrightarrow>
     (let (fd, k') = res in
      (fd = -1 \<and> k' = k) \<or>
      (0 \<le> fd \<and> nat fd \<notin> set (k_fds k) \<and> k_fds k' = nat fd # k_fds k \<and> kern_ok k'))"

lemma make_udp_contract: "kern_ok k \<Longrightarrow> fd_contract k (make_udp_broadcast_socket e port k)"
  using fresh_fd_notin [of "k_fds k"] close_fresh [of k]
  by (auto simp: fd_contract_def make_udp_broadcast_socket_def socket_defs kern_ok_def)

lemma make_tcp_contract: "kern_ok k \<Longrightarrow> fd_contract k (make_tcp_server e port k)"
  using fresh_fd_notin [of "k_fds k"] close_fresh [of k]
  by (auto simp: fd_contract_def make_tcp_server_def socket_defs kern_ok_def)

lemma tcp_connect_contract: "kern_ok k \<Longrightarrow> fd_contract k (tcp_connect e ip port k)"
  using fresh_fd_notin [of "k_fds k"] close_fresh [of k]
  by (auto simp: fd_contract_def tcp_connect_def socket_defs kern_ok_def split: option.splits)

section \<open>Properties\<close>

text \<open>Each of the three constructors either returns \<open>-1\<close> with the kernel
  exactly as it was, no descriptor left open, or returns a descriptor that was not in use and is
  now the only new one.\<close>

theorem sockets_leak_free:
  assumes "kern_ok k"
  shows "fd_contract k (make_udp_broadcast_socket e port k) \<and> fd_contract k (make_tcp_server e port k) \<and>
    fd_contract k (tcp_connect e ip tport k)"
  by (simp add: assms make_udp_contract make_tcp_contract tcp_connect_contract)

definition refusing :: sock_env where
  "refusing = \<lparr>se_socket = True, se_bind = (\<lambda>a. False), se_listen = True, se_connect = (\<lambda>a. True)\<rparr>"

definition three_open :: kern where
  "three_open = \<lparr>k_fds = [2, 1, 0], k_bound = [], k_listening = []\<rparr>"

theorem sockets_leak_free_witness:
  "make_tcp_server refusing 7777 three_open = (-1, three_open) \<and>
   tcp_connect refusing ''10.0.0.7'' 7777 three_open = (3, three_open\<lparr>k_fds := [3, 2, 1, 0]\<rparr>) \<and>
   fd_contract three_open (tcp_connect refusing ''10.0.0.7'' 7777 three_open)"
proof -
  have k: "kern_ok three_open" by (simp add: kern_ok_def three_open_def)
  have p: "\<exists>a. inet_pton ''10.0.0.7'' = Some a"
    by (simp add: inet_pton_def octet_def is_digit_def dec_val_def digit_val_def)
  have f: "fresh_fd [2, 1, 0] = 3" by (simp add: fresh_fd_def upt_rec)
  show ?thesis
    using sockets_leak_free [OF k, of refusing 7777 "''10.0.0.7''" 7777] p f
    by (auto simp: make_tcp_server_def tcp_connect_def socket_defs refusing_def three_open_def sys_close_def)
qed

text \<open>With an interface list, \<^verbatim>\<open>get_local_ip\<close> always answers: with the
  address of a non-loopback IPv4 interface, the requested one if it has such an address, and with
  127.0.0.1 only when there is no such interface at all.\<close>

theorem local_ip_choice:
  "\<exists>ip. get_local_ip (Some ifs) iface = (0, Some ip) \<and>
     ((\<exists>ifa \<in> set ifs. \<exists>a. usable_iface ifa a \<and> ip = inet_ntop a \<and>
         (iface = None \<or> iface = Some (ifa_name ifa) \<or>
          \<not> (\<exists>ifb \<in> set ifs. \<exists>b. usable_iface ifb b \<and> iface = Some (ifa_name ifb)))) \<or>
      ip = ''127.0.0.1'' \<and> \<not> (\<exists>ifa \<in> set ifs. \<exists>a. usable_iface ifa a))"
proof (cases "iface_pass iface ifs")
  case (Some ip)
  then show ?thesis using iface_pass_Some [OF Some] by (auto simp: get_local_ip_def)
next
  case first: None
  note n1 = iface_pass_None [OF first]
  show ?thesis
  proof (cases "iface = None")
    case True
    then show ?thesis using first n1 by (auto simp: get_local_ip_def)
  next
    case False
    show ?thesis
    proof (cases "iface_pass None ifs")
      case (Some ip)
      then have g: "get_local_ip (Some ifs) iface = (0, Some ip)" using first False by (simp add: get_local_ip_def)
      have "\<not> (\<exists>ifb \<in> set ifs. \<exists>b. usable_iface ifb b \<and> iface = Some (ifa_name ifb))"
        using n1 by blast
      with g iface_pass_Some [OF Some] show ?thesis by blast
    next
      case None
      then show ?thesis using first False iface_pass_None [OF None] by (auto simp: get_local_ip_def)
    qed
  qed
qed

theorem local_ip_choice_witness:
  "get_local_ip (Some [\<lparr>ifa_name = ''lo'', ifa_addr = Some (IF_INET 0x0100007F), ifa_loopback = True\<rparr>,
      \<lparr>ifa_name = ''eth0'', ifa_addr = Some (IF_INET 0x0700000A), ifa_loopback = False\<rparr>]) (Some ''wlan0'') =
    (0, Some (inet_ntop 0x0700000A))"
  using local_ip_choice [of "[\<lparr>ifa_name = ''lo'', ifa_addr = Some (IF_INET 0x0100007F), ifa_loopback = True\<rparr>,
      \<lparr>ifa_name = ''eth0'', ifa_addr = Some (IF_INET 0x0700000A), ifa_loopback = False\<rparr>]" "Some ''wlan0''"]
  by (auto simp: usable_iface_def)

end
