(* ===== verification/Peer_List.thy ===== *)
theory Peer_List
  imports Wire
begin

text \<open>
  \<^verbatim>\<open>peer_list.c\<close>: the table \<^verbatim>\<open>g_peers\<close> of \<^verbatim>\<open>MAX_PEERS\<close> slots. Every operation runs
  under the table's lock, so it is one function from the table to the table; what
  \<^verbatim>\<open>time(NULL)\<close> returns is the argument \<open>now\<close>. The table is related to its contract, a
  finite map from addresses to peer entries, by \<open>lookup\<close>.
\<close>

type_synonym peers = "peer_info_t list"

section \<open>The operations\<close>

definition peer_list_init :: peers where
  "peer_list_init = replicate MAX_PEERS zero_peer"

text \<open>The two search loops: the index of the first slot that fits, or \<open>-1\<close>.\<close>

fun scan_slots :: "(peer_info_t \<Rightarrow> bool) \<Rightarrow> nat \<Rightarrow> peers \<Rightarrow> int" where
  "scan_slots P i [] = -1"
| "scan_slots P i (p # ps) = (if P p then int i else scan_slots P (Suc i) ps)"

definition find_slot :: "peers \<Rightarrow> string \<Rightarrow> int" where
  "find_slot g ip = scan_slots (\<lambda>p. p_valid p \<and> p_ip p = ip) 0 g"

definition find_free_slot :: "peers \<Rightarrow> int" where
  "find_free_slot g = scan_slots (\<lambda>p. \<not> p_valid p) 0 g"

definition peer_list_add :: "int \<Rightarrow> peers \<Rightarrow> string \<Rightarrow> u16 \<Rightarrow> peers" where
  "peer_list_add now g ip port =
     (let idx = find_slot g ip in
      if idx < 0 then
        (let idx = find_free_slot g in
         if idx < 0 then g
         else
           let g1 = g[nat idx := zero_peer\<lparr>p_ip := take (INET_ADDRSTRLEN - 1) ip,
                                        p_valid := True, p_num_cores := 1\<rparr>] in
           g1[nat idx := (g1 ! nat idx)\<lparr>p_port := port, p_last_seen := now\<rparr>])
      else g[nat idx := (g ! nat idx)\<lparr>p_port := port, p_last_seen := now\<rparr>])"

definition peer_list_remove :: "peers \<Rightarrow> string \<Rightarrow> peers" where
  "peer_list_remove g ip =
     (let idx = find_slot g ip in if 0 \<le> idx then g[nat idx := zero_peer] else g)"

text \<open>The entry after a load response: the fields are swapped, the float as its 32 bits.\<close>

definition load_entry :: "int \<Rightarrow> payload_load_resp_t \<Rightarrow> peer_info_t \<Rightarrow> peer_info_t" where
  "load_entry now resp p =
     p\<lparr>p_load_pct := F32 (ntohl (lr_load_pct resp)),
       p_active_tasks := ntohl (lr_active_tasks resp),
       p_total_tasks := ntohl (lr_total_tasks resp),
       p_num_cores := ntohl (lr_num_cores resp),
       p_last_seen := now\<rparr>"

definition peer_list_update_load :: "int \<Rightarrow> peers \<Rightarrow> string \<Rightarrow> payload_load_resp_t \<Rightarrow> peers" where
  "peer_list_update_load now g ip resp =
     (let idx = find_slot g ip in
      if 0 \<le> idx then g[nat idx := load_entry now resp (g ! nat idx)] else g)"

definition peer_list_touch :: "int \<Rightarrow> peers \<Rightarrow> string \<Rightarrow> peers" where
  "peer_list_touch now g ip =
     (let idx = find_slot g ip in
      if 0 \<le> idx then g[nat idx := (g ! nat idx)\<lparr>p_last_seen := now\<rparr>] else g)"

text \<open>The copying loop stops when the caller's array of \<open>cap\<close> entries is full.\<close>

fun get_all_loop :: "peers \<Rightarrow> nat \<Rightarrow> peers \<Rightarrow> peers" where
  "get_all_loop [] cap out = out"
| "get_all_loop (p # ps) cap out =
     (if length out < cap then get_all_loop ps cap (if p_valid p then out @ [p] else out) else out)"

definition peer_list_get_all :: "peers \<Rightarrow> nat \<Rightarrow> peers" where
  "peer_list_get_all g cap = get_all_loop g cap []"

definition peer_list_reap_stale :: "int \<Rightarrow> peers \<Rightarrow> peers" where
  "peer_list_reap_stale now g =
     map (\<lambda>p. if p_valid p \<and> PEER_TIMEOUT_SECS < now - p_last_seen p then zero_peer else p) g"

text \<open>
  The rows that \<^verbatim>\<open>peer_list_print\<close> prints under the headings IP, PORT, LOAD and ACTIVE: the
  node itself with its load and its total of tasks, then every valid slot.
\<close>

record peer_row =
  row_ip :: string
  row_port :: u16
  row_load :: f32
  row_tasks :: u32

definition peer_list_print :: "peers \<Rightarrow> string \<Rightarrow> u16 \<Rightarrow> f32 \<Rightarrow> u32 \<Rightarrow> peer_row list" where
  "peer_list_print g local_ip local_port local_load total_tasks =
     \<lparr>row_ip = local_ip, row_port = local_port, row_load = local_load, row_tasks = total_tasks\<rparr> #
     map (\<lambda>p. \<lparr>row_ip = p_ip p, row_port = p_port p, row_load = p_load_pct p,
               row_tasks = p_total_tasks p\<rparr>) (filter p_valid g)"

section \<open>The table as a finite map\<close>

definition lookup :: "peers \<Rightarrow> string \<Rightarrow> peer_info_t option" where
  "lookup g ip = List.find (\<lambda>p. p_valid p \<and> p_ip p = ip) g"

definition peer_count :: "peers \<Rightarrow> nat" where
  "peer_count g = length (filter p_valid g)"

text \<open>
  The invariant: \<^verbatim>\<open>MAX_PEERS\<close> slots, no address in two valid slots, every valid address
  fits the 16-byte field with its NUL.
\<close>

definition peers_ok :: "peers \<Rightarrow> bool" where
  "peers_ok g \<longleftrightarrow> length g = MAX_PEERS \<and>
     (\<forall>i < length g. p_valid (g ! i) \<longrightarrow> length (p_ip (g ! i)) < INET_ADDRSTRLEN) \<and>
     (\<forall>i < length g. \<forall>j < length g.
        p_valid (g ! i) \<longrightarrow> p_valid (g ! j) \<longrightarrow> p_ip (g ! i) = p_ip (g ! j) \<longrightarrow> i = j)"

lemma scan_slots_spec:
  "(scan_slots P i g = -1 \<and> (\<forall>p \<in> set g. \<not> P p)) \<or>
   (\<exists>k < length g. scan_slots P i g = int (i + k) \<and> P (g ! k))"
proof (induction g arbitrary: i)
  case (Cons p ps)
  show ?case
  proof (cases "P p")
    case False
    from Cons [of "Suc i"] show ?thesis
    proof (elim disjE exE conjE)
      fix k assume "k < length ps" "scan_slots P (Suc i) ps = int (Suc i + k)" "P (ps ! k)"
      with False show ?thesis by (intro disjI2 exI [of _ "Suc k"]) simp
    qed (use False in simp)
  qed (auto intro: exI [of _ 0])
qed simp

lemma find_slot_cases:
  obtains "find_slot g ip = -1" "\<And>i. i < length g \<Longrightarrow> p_valid (g ! i) \<Longrightarrow> p_ip (g ! i) \<noteq> ip"
  | k where "find_slot g ip = int k" "k < length g" "p_valid (g ! k)" "p_ip (g ! k) = ip"
  using scan_slots_spec [of "\<lambda>p. p_valid p \<and> p_ip p = ip" 0 g]
  by (auto simp: find_slot_def)

lemma find_free_cases:
  obtains "find_free_slot g = -1" "\<And>i. i < length g \<Longrightarrow> p_valid (g ! i)"
  | k where "find_free_slot g = int k" "k < length g" "\<not> p_valid (g ! k)"
  using scan_slots_spec [of "\<lambda>p. \<not> p_valid p" 0 g]
  by (auto simp: find_free_slot_def)

lemma lookup_Some_iff:
  "peers_ok g \<Longrightarrow> lookup g ip = Some p \<longleftrightarrow> (\<exists>i < length g. p = g ! i \<and> p_valid (g ! i) \<and> p_ip (g ! i) = ip)"
  unfolding lookup_def find_Some_iff
  by (rule ex_cong1) (auto simp: peers_ok_def, metis less_trans nat_less_le)

lemma lookup_None_iff:
  "lookup g ip = None \<longleftrightarrow> (\<forall>i < length g. p_valid (g ! i) \<longrightarrow> p_ip (g ! i) \<noteq> ip)"
  by (auto simp: lookup_def find_None_iff in_set_conv_nth)

lemma lookup_nth: "peers_ok g \<Longrightarrow> i < length g \<Longrightarrow> p_valid (g ! i) \<Longrightarrow> lookup g (p_ip (g ! i)) = Some (g ! i)"
  by (auto simp: lookup_Some_iff)

text \<open>
  One slot replaced: the lemma every operation's contract comes from. The new entry may be
  invalid, or it has an address that no other valid slot has.
\<close>

definition slot_fits :: "peers \<Rightarrow> nat \<Rightarrow> peer_info_t \<Rightarrow> bool" where
  "slot_fits g i q \<longleftrightarrow> i < length g \<and> (p_valid q \<longrightarrow> length (p_ip q) < INET_ADDRSTRLEN \<and>
     (\<forall>j < length g. j \<noteq> i \<longrightarrow> p_valid (g ! j) \<longrightarrow> p_ip (g ! j) \<noteq> p_ip q))"

lemma peers_ok_update: "peers_ok g \<Longrightarrow> slot_fits g i q \<Longrightarrow> peers_ok (g[i := q])"
  unfolding peers_ok_def slot_fits_def
  by (auto simp: nth_list_update split: if_splits)

lemma lookup_update:
  assumes "peers_ok g" "slot_fits g i q"
  shows "lookup (g[i := q]) x =
    (if p_valid q \<and> p_ip q = x then Some q
     else if p_valid (g ! i) \<and> p_ip (g ! i) = x then None else lookup g x)"
proof -
  have ok: "peers_ok (g[i := q])" using assms by (rule peers_ok_update)
  have i: "i < length g" using assms(2) by (simp add: slot_fits_def)
  consider "p_valid q \<and> p_ip q = x" | "\<not> (p_valid q \<and> p_ip q = x)" "p_valid (g ! i) \<and> p_ip (g ! i) = x"
    | "\<not> (p_valid q \<and> p_ip q = x)" "\<not> (p_valid (g ! i) \<and> p_ip (g ! i) = x)" by blast
  then show ?thesis
  proof cases
    case 1
    then show ?thesis using ok i by (auto simp: lookup_Some_iff intro!: exI [of _ i])
  next
    case 2
    then have "lookup (g[i := q]) x = None"
      using assms(1) i by (auto simp: lookup_None_iff nth_list_update peers_ok_def)
    with 2 show ?thesis by simp
  next
    case 3
    have "lookup (g[i := q]) x = Some p \<longleftrightarrow> lookup g x = Some p" for p
      unfolding lookup_Some_iff [OF ok] lookup_Some_iff [OF assms(1)]
    proof (rule ex_cong1)
      fix k
      show "(k < length (g[i := q]) \<and> p = g[i := q] ! k \<and> p_valid (g[i := q] ! k) \<and> p_ip (g[i := q] ! k) = x)
        = (k < length g \<and> p = g ! k \<and> p_valid (g ! k) \<and> p_ip (g ! k) = x)"
        using 3 i by (cases "k = i") auto
    qed
    then have "lookup (g[i := q]) x = lookup g x" by (cases "lookup g x") (auto intro: option.expand)
    with 3 show ?thesis by auto
  qed
qed

section \<open>The contract of every operation\<close>

definition new_entry :: "int \<Rightarrow> string \<Rightarrow> u16 \<Rightarrow> peer_info_t" where
  "new_entry now ip port = zero_peer\<lparr>p_ip := ip, p_valid := True, p_num_cores := 1,
     p_port := port, p_last_seen := now\<rparr>"

lemma zero_peer_sel [simp]: "\<not> p_valid zero_peer" "p_ip zero_peer = []"
  by (simp_all add: zero_peer_def)

lemma new_entry_sel [simp]: "p_valid (new_entry now ip port)" "p_ip (new_entry now ip port) = ip"
    "p_port (new_entry now ip port) = port" "p_last_seen (new_entry now ip port) = now"
  by (simp_all add: new_entry_def)

lemma load_entry_sel [simp]: "p_valid (load_entry now r p) = p_valid p" "p_ip (load_entry now r p) = p_ip p"
    "p_port (load_entry now r p) = p_port p" "p_last_seen (load_entry now r p) = now"
  by (simp_all add: load_entry_def)

lemma find_slot_lookup:
  assumes "peers_ok g"
  obtains "find_slot g ip = -1" "lookup g ip = None"
  | k where "find_slot g ip = int k" "k < length g" "p_valid (g ! k)" "p_ip (g ! k) = ip"
      "lookup g ip = Some (g ! k)"
proof (rule find_slot_cases [of g ip])
  assume "find_slot g ip = -1" "\<And>i. i < length g \<Longrightarrow> p_valid (g ! i) \<Longrightarrow> p_ip (g ! i) \<noteq> ip"
  then show ?thesis by (intro that(1)) (auto simp: lookup_None_iff)
next
  fix k assume "find_slot g ip = int k" "k < length g" "p_valid (g ! k)" "p_ip (g ! k) = ip"
  then show ?thesis using lookup_nth [OF assms, of k] by (intro that(2)) auto
qed

lemma slot_fits_same_ip:
  "peers_ok g \<Longrightarrow> k < length g \<Longrightarrow> p_valid (g ! k) \<Longrightarrow> p_ip q = p_ip (g ! k) \<Longrightarrow> slot_fits g k q"
  by (auto simp: slot_fits_def peers_ok_def)

lemma slot_fits_zero: "k < length g \<Longrightarrow> slot_fits g k zero_peer"
  by (simp add: slot_fits_def)

lemma slot_fits_new:
  "k < length g \<Longrightarrow> length ip < INET_ADDRSTRLEN \<Longrightarrow> lookup g ip = None \<Longrightarrow> slot_fits g k (new_entry now ip port)"
  by (auto simp: slot_fits_def lookup_None_iff)

text \<open>The three shapes: an entry changed in place, an entry cleared, a new entry.\<close>

lemma lookup_modify:
  assumes "peers_ok g" "k < length g" "p_valid (g ! k)" "p_ip (g ! k) = ip" "p_valid q" "p_ip q = ip"
  shows "peers_ok (g[k := q])" "lookup (g[k := q]) = (lookup g)(ip \<mapsto> q)"
  using slot_fits_same_ip [of g k q] assms
  by (auto simp: peers_ok_update lookup_update fun_eq_iff)

lemma lookup_clear:
  assumes "peers_ok g" "k < length g" "p_valid (g ! k)" "p_ip (g ! k) = ip"
  shows "peers_ok (g[k := zero_peer])" "lookup (g[k := zero_peer]) = (lookup g)(ip := None)"
  using slot_fits_zero [of k g] assms
  by (auto simp: peers_ok_update lookup_update fun_eq_iff)

lemma lookup_new:
  assumes "peers_ok g" "k < length g" "\<not> p_valid (g ! k)" "lookup g ip = None" "length ip < INET_ADDRSTRLEN"
  shows "peers_ok (g[k := new_entry now ip port])"
    "lookup (g[k := new_entry now ip port]) = (lookup g)(ip \<mapsto> new_entry now ip port)"
  using slot_fits_new [of k g ip now port] assms
  by (auto simp: peers_ok_update lookup_update fun_eq_iff)

lemma peer_count_full: "length g = MAX_PEERS \<Longrightarrow> (\<forall>i < length g. p_valid (g ! i)) \<longleftrightarrow> peer_count g = MAX_PEERS"
proof -
  assume len: "length g = MAX_PEERS"
  have "(\<forall>i < length g. p_valid (g ! i)) \<longleftrightarrow> (\<forall>p \<in> set g. p_valid p)" by (metis all_set_conv_all_nth)
  also have "\<dots> \<longleftrightarrow> filter p_valid g = g" by (metis filter_id_conv)
  also have "\<dots> \<longleftrightarrow> peer_count g = length g"
    unfolding peer_count_def by (metis length_filter_less filter_id_conv less_irrefl)
  finally show ?thesis using len by simp
qed

lemma peer_count_le: "peers_ok g \<Longrightarrow> peer_count g \<le> MAX_PEERS"
  unfolding peer_count_def peers_ok_def by (metis length_filter_le)

lemma take_ip: "length ip < INET_ADDRSTRLEN \<Longrightarrow> take (INET_ADDRSTRLEN - 1) ip = ip"
  by (simp add: INET_ADDRSTRLEN_def)

lemma add_new_eq:
  "k < length g \<Longrightarrow> length ip < INET_ADDRSTRLEN \<Longrightarrow> find_slot g ip = -1 \<Longrightarrow> find_free_slot g = int k \<Longrightarrow>
     peer_list_add now g ip port = g[k := new_entry now ip port]"
  by (simp add: peer_list_add_def Let_def take_ip new_entry_def)

lemma peers_ok_init [intro, inv_intros]: "peers_ok peer_list_init"
  by (simp add: peers_ok_def peer_list_init_def)

lemma lookup_init: "lookup peer_list_init ip = None"
  by (simp add: lookup_None_iff peer_list_init_def)

lemma add_contract:
  assumes ok: "peers_ok g" and ip: "length ip < INET_ADDRSTRLEN"
  shows "peers_ok (peer_list_add now g ip port) \<and> lookup (peer_list_add now g ip port) =
     (case lookup g ip of
        Some p \<Rightarrow> (lookup g)(ip \<mapsto> p\<lparr>p_port := port, p_last_seen := now\<rparr>)
      | None \<Rightarrow> if peer_count g < MAX_PEERS then (lookup g)(ip \<mapsto> new_entry now ip port) else lookup g)"
proof (rule find_slot_lookup [OF ok, of ip])
  fix k assume k: "find_slot g ip = int k" "k < length g" "p_valid (g ! k)" "p_ip (g ! k) = ip"
    "lookup g ip = Some (g ! k)"
  then have "peer_list_add now g ip port = g[k := (g ! k)\<lparr>p_port := port, p_last_seen := now\<rparr>]"
    by (simp add: peer_list_add_def Let_def)
  then show ?thesis
    using k lookup_modify [OF ok, of k ip "(g ! k)\<lparr>p_port := port, p_last_seen := now\<rparr>"] by simp
next
  assume none: "find_slot g ip = -1" "lookup g ip = None"
  show ?thesis
  proof (rule find_free_cases [of g])
    assume "find_free_slot g = -1" "\<And>i. i < length g \<Longrightarrow> p_valid (g ! i)"
    then show ?thesis
      using ok none peer_count_full [of g] by (simp add: peer_list_add_def peers_ok_def)
  next
    fix k assume k: "find_free_slot g = int k" "k < length g" "\<not> p_valid (g ! k)"
    then have "peer_count g < MAX_PEERS"
      using ok peer_count_full [of g] peer_count_le [OF ok] by (auto simp: peers_ok_def le_less)
    then show ?thesis
      using k none add_new_eq [OF k(2) ip none(1) k(1)] lookup_new [OF ok k(2,3) none(2) ip] by simp
  qed
qed

lemma remove_contract:
  assumes ok: "peers_ok g"
  shows "peers_ok (peer_list_remove g ip) \<and> lookup (peer_list_remove g ip) = (lookup g)(ip := None)"
proof (rule find_slot_lookup [OF ok, of ip])
  fix k assume "find_slot g ip = int k" "k < length g" "p_valid (g ! k)" "p_ip (g ! k) = ip"
  then show ?thesis using lookup_clear [OF ok, of k ip] by (simp add: peer_list_remove_def Let_def)
next
  assume "find_slot g ip = -1" "lookup g ip = None"
  then show ?thesis using ok by (simp add: peer_list_remove_def fun_upd_idem)
qed

lemma update_load_contract:
  assumes ok: "peers_ok g"
  shows "peers_ok (peer_list_update_load now g ip r) \<and> lookup (peer_list_update_load now g ip r) =
     (case lookup g ip of Some p \<Rightarrow> (lookup g)(ip \<mapsto> load_entry now r p) | None \<Rightarrow> lookup g)"
proof (rule find_slot_lookup [OF ok, of ip])
  fix k assume "find_slot g ip = int k" "k < length g" "p_valid (g ! k)" "p_ip (g ! k) = ip"
    "lookup g ip = Some (g ! k)"
  then show ?thesis using lookup_modify [OF ok, of k ip "load_entry now r (g ! k)"]
    by (simp add: peer_list_update_load_def Let_def)
qed (use ok in \<open>simp add: peer_list_update_load_def\<close>)

lemma touch_contract:
  assumes ok: "peers_ok g"
  shows "peers_ok (peer_list_touch now g ip) \<and> lookup (peer_list_touch now g ip) =
     (case lookup g ip of Some p \<Rightarrow> (lookup g)(ip \<mapsto> p\<lparr>p_last_seen := now\<rparr>) | None \<Rightarrow> lookup g)"
proof (rule find_slot_lookup [OF ok, of ip])
  fix k assume "find_slot g ip = int k" "k < length g" "p_valid (g ! k)" "p_ip (g ! k) = ip"
    "lookup g ip = Some (g ! k)"
  then show ?thesis using lookup_modify [OF ok, of k ip "(g ! k)\<lparr>p_last_seen := now\<rparr>"]
    by (simp add: peer_list_touch_def Let_def)
qed (use ok in \<open>simp add: peer_list_touch_def\<close>)

definition stale :: "int \<Rightarrow> peer_info_t \<Rightarrow> bool" where
  "stale now p \<longleftrightarrow> PEER_TIMEOUT_SECS < now - p_last_seen p"

lemma reap_contract:
  assumes ok: "peers_ok g"
  shows "peers_ok (peer_list_reap_stale now g) \<and> lookup (peer_list_reap_stale now g) ip =
     (case lookup g ip of Some p \<Rightarrow> if stale now p then None else Some p | None \<Rightarrow> None)"
proof
  show ok': "peers_ok (peer_list_reap_stale now g)"
    using ok by (auto simp: peers_ok_def peer_list_reap_stale_def)
  show "lookup (peer_list_reap_stale now g) ip =
     (case lookup g ip of Some p \<Rightarrow> if stale now p then None else Some p | None \<Rightarrow> None)"
  proof (cases "lookup g ip")
    case None
    then have "lookup (peer_list_reap_stale now g) ip = None"
      by (auto simp: lookup_None_iff peer_list_reap_stale_def)
    then show ?thesis using None by simp
  next
    case (Some p)
    then obtain i where i: "i < length g" "p = g ! i" "p_valid (g ! i)" "p_ip (g ! i) = ip"
      by (auto simp: lookup_Some_iff [OF ok])
    show ?thesis
    proof (cases "stale now p")
      case True
      then have "lookup (peer_list_reap_stale now g) ip = None"
        using ok i by (auto simp: lookup_None_iff peer_list_reap_stale_def stale_def peers_ok_def)
      then show ?thesis using Some True by simp
    next
      case False
      then have "lookup (peer_list_reap_stale now g) ip = Some p"
        unfolding lookup_Some_iff [OF ok']
        using i by (auto simp: peer_list_reap_stale_def stale_def intro!: exI [of _ i])
      then show ?thesis using Some False by simp
    qed
  qed
qed

lemma get_all_loop_eq: "get_all_loop g n out = out @ take (n - length out) (filter p_valid g)"
  by (induction g arbitrary: out) (auto simp: take_Cons')

lemma get_all_eq: "peer_list_get_all g n = take n (filter p_valid g)"
  by (simp add: peer_list_get_all_def get_all_loop_eq)

lemma get_all_full: "peers_ok g \<Longrightarrow> peer_list_get_all g MAX_PEERS = filter p_valid g"
  using peer_count_le [of g] by (simp add: get_all_eq peer_count_def)

lemma get_all_lookup:
  assumes "peers_ok g"
  shows "p \<in> set (peer_list_get_all g MAX_PEERS) \<longleftrightarrow> lookup g (p_ip p) = Some p"
  by (auto simp: get_all_full assms lookup_Some_iff in_set_conv_nth)

lemma get_all_distinct:
  assumes "peers_ok g"
  shows "distinct (map p_ip (peer_list_get_all g MAX_PEERS))"
  unfolding get_all_full [OF assms] using assms by (intro distinct_map_filter) (simp add: peers_ok_def)

section \<open>The registry as an interface\<close>

text \<open>
  What the discovery threads and the dispatcher rely on. A registry is observed by looking
  addresses up; every operation keeps the invariant and changes at most the entry of its address.
\<close>

locale peer_registry =
  fixes ok :: "'g \<Rightarrow> bool"
    and look :: "'g \<Rightarrow> string \<Rightarrow> peer_info_t option"
    and room :: "'g \<Rightarrow> bool"
    and add :: "int \<Rightarrow> 'g \<Rightarrow> string \<Rightarrow> u16 \<Rightarrow> 'g"
    and remove :: "'g \<Rightarrow> string \<Rightarrow> 'g"
    and touch :: "int \<Rightarrow> 'g \<Rightarrow> string \<Rightarrow> 'g"
    and update :: "int \<Rightarrow> 'g \<Rightarrow> string \<Rightarrow> payload_load_resp_t \<Rightarrow> 'g"
    and reap :: "int \<Rightarrow> 'g \<Rightarrow> 'g"
  assumes ok_add: "ok g \<Longrightarrow> length ip < INET_ADDRSTRLEN \<Longrightarrow> ok (add now g ip port)"
    and look_add: "ok g \<Longrightarrow> length ip < INET_ADDRSTRLEN \<Longrightarrow> look (add now g ip port) =
      (case look g ip of
         Some p \<Rightarrow> (look g)(ip \<mapsto> p\<lparr>p_port := port, p_last_seen := now\<rparr>)
       | None \<Rightarrow> if room g then (look g)(ip \<mapsto> new_entry now ip port) else look g)"
    and ok_remove: "ok g \<Longrightarrow> ok (remove g ip)"
    and look_remove: "ok g \<Longrightarrow> look (remove g ip) = (look g)(ip := None)"
    and ok_touch: "ok g \<Longrightarrow> ok (touch now g ip)"
    and look_touch: "ok g \<Longrightarrow> look (touch now g ip) =
      (case look g ip of Some p \<Rightarrow> (look g)(ip \<mapsto> p\<lparr>p_last_seen := now\<rparr>) | None \<Rightarrow> look g)"
    and ok_update: "ok g \<Longrightarrow> ok (update now g ip r)"
    and look_update: "ok g \<Longrightarrow> look (update now g ip r) =
      (case look g ip of Some p \<Rightarrow> (look g)(ip \<mapsto> load_entry now r p) | None \<Rightarrow> look g)"
    and ok_reap: "ok g \<Longrightarrow> ok (reap now g)"
    and look_reap: "ok g \<Longrightarrow> look (reap now g) ip =
      (case look g ip of Some p \<Rightarrow> if stale now p then None else Some p | None \<Rightarrow> None)"
begin

lemmas ok_ops = ok_add ok_remove ok_touch ok_update ok_reap

lemma hello_known:
  assumes "ok g" "length ip < INET_ADDRSTRLEN" "look g ip \<noteq> None \<or> room g"
  shows "\<exists>p. look (touch t2 (add t1 g ip port) ip) ip = Some p \<and> p_port p = port \<and> p_last_seen p = t2"
  using assms by (auto simp: look_touch look_add ok_add split: option.splits)

lemma hello_frame:
  assumes "ok g" "length ip < INET_ADDRSTRLEN" "x \<noteq> ip"
  shows "look (touch t2 (add t1 g ip port) ip) x = look g x"
  using assms by (auto simp: look_touch look_add ok_add split: option.splits)

lemma hello_full:
  assumes "ok g" "length ip < INET_ADDRSTRLEN" "look g ip = None" "\<not> room g"
  shows "look (touch t2 (add t1 g ip port) ip) = look g"
  using assms by (simp add: look_touch look_add ok_add)

lemma bye_forgets: "ok g \<Longrightarrow> look (remove g ip) ip = None"
  by (simp add: look_remove)

lemma bye_frame: "ok g \<Longrightarrow> x \<noteq> ip \<Longrightarrow> look (remove g ip) x = look g x"
  by (simp add: look_remove)

lemma update_known:
  "ok g \<Longrightarrow> look g ip = Some p \<Longrightarrow> look (update now g ip r) ip = Some (load_entry now r p)"
  by (simp add: look_update)

lemma update_frame: "ok g \<Longrightarrow> x \<noteq> ip \<Longrightarrow> look (update now g ip r) x = look g x"
  by (simp add: look_update split: option.splits)

lemma update_dom: "ok g \<Longrightarrow> dom (look (update now g ip r)) = dom (look g)"
  by (auto simp: look_update split: option.splits)

lemma reap_keeps: "ok g \<Longrightarrow> look g ip = Some p \<Longrightarrow> \<not> stale now p \<Longrightarrow> look (reap now g) ip = Some p"
  by (simp add: look_reap)

lemma reap_drops: "ok g \<Longrightarrow> look g ip = Some p \<Longrightarrow> stale now p \<Longrightarrow> look (reap now g) ip = None"
  by (simp add: look_reap)

lemma reap_no_new: "ok g \<Longrightarrow> look (reap now g) ip = Some p \<Longrightarrow> look g ip = Some p"
  by (auto simp: look_reap split: option.splits if_splits)

end

interpretation reg: peer_registry peers_ok lookup "\<lambda>g. peer_count g < MAX_PEERS" peer_list_add
    peer_list_remove peer_list_touch peer_list_update_load peer_list_reap_stale
  by unfold_locales
    (simp_all add: add_contract remove_contract touch_contract update_load_contract reap_contract)

section \<open>Properties\<close>

text \<open>C5: on a well-formed table the five operations that change it keep it
  well-formed and implement, looked up by address, an abstract finite map: add inserts or renews an
  entry (and drops a new address only when all slots are taken), remove deletes, touch and
  update-load change one entry in place and never create one, reaping deletes exactly the entries
  not seen for more than \<^verbatim>\<open>PEER_TIMEOUT_SECS\<close>.\<close>

theorem registry_refines:
  assumes "peers_ok g" "length ip < INET_ADDRSTRLEN"
  shows "peers_ok (peer_list_add now g ip port) \<and> peers_ok (peer_list_remove g ip) \<and>
     peers_ok (peer_list_touch now g ip) \<and> peers_ok (peer_list_update_load now g ip r) \<and>
     peers_ok (peer_list_reap_stale now g) \<and>
     lookup (peer_list_add now g ip port) =
       (case lookup g ip of
          Some p \<Rightarrow> (lookup g)(ip \<mapsto> p\<lparr>p_port := port, p_last_seen := now\<rparr>)
        | None \<Rightarrow> if peer_count g < MAX_PEERS then (lookup g)(ip \<mapsto> new_entry now ip port) else lookup g) \<and>
     lookup (peer_list_remove g ip) = (lookup g)(ip := None) \<and>
     lookup (peer_list_touch now g ip) =
       (case lookup g ip of Some p \<Rightarrow> (lookup g)(ip \<mapsto> p\<lparr>p_last_seen := now\<rparr>) | None \<Rightarrow> lookup g) \<and>
     lookup (peer_list_update_load now g ip r) =
       (case lookup g ip of Some p \<Rightarrow> (lookup g)(ip \<mapsto> load_entry now r p) | None \<Rightarrow> lookup g) \<and>
     lookup (peer_list_reap_stale now g) =
       (\<lambda>x. case lookup g x of
              Some p \<Rightarrow> if PEER_TIMEOUT_SECS < now - p_last_seen p then None else Some p
            | None \<Rightarrow> None)"
  using assms
  by (simp add: reg.ok_ops reg.look_add reg.look_remove reg.look_touch reg.look_update)
    (auto simp: fun_eq_iff reg.look_reap stale_def split: option.split)

lemma empty_table: "peer_count peer_list_init = 0" "lookup peer_list_init = Map.empty"
  by (simp_all add: peer_count_def fun_eq_iff lookup_init) (simp add: peer_list_init_def)

lemma table_of_one_at:
  "peers_ok (peer_list_add now peer_list_init ''10.0.0.2'' port)"
  "lookup (peer_list_add now peer_list_init ''10.0.0.2'' port) = [''10.0.0.2'' \<mapsto> new_entry now ''10.0.0.2'' port]"
  using add_contract [OF peers_ok_init, of "''10.0.0.2''" now port]
  by (simp_all add: empty_table INET_ADDRSTRLEN_def MAX_PEERS_def)

lemmas table_of_one = table_of_one_at [of 5 7777]

theorem registry_refines_witness:
  "lookup (peer_list_touch 9 (peer_list_add 5 peer_list_init ''10.0.0.2'' 7777) ''10.0.0.2'') ''10.0.0.2'' =
     Some (new_entry 9 ''10.0.0.2'' 7777) \<and>
   lookup (peer_list_remove (peer_list_add 5 peer_list_init ''10.0.0.2'' 7777) ''10.0.0.2'') = Map.empty \<and>
   lookup (peer_list_reap_stale 36 (peer_list_add 5 peer_list_init ''10.0.0.2'' 7777)) ''10.0.0.2'' = None"
  using registry_refines [OF table_of_one(1), of "''10.0.0.2''" 9 0]
    registry_refines [OF table_of_one(1), of "''10.0.0.2''" 36 0]
  by (simp add: table_of_one INET_ADDRSTRLEN_def new_entry_def PEER_TIMEOUT_SECS_def)

text \<open>\<^verbatim>\<open>peer_list_get_all\<close> never writes past the caller's array, and
  with an array of \<^verbatim>\<open>MAX_PEERS\<close> entries it copies every known peer, each exactly once.\<close>

theorem snapshot_complete:
  assumes "peers_ok g"
  shows "length (peer_list_get_all g cap) \<le> cap \<and>
    set (peer_list_get_all g MAX_PEERS) = ran (lookup g) \<and>
    distinct (map p_ip (peer_list_get_all g MAX_PEERS)) \<and>
    length (peer_list_get_all g MAX_PEERS) = peer_count g"
proof (intro conjI)
  show "length (peer_list_get_all g cap) \<le> cap" by (simp add: get_all_eq)
  have "p \<in> ran (lookup g) \<longleftrightarrow> lookup g (p_ip p) = Some p" for p
    by (auto simp: ran_def lookup_Some_iff [OF assms])
  then show "set (peer_list_get_all g MAX_PEERS) = ran (lookup g)"
    using get_all_lookup [OF assms] by blast
  show "distinct (map p_ip (peer_list_get_all g MAX_PEERS))" by (rule get_all_distinct [OF assms])
  show "length (peer_list_get_all g MAX_PEERS) = peer_count g"
    by (simp add: get_all_full assms peer_count_def)
qed

theorem snapshot_complete_witness:
  "map p_ip (peer_list_get_all (peer_list_add 5 peer_list_init ''10.0.0.2'' 7777) MAX_PEERS) = [''10.0.0.2'']"
proof -
  let ?l = "peer_list_get_all (peer_list_add 5 peer_list_init ''10.0.0.2'' 7777) MAX_PEERS"
  from snapshot_complete [OF table_of_one(1)] have "set ?l = {new_entry 5 ''10.0.0.2'' 7777}" "distinct (map p_ip ?l)"
    by (simp_all add: table_of_one(2))
  then have "distinct (map p_ip ?l)" "set (map p_ip ?l) = {''10.0.0.2''}" by auto
  then show ?thesis by (cases ?l; cases "tl ?l") auto
qed

end
