(* ===== verification/Discovery.thy ===== *)
theory Discovery
  imports Sockets Peer_List
begin

text \<open>
  \<^verbatim>\<open>discovery.c\<close>: the static state of the subsystem, the HELLO and BYE broadcasts, one
  iteration of each thread's loop, the listener run over a sequence of received datagrams, and the
  start of the subsystem. Threads that were started are recorded by name; the loops they run are
  the iteration functions of this theory.
\<close>

section \<open>State and broadcasts\<close>

record disc =
  g_own_port :: u16
  g_local_ip :: string
  g_bcast_fd :: int

definition disc_init :: disc where
  "disc_init = \<lparr>g_own_port = DEFAULT_WORKER_PORT, g_local_ip = ''127.0.0.1'', g_bcast_fd = -1\<rparr>"

record datagram =
  dg_dst :: sockaddr_in
  dg_data :: "byte list"

definition INADDR_BROADCAST :: u32 where "INADDR_BROADCAST = 0xFFFFFFFF"

text \<open>
  \<open>host\<close> is the machine's name. \<^verbatim>\<open>gethostname\<close> fills at most 63 bytes of a buffer of
  zeroes, so the field always ends in a NUL.
\<close>

definition pad_to :: "nat \<Rightarrow> byte list \<Rightarrow> byte list" where
  "pad_to n bs = bs @ replicate (n - length bs) 0"

definition build_hello :: "string \<Rightarrow> disc \<Rightarrow> payload_hello_t" where
  "build_hello host d =
     \<lparr>tcp_port = htons (g_own_port d),
      hostname = pad_to MAX_HOSTNAME_LEN (take (MAX_HOSTNAME_LEN - 1) (bytes_of host))\<rparr>"

definition hello_packet :: "string \<Rightarrow> disc \<Rightarrow> msg_type_t \<Rightarrow> byte list" where
  "hello_packet host d type =
     (let h = build_hello host d;
          hdr = zero_header\<lparr>h_type := msg_code type, h_payload_len := htonl (word_of_nat HELLO_SIZE)\<rparr>
      in mem_header hdr @ mem_hello h)"

definition send_broadcast :: "string \<Rightarrow> disc \<Rightarrow> msg_type_t \<Rightarrow> datagram list" where
  "send_broadcast host d type =
     (if g_bcast_fd d < 0 then []
      else [\<lparr>dg_dst = \<lparr>sin_port = htons DISCOVERY_PORT, sin_addr = htonl INADDR_BROADCAST\<rparr>,
             dg_data = hello_packet host d type\<rparr>])"

text \<open>One round of the announcer, and the farewell before shutdown.\<close>

definition announcer_round :: "string \<Rightarrow> disc \<Rightarrow> datagram list" where
  "announcer_round host d = send_broadcast host d MSG_HELLO"

definition discovery_send_bye :: "string \<Rightarrow> disc \<Rightarrow> datagram list" where
  "discovery_send_bye host d = send_broadcast host d MSG_BYE"

section \<open>The listener\<close>

definition LISTEN_BUF :: nat where "LISTEN_BUF = HDR_SIZE + HELLO_SIZE + 16"

text \<open>
  One iteration: \<open>data\<close> is the datagram that arrived (\<open>None\<close> when \<^verbatim>\<open>recvfrom\<close> fails), cut
  to the buffer; \<open>src\<close> its source address; \<open>t1\<close> and \<open>t2\<close> are the clock values that
  \<^verbatim>\<open>peer_list_add\<close> and \<^verbatim>\<open>peer_list_touch\<close> read.
\<close>

definition listener_step :: "disc \<Rightarrow> int \<Rightarrow> int \<Rightarrow> u32 \<Rightarrow> byte list option \<Rightarrow> peers \<Rightarrow> peers" where
  "listener_step d t1 t2 src data g =
     (case data of
        None \<Rightarrow> g
      | Some pkt \<Rightarrow>
          let buf = take LISTEN_BUF pkt; n = length buf in
          if n < HDR_SIZE then g
          else
            let hdr = rd_header buf; plen = unat (ntohl (h_payload_len hdr)) in
            if n < HDR_SIZE + plen then g
            else
              let src_ip = inet_ntop src in
              if src_ip = g_local_ip d then g
              else if h_type hdr = msg_code MSG_HELLO then
                (if plen < HELLO_SIZE then g
                 else
                   let h = rd_hello (drop HDR_SIZE buf); port = ntohs (tcp_port h) in
                   peer_list_touch t2 (peer_list_add t1 g src_ip port) src_ip)
              else if h_type hdr = msg_code MSG_BYE then peer_list_remove g src_ip
              else g)"

record udp_event =
  ev_t1 :: int
  ev_t2 :: int
  ev_src :: u32
  ev_data :: "byte list option"

fun listener_run :: "disc \<Rightarrow> udp_event list \<Rightarrow> peers \<Rightarrow> peers" where
  "listener_run d [] g = g"
| "listener_run d (e # es) g =
     listener_run d es (listener_step d (ev_t1 e) (ev_t2 e) (ev_src e) (ev_data e) g)"

text \<open>The listener's thread: without its socket it ends at once.\<close>

definition listener_thread :: "sock_env \<Rightarrow> disc \<Rightarrow> udp_event list \<Rightarrow> kern \<Rightarrow> peers \<Rightarrow> peers \<times> kern" where
  "listener_thread e d es k g =
     (let (fd, k1) = make_udp_broadcast_socket e (uint DISCOVERY_PORT) k in
      if fd < 0 then (g, k1) else (listener_run d es g, k1))"

text \<open>One round of the reaper, which wakes every \<^verbatim>\<open>PEER_TIMEOUT_SECS / 2\<close> seconds.\<close>

definition REAPER_PERIOD :: int where "REAPER_PERIOD = PEER_TIMEOUT_SECS div 2"

definition reaper_round :: "int \<Rightarrow> peers \<Rightarrow> peers" where
  "reaper_round now g = peer_list_reap_stale now g"

text \<open>
  The loops of the announcer and the reaper over a number of rounds: when each round takes place and
  what it sends. Each entry of the list is one round, by how many seconds it is late: \<^verbatim>\<open>sleep\<close>
  never returns early, but the thread may be resumed later.
\<close>

fun announcer_thread :: "string \<Rightarrow> disc \<Rightarrow> int \<Rightarrow> int list \<Rightarrow> (int \<times> datagram list) list" where
  "announcer_thread host d t [] = []"
| "announcer_thread host d t (x # xs) =
     (t, announcer_round host d) # announcer_thread host d (t + DISCOVERY_INTERVAL + x) xs"

fun reaper_rounds :: "int \<Rightarrow> int list \<Rightarrow> int list" where
  "reaper_rounds t [] = []"
| "reaper_rounds t (x # xs) =
     (t + REAPER_PERIOD + x) # reaper_rounds (t + REAPER_PERIOD + x) xs"

section \<open>Start\<close>

text \<open>\<open>None\<close> is the exit of the process by \<^verbatim>\<open>DIE\<close>.\<close>

definition discovery_start ::
  "sock_env \<Rightarrow> u16 \<Rightarrow> string \<Rightarrow> kern \<Rightarrow> (disc \<times> kern \<times> thread list) option" where
  "discovery_start e own_tcp_port local_ip k =
     (let (fd, k1) = make_udp_broadcast_socket e 0 k in
      if fd < 0 then None
      else Some (\<lparr>g_own_port = own_tcp_port, g_local_ip = take (INET_ADDRSTRLEN - 1) local_ip,
                  g_bcast_fd = fd\<rparr>, k1, [Announcer, Listener, Reaper]))"

section \<open>Packets of the protocol\<close>

lemma length_pad_to [simp]: "length bs \<le> n \<Longrightarrow> length (pad_to n bs) = n"
  by (simp add: pad_to_def)

lemma build_hello_valid [simp]: "length (hostname (build_hello host d)) = MAX_HOSTNAME_LEN"
  by (simp add: build_hello_def)

lemma length_hello_packet [simp]: "length (hello_packet host d type) = HDR_SIZE + HELLO_SIZE"
  by (simp add: hello_packet_def HDR_SIZE_def HELLO_SIZE_def Let_def)

lemma listen_buf_hello: "take LISTEN_BUF (hello_packet host d type) = hello_packet host d type"
  by (simp add: LISTEN_BUF_def)

lemma hello_packet_header [simp]: "rd_header (hello_packet host d type) =
    zero_header\<lparr>h_type := msg_code type, h_payload_len := htonl (word_of_nat HELLO_SIZE)\<rparr>"
  by (simp add: hello_packet_def Let_def)

lemma hello_packet_port [simp]:
  "tcp_port (rd_hello (drop HDR_SIZE (hello_packet host d type))) = htons (g_own_port d)"
proof -
  have "drop HDR_SIZE (hello_packet host d type) = mem_hello (build_hello host d)"
    by (simp add: hello_packet_def Let_def HDR_SIZE_def)
  then have "rd_hello (drop HDR_SIZE (hello_packet host d type)) = build_hello host d"
    by (simp add: hello.dcd_enc_alone)
  then show ?thesis by (simp add: build_hello_def)
qed

lemma HELLO_SIZE_u32 [simp]: "unat (word_of_nat HELLO_SIZE :: u32) = HELLO_SIZE"
  by (simp add: HELLO_SIZE_def MAX_HOSTNAME_LEN_def)

lemma listener_hello_packet:
  "listener_step d t1 t2 src (Some (hello_packet host s type)) g =
     (if inet_ntop src = g_local_ip d then g
      else if type = MSG_HELLO then
        peer_list_touch t2 (peer_list_add t1 g (inet_ntop src) (g_own_port s)) (inet_ntop src)
      else if type = MSG_BYE then peer_list_remove g (inet_ntop src)
      else g)"
  by (simp add: listener_step_def listen_buf_hello Let_def)

text \<open>Whatever arrives, one iteration does one of three things to the table.\<close>

lemma listener_step_cases:
  "listener_step d t1 t2 src data g = g \<or>
   inet_ntop src \<noteq> g_local_ip d \<and>
     ((\<exists>port. listener_step d t1 t2 src data g =
         peer_list_touch t2 (peer_list_add t1 g (inet_ntop src) port) (inet_ntop src)) \<or>
      listener_step d t1 t2 src data g = peer_list_remove g (inet_ntop src))"
  by (cases data) (auto simp: listener_step_def Let_def)

lemma listener_step_ok [inv_intros]: "peers_ok g \<Longrightarrow> peers_ok (listener_step d t1 t2 src data g)"
  using listener_step_cases [of d t1 t2 src data g]
  by (auto simp: reg.ok_ops length_inet_ntop)

lemma listener_step_frame:
  "peers_ok g \<Longrightarrow> x \<noteq> inet_ntop src \<Longrightarrow> lookup (listener_step d t1 t2 src data g) x = lookup g x"
  using listener_step_cases [of d t1 t2 src data g]
  by (auto simp: reg.hello_frame reg.bye_frame length_inet_ntop)

lemma listener_step_self:
  "peers_ok g \<Longrightarrow> lookup (listener_step d t1 t2 src data g) (g_local_ip d) = lookup g (g_local_ip d)"
  using listener_step_cases [of d t1 t2 src data g]
  by (auto simp: reg.hello_frame reg.bye_frame length_inet_ntop)

lemma listener_run_ok: "peers_ok g \<Longrightarrow> peers_ok (listener_run d es g)"
  by (induction es arbitrary: g) (simp_all add: listener_step_ok)

lemma listener_run_self: "peers_ok g \<Longrightarrow> lookup (listener_run d es g) (g_local_ip d) = lookup g (g_local_ip d)"
  by (induction es arbitrary: g) (simp_all add: listener_step_ok listener_step_self)

lemma listener_run_frame:
  "peers_ok g \<Longrightarrow> x \<notin> (\<lambda>e. inet_ntop (ev_src e)) ` set es \<Longrightarrow> lookup (listener_run d es g) x = lookup g x"
  by (induction es arbitrary: g) (simp_all add: listener_step_ok listener_step_frame)

section \<open>Malformed datagrams\<close>

text \<open>They leave the table as it is.\<close>

definition malformed :: "byte list \<Rightarrow> bool" where
  "malformed pkt \<longleftrightarrow>
     (let h = rd_header pkt; plen = unat (ntohl (h_payload_len h)) in
      length pkt < HDR_SIZE \<or> length pkt < HDR_SIZE + plen \<or>
      h_type h \<notin> {msg_code MSG_HELLO, msg_code MSG_BYE} \<or>
      h_type h = msg_code MSG_HELLO \<and> plen < HELLO_SIZE)"

lemma malformed_ignored:
  assumes "malformed pkt" "length pkt \<le> LISTEN_BUF"
  shows "listener_step d t1 t2 src (Some pkt) g = g"
  using assms by (auto simp: malformed_def listener_step_def Let_def)

section \<open>Properties\<close>

text \<open>A HELLO that one node broadcasts makes every other node that receives
  it know the sender's address with the sender's worker port and the current time, if the address
  is known already or a slot is free; a BYE makes the receiver forget the sender. Either way no
  other entry changes, and a node ignores its own broadcasts.\<close>

theorem hello_bye_effect:
  assumes "peers_ok g" "inet_ntop src \<noteq> g_local_ip d"
    and "lookup g (inet_ntop src) \<noteq> None \<or> peer_count g < MAX_PEERS"
  shows "(\<exists>p. lookup (listener_step d t1 t2 src (Some (hello_packet host s MSG_HELLO)) g) (inet_ntop src) = Some p \<and>
        p_port p = g_own_port s \<and> p_last_seen p = t2) \<and>
    lookup (listener_step d t1 t2 src (Some (hello_packet host s MSG_BYE)) g) (inet_ntop src) = None \<and>
    (\<forall>x. x \<noteq> inet_ntop src \<longrightarrow>
       lookup (listener_step d t1 t2 src (Some (hello_packet host s type)) g) x = lookup g x) \<and>
    (d' = d\<lparr>g_local_ip := inet_ntop src\<rparr> \<longrightarrow> listener_step d' t1 t2 src data g = g)"
proof (intro conjI allI impI)
  show "\<exists>p. lookup (listener_step d t1 t2 src (Some (hello_packet host s MSG_HELLO)) g) (inet_ntop src) = Some p \<and>
        p_port p = g_own_port s \<and> p_last_seen p = t2"
    using reg.hello_known [OF assms(1) length_inet_ntop assms(3)] assms(2)
    by (simp add: listener_hello_packet)
  show "lookup (listener_step d t1 t2 src (Some (hello_packet host s MSG_BYE)) g) (inet_ntop src) = None"
    using assms(1,2) by (simp add: listener_hello_packet reg.bye_forgets)
  show "lookup (listener_step d t1 t2 src (Some (hello_packet host s type)) g) x = lookup g x"
    if "x \<noteq> inet_ntop src" for x
    using listener_step_frame [OF assms(1) that] .
  show "listener_step d' t1 t2 src data g = g" if "d' = d\<lparr>g_local_ip := inet_ntop src\<rparr>"
    using that listener_step_cases [of d' t1 t2 src data g] by simp
qed

definition node_a :: disc where
  "node_a = \<lparr>g_own_port = 7777, g_local_ip = ''10.0.0.1'', g_bcast_fd = 3\<rparr>"

definition node_b :: disc where
  "node_b = \<lparr>g_own_port = 8888, g_local_ip = ''10.0.0.2'', g_bcast_fd = 3\<rparr>"

lemma ip_10_0_0_2: "inet_ntop 0x0200000A = ''10.0.0.2''"
  by (simp add: inet_ntop_def mem32_def dec.simps digit_def char_of_eq_iff)

theorem hello_bye_effect_witness:
  "(\<exists>p. lookup (listener_step node_a 100 101 0x0200000A (Some (hello_packet ''bob'' node_b MSG_HELLO)) peer_list_init)
        ''10.0.0.2'' = Some p \<and> p_port p = 8888 \<and> p_last_seen p = 101) \<and>
   lookup (listener_step node_a 100 101 0x0200000A (Some (hello_packet ''bob'' node_b MSG_BYE)) peer_list_init)
        ''10.0.0.2'' = None"
  using hello_bye_effect [of peer_list_init "0x0200000A" node_a 100 101 "''bob''" node_b MSG_HELLO]
  by (simp add: peers_ok_init ip_10_0_0_2 empty_table MAX_PEERS_def node_a_def node_b_def)

text \<open>Whatever datagrams arrive, from whomever, malformed or not, the table
  stays well-formed, the node's own address is never added or changed by them, and an address
  that sent nothing keeps its entry.\<close>

theorem listener_robust:
  assumes "peers_ok g"
  shows "peers_ok (listener_run d es g) \<and>
    lookup (listener_run d es g) (g_local_ip d) = lookup g (g_local_ip d) \<and>
    (x \<notin> (\<lambda>e. inet_ntop (ev_src e)) ` set es \<longrightarrow> lookup (listener_run d es g) x = lookup g x)"
  using assms listener_run_ok listener_run_self listener_run_frame by blast

theorem listener_robust_witness:
  "peers_ok (listener_run node_a
     [\<lparr>ev_t1 = 1, ev_t2 = 1, ev_src = 0x0200000A, ev_data = Some [1, 0, 0xFF]\<rparr>,
      \<lparr>ev_t1 = 2, ev_t2 = 2, ev_src = 0x0200000A, ev_data = None\<rparr>] peer_list_init)"
  using listener_robust [OF peers_ok_init] by blast

end
