(* ===== verification/Load_Monitor.thy ===== *)
theory Load_Monitor
  imports Wire
begin

text \<open>
  \<^verbatim>\<open>load_monitor.c\<close>: the two atomic task counters and the load of the machine as a
  percentage and as the dispatcher's score. What \<^verbatim>\<open>/proc/loadavg\<close> holds and the answer of
  \<^verbatim>\<open>sysconf\<close> come from the environment. Both branches of \<^verbatim>\<open>load_get\<close> are modelled.
\<close>

section \<open>Task counters\<close>

record load_state =
  g_active_tasks :: u32
  g_total_tasks :: u32

definition load_init :: load_state where
  "load_init = \<lparr>g_active_tasks = 0, g_total_tasks = 0\<rparr>"

definition load_task_start :: "load_state \<Rightarrow> load_state" where
  "load_task_start s = s\<lparr>g_active_tasks := g_active_tasks s + 1, g_total_tasks := g_total_tasks s + 1\<rparr>"

definition load_task_done :: "load_state \<Rightarrow> load_state" where
  "load_task_done s = s\<lparr>g_active_tasks := g_active_tasks s - 1\<rparr>"

definition load_get_active_tasks :: "load_state \<Rightarrow> u32" where
  "load_get_active_tasks s = g_active_tasks s"

definition load_get_total_tasks :: "load_state \<Rightarrow> u32" where
  "load_get_total_tasks s = g_total_tasks s"

section \<open>The load of the machine\<close>

text \<open>
  On Linux opening \<^verbatim>\<open>/proc/loadavg\<close> fails, or \<^verbatim>\<open>fscanf\<close> returns a count and has stored
  three floats. On other systems \<^verbatim>\<open>getloadavg\<close> fails or has stored three doubles. A finite double is
  its sign and a multiple of \<open>2 ^ -1074\<close>; converted to a float it is rounded.
\<close>

record f64 =
  f64_neg :: bool
  f64_units :: nat

definition f32_of_f64 :: "f64 \<Rightarrow> f32" where
  "f32_of_f64 x = f32_make (f64_neg x) (round_mag (f64_units x * 2 ^ 149) (2 ^ 1074))"

datatype loadavg = Fopen_Failed | Scanned int f32 f32 f32 | Getloadavg_Failed | Getloadavg f64 f64 f64

definition load_get :: "loadavg \<Rightarrow> int \<times> f32 \<times> f32 \<times> f32" where
  "load_get la =
     (let bad = (-1, f32_of_nat 99, f32_of_nat 99, f32_of_nat 99) in
      case la of
        Fopen_Failed \<Rightarrow> bad
      | Scanned ret l1 l5 l15 \<Rightarrow> if ret \<noteq> 3 then bad else (0, l1, l5, l15)
      | Getloadavg_Failed \<Rightarrow> bad
      | Getloadavg d1 d5 d15 \<Rightarrow> (0, f32_of_f64 d1, f32_of_f64 d5, f32_of_f64 d15))"

text \<open>\<open>n\<close> is \<^verbatim>\<open>sysconf(_SC_NPROCESSORS_ONLN)\<close>.\<close>

definition load_get_core_count :: "int \<Rightarrow> u32" where
  "load_get_core_count n = (if n < 1 then 1 else word_of_int n)"

definition load_get_percentage :: "loadavg \<Rightarrow> int \<Rightarrow> f32" where
  "load_get_percentage la n =
     (let (ret, l1, l5, l15) = load_get la in
      if ret \<noteq> 0 then f32_of_nat 0
      else
        let cores = load_get_core_count n;
            pct = (l1 / f32_of_nat (unat cores)) * f32_of_nat 100 in
        if f32_of_nat 100 < pct then f32_of_nat 100 else pct)"

definition load_score :: "f32 \<Rightarrow> u32 \<Rightarrow> f32" where
  "load_score pct active = pct + f32_of_nat 10 * f32_of_nat (unat active)"

definition load_score_local :: "loadavg \<Rightarrow> int \<Rightarrow> load_state \<Rightarrow> f32" where
  "load_score_local la n s = load_score (load_get_percentage la n) (load_get_active_tasks s)"

section \<open>The counters as an interface\<close>

text \<open>
  The worker brackets every task with a start and a done. Between balanced calls the active
  counter is the number of tasks that have started and not finished, as a 32-bit number.
\<close>

datatype task_event = Task_Start | Task_Done

fun well_bracketed :: "nat \<Rightarrow> task_event list \<Rightarrow> bool" where
  "well_bracketed n [] = True"
| "well_bracketed n (Task_Start # es) = well_bracketed (Suc n) es"
| "well_bracketed n (Task_Done # es) = (0 < n \<and> well_bracketed (n - 1) es)"

definition running_after :: "nat \<Rightarrow> task_event list \<Rightarrow> nat" where
  "running_after n es = n + count_list es Task_Start - count_list es Task_Done"

locale task_counter =
  fixes start :: "'s \<Rightarrow> 's" and finish :: "'s \<Rightarrow> 's"
    and active :: "'s \<Rightarrow> u32" and total :: "'s \<Rightarrow> u32"
  assumes active_start: "active (start s) = active s + 1"
    and active_finish: "active (finish s) = active s - 1"
    and total_start: "total (start s) = total s + 1"
    and total_finish: "total (finish s) = total s"
begin

fun play :: "task_event list \<Rightarrow> 's \<Rightarrow> 's" where
  "play [] s = s"
| "play (Task_Start # es) s = play es (start s)"
| "play (Task_Done # es) s = play es (finish s)"

lemma play_active: "active (play es s) = active s + word_of_nat (count_list es Task_Start)
    - word_of_nat (count_list es Task_Done)"
proof (induction es arbitrary: s)
  case (Cons e es)
  then show ?case by (cases e) (simp_all add: active_start active_finish)
qed simp

lemma play_total: "total (play es s) = total s + word_of_nat (count_list es Task_Start)"
proof (induction es arbitrary: s)
  case (Cons e es)
  then show ?case by (cases e) (simp_all add: total_start total_finish)
qed simp

lemma bracket_active:
  assumes "well_bracketed n es" "active s = word_of_nat n"
  shows "active (play es s) = word_of_nat (running_after n es) \<and>
    count_list es Task_Done \<le> n + count_list es Task_Start"
  using assms
proof (induction es arbitrary: s n)
  case (Cons e es)
  show ?case
  proof (cases e)
    case Task_Start
    then show ?thesis using Cons.IH [of "Suc n" "start s"] Cons.prems
      by (simp add: active_start running_after_def)
  next
    case Task_Done
    then have n: "0 < n" "well_bracketed (n - 1) es" using Cons.prems by auto
    then have "active (finish s) = word_of_nat (n - 1)"
      using Cons.prems by (simp add: active_finish of_nat_diff)
    from Cons.IH [OF n(2) this] show ?thesis using n Task_Done by (auto simp: running_after_def)
  qed
qed (simp add: running_after_def)

end

interpretation tasks: task_counter load_task_start load_task_done load_get_active_tasks load_get_total_tasks
  by unfold_locales
    (simp_all add: load_task_start_def load_task_done_def load_get_active_tasks_def load_get_total_tasks_def)

section \<open>Percentages and scores\<close>

lemma core_count_range: "n < 2 ^ 32 \<Longrightarrow> 1 \<le> unat (load_get_core_count n)"
proof -
  assume "n < 2 ^ 32"
  then have "\<not> n < 1 \<Longrightarrow> unat (word_of_int n :: u32) = nat n"
    by (simp add: unsigned_of_int take_bit_int_eq_self)
  then show ?thesis by (auto simp: load_get_core_count_def)
qed

lemma u32_float_nonneg [simp]: "f32_nonneg (f32_of_nat (unat (w :: u32)))"
  using u32_lt [of w] by (intro f32_of_nat_nonneg) simp

lemma lit_nonneg [simp]: "f32_nonneg (f32_of_nat 0)" "f32_nonneg (f32_of_nat 10)" "f32_nonneg (f32_of_nat 100)"
  by (simp_all add: f32_of_nat_nonneg)

lemma f32_of_nat_0_le: "f32_nonneg x \<Longrightarrow> f32_of_nat 0 \<le> x"
  by (simp add: f32_le_nonneg f32_of_nat_mag)

definition raw_percentage :: "f32 \<Rightarrow> u32 \<Rightarrow> f32" where
  "raw_percentage l1 cores = (l1 / f32_of_nat (unat cores)) * f32_of_nat 100"

definition cap100 :: "f32 \<Rightarrow> f32" where
  "cap100 x = (if f32_of_nat 100 < x then f32_of_nat 100 else x)"

lemma percentage_ok:
  "load_get la = (0, l1, l5, l15) \<Longrightarrow>
     load_get_percentage la n = cap100 (raw_percentage l1 (load_get_core_count n))"
  by (simp add: load_get_percentage_def raw_percentage_def cap100_def Let_def)

lemma percentage_failed: "fst (load_get la) \<noteq> 0 \<Longrightarrow> load_get_percentage la n = f32_of_nat 0"
  by (auto simp: load_get_percentage_def split: prod.splits)

lemma cap100_le: "\<not> f32_nan x \<Longrightarrow> cap100 x \<le> f32_of_nat 100"
  by (auto simp: cap100_def f32_not_less f32_le_refl)

lemma cap100_mono: "x \<le> y \<Longrightarrow> cap100 x \<le> cap100 y"
  by (auto simp: cap100_def less_eq_f32_def less_f32_def)

lemma div_cores_nonneg:
  assumes "f32_nonneg l1" "0 < unat cores"
  shows "f32_nonneg (l1 / f32_of_nat (unat (cores :: u32)))"
proof -
  have "f32_of_nat 1 \<le> f32_of_nat (unat cores)" using assms by (intro f32_of_nat_mono) simp
  then have le: "l1 / f32_of_nat (unat cores) \<le> l1 / f32_of_nat 1"
    using assms f32_of_nat_nonneg [of 1] f32_of_nat_pos [of 1] by (intro f32_div_antimono) simp_all
  have "f32_mag l1 < F32_INF" using assms by (simp add: f32_nonneg_def f32_finite_def)
  moreover have "l1 / f32_of_nat (unat cores) =
      f32_make False (round_mag (mag_val (f32_mag l1) * 2 ^ 149) (mag_val (f32_mag (f32_of_nat (unat cores)))))"
    using assms f32_of_nat_pos [of "unat cores"] by (intro f32_div_nonneg) simp_all
  ultimately show ?thesis
    using le f32_div_one [OF assms(1)] by (simp add: f32_nonneg_def f32_finite_def)
qed

lemma raw_percentage_make:
  assumes "f32_nonneg l1" "0 < unat cores"
  obtains m where "raw_percentage l1 cores = f32_make False m" "m \<le> F32_INF"
  using f32_mul_nonneg [OF div_cores_nonneg [OF assms] lit_nonneg(3)]
  by (auto simp: raw_percentage_def intro: that)

lemma cap100_nonneg: "m \<le> F32_INF \<Longrightarrow> f32_nonneg (cap100 (f32_make False m))"
proof -
  assume m: "m \<le> F32_INF"
  have h: "f32_mag (f32_of_nat 100) < F32_INF"
    using lit_nonneg(3) by (simp add: f32_nonneg_def f32_finite_def)
  have "f32_of_nat 100 = f32_make False (f32_mag (f32_of_nat 100))"
    by (simp add: f32_of_nat_mag f32_of_nat_def)
  with m h have "\<not> f32_of_nat 100 < f32_make False m \<Longrightarrow> m \<le> f32_mag (f32_of_nat 100)"
    by (metis f32_make_le f32_not_less f32_nan_make less_imp_le)
  then show ?thesis using m h
    by (cases "f32_of_nat 100 < f32_make False m")
       (auto simp: cap100_def f32_nonneg_def f32_finite_def)
qed

lemma percentage_nonneg:
  assumes "load_get la = (0, l1, l5, l15)" "f32_nonneg l1" "n < 2 ^ 32"
  shows "f32_nonneg (load_get_percentage la n)"
proof -
  from core_count_range [OF assms(3)] have "0 < unat (load_get_core_count n)" by simp
  from raw_percentage_make [OF assms(2) this] obtain m where
    "raw_percentage l1 (load_get_core_count n) = f32_make False m" "m \<le> F32_INF" .
  then show ?thesis by (simp add: percentage_ok [OF assms(1)] cap100_nonneg)
qed

lemma raw_percentage_mono:
  assumes "f32_nonneg l" "f32_nonneg l'" "l \<le> l'" "0 < unat c'" "c' \<le> c"
  shows "raw_percentage l c \<le> raw_percentage l' c'"
proof -
  have c: "0 < unat c" "unat c' \<le> unat c" using assms(4,5) by (auto simp: word_le_nat_alt)
  have "l / f32_of_nat (unat c) \<le> l' / f32_of_nat (unat c)"
    using assms c by (intro f32_div_mono) (simp_all add: f32_of_nat_pos)
  also have "\<dots> \<le> l' / f32_of_nat (unat c')"
    using assms c by (intro f32_div_antimono) (simp_all add: f32_of_nat_pos f32_of_nat_mono)
  finally have "l / f32_of_nat (unat c) \<le> l' / f32_of_nat (unat c')" .
  then have "f32_of_nat 100 * (l / f32_of_nat (unat c)) \<le> f32_of_nat 100 * (l' / f32_of_nat (unat c'))"
    using assms c by (intro f32_mul_mono) (simp_all add: div_cores_nonneg)
  moreover have "f32_of_nat 100 * x = x * f32_of_nat 100" if "f32_nonneg x" for x
    using that by (simp add: f32_mul_nonneg mult.commute)
  ultimately show ?thesis using assms c by (simp add: raw_percentage_def div_cores_nonneg)
qed

lemma weighted_tasks_nonneg: "f32_nonneg (f32_of_nat 10 * f32_of_nat (unat (w :: u32)))"
proof -
  have u: "f32_of_nat (unat w) \<le> f32_of_nat (2 ^ 32)"
    using u32_lt [of w] by (intro f32_of_nat_mono) simp
  have n: "f32_nonneg (f32_of_nat (2 ^ 32))" by (simp add: f32_of_nat_nonneg)
  have "f32_of_nat 10 * f32_of_nat (unat w) \<le> f32_of_nat 10 * f32_of_nat (2 ^ 32)"
    using u n by (intro f32_mul_mono) simp_all
  moreover have "f32_finite (f32_of_nat 10 * f32_of_nat (2 ^ 32))"
    by (simp add: f32_eval f32_finite_def)
  ultimately show ?thesis
    using f32_mul_nonneg [OF lit_nonneg(2) n] f32_mul_nonneg [OF lit_nonneg(2) u32_float_nonneg [of w]]
    by (simp add: f32_nonneg_def f32_finite_def)
qed

lemma load_score_mono:
  assumes "f32_finite p" "f32_finite q" "p \<le> q" "a \<le> b"
  shows "load_score p a \<le> load_score q b"
proof -
  have "f32_of_nat 10 * f32_of_nat (unat a) \<le> f32_of_nat 10 * f32_of_nat (unat b)"
    using assms(4) by (intro f32_mul_mono) (simp_all add: f32_of_nat_mono word_le_nat_alt)
  then show ?thesis
    unfolding load_score_def using assms weighted_tasks_nonneg [of a] weighted_tasks_nonneg [of b]
    by (intro f32_add_mono) (simp_all add: f32_nonnegD)
qed

section \<open>Properties\<close>

text \<open>With a readable load average (a non-negative finite float) the
  percentage lies between 0 and 100, and is never a NaN, for every number of cores.\<close>

theorem percentage_range:
  assumes "load_get la = (0, l1, l5, l15)" "f32_nonneg l1" "n < 2 ^ 32"
  shows "f32_of_nat 0 \<le> load_get_percentage la n \<and> load_get_percentage la n \<le> f32_of_nat 100"
proof -
  note nn = percentage_nonneg [OF assms]
  from core_count_range [OF assms(3)] have "0 < unat (load_get_core_count n)" by simp
  from raw_percentage_make [OF assms(2) this] obtain m where
    "raw_percentage l1 (load_get_core_count n) = f32_make False m" "m \<le> F32_INF" .
  then show ?thesis using nn by (simp add: percentage_ok [OF assms(1)] cap100_le f32_of_nat_0_le)
qed

theorem percentage_range_witness:
  "f32_of_nat 0 \<le> load_get_percentage (Scanned 3 (F32 0x40200000) (F32 0) (F32 0)) 4 \<and>
   load_get_percentage (Scanned 3 (F32 0x40200000) (F32 0) (F32 0)) 4 \<le> f32_of_nat 100"
  by (rule percentage_range) (simp add: load_get_def, simp_all add: f32_eval f32_nonneg_def f32_finite_def)

text \<open>C35: the score orders nodes as intended: a higher one-minute load average,
  fewer cores or more active tasks never give a smaller score.\<close>

theorem score_monotone:
  assumes "load_get la = (0, l, l5, l15)" "load_get la' = (0, l', l5', l15')"
    and "f32_nonneg l" "f32_nonneg l'" "l \<le> l'" "n < 2 ^ 32" "n' < 2 ^ 32"
    and "load_get_core_count n' \<le> load_get_core_count n"
    and "load_get_active_tasks s \<le> load_get_active_tasks s'"
  shows "load_score_local la n s \<le> load_score_local la' n' s'"
proof -
  have c: "0 < unat (load_get_core_count n')" using core_count_range [OF assms(7)] by simp
  have "load_get_percentage la n \<le> load_get_percentage la' n'"
    unfolding percentage_ok [OF assms(1)] percentage_ok [OF assms(2)]
    using assms(3-) c by (intro cap100_mono raw_percentage_mono)
  then show ?thesis unfolding load_score_local_def
    using percentage_nonneg [OF assms(1,3,6)] percentage_nonneg [OF assms(2,4,7)] assms(9)
    by (intro load_score_mono) (simp_all add: f32_nonnegD)
qed

text \<open>Half a task per minute on eight cores under Linux, and a whole one on two cores elsewhere.\<close>

theorem score_monotone_witness:
  "load_score_local (Scanned 3 (F32 0x3F000000) (F32 0) (F32 0)) 8 \<lparr>g_active_tasks = 1, g_total_tasks = 3\<rparr> \<le>
   load_score_local (Getloadavg \<lparr>f64_neg = False, f64_units = 2 ^ 1074\<rparr> \<lparr>f64_neg = False, f64_units = 0\<rparr>
     \<lparr>f64_neg = False, f64_units = 0\<rparr>) 2 \<lparr>g_active_tasks = 2, g_total_tasks = 2\<rparr>"
proof -
  have "f32_of_f64 \<lparr>f64_neg = False, f64_units = 2 ^ 1074\<rparr> = F32 0x3F800000"
    by (simp add: f32_of_f64_def f32_eval)
  then show ?thesis
    by (intro score_monotone [of _ "F32 0x3F000000" "F32 0" "F32 0" _ "F32 0x3F800000"
          "f32_of_f64 \<lparr>f64_neg = False, f64_units = 0\<rparr>" "f32_of_f64 \<lparr>f64_neg = False, f64_units = 0\<rparr>"])
      (simp add: load_get_def, simp add: load_get_def,
       simp_all add: f32_eval f32_nonneg_def f32_finite_def less_eq_f32_def load_get_core_count_def load_get_active_tasks_def)
qed

text \<open>C36: a node that cannot read its load average reports 0 percent,
  although \<^verbatim>\<open>load_get\<close> itself sets the average to 99 in that case; so its score is never above the
  score of a node whose load average was read and which has at least as many active tasks.\<close>

theorem unreadable_load_wins:
  assumes "fst (load_get la) \<noteq> 0" "load_get la' = (0, l1, l5, l15)" "f32_nonneg l1" "n' < 2 ^ 32"
    and "load_get_active_tasks s \<le> load_get_active_tasks s'"
  shows "load_get la = (-1, f32_of_nat 99, f32_of_nat 99, f32_of_nat 99) \<and>
    load_get_percentage la n = f32_of_nat 0 \<and> load_score_local la n s \<le> load_score_local la' n' s'"
proof (intro conjI)
  show "load_get la = (-1, f32_of_nat 99, f32_of_nat 99, f32_of_nat 99)"
    using assms(1) by (auto simp: load_get_def Let_def split: loadavg.splits)
  show pct: "load_get_percentage la n = f32_of_nat 0" using percentage_failed [OF assms(1)] .
  show "load_score_local la n s \<le> load_score_local la' n' s'"
    unfolding load_score_local_def pct using percentage_nonneg [OF assms(2-4)] assms(5)
    by (intro load_score_mono) (simp_all add: f32_nonnegD f32_of_nat_0_le)
qed

theorem unreadable_load_wins_witness:
  "load_get_percentage Fopen_Failed 4 = f32_of_nat 0 \<and>
   load_score_local Fopen_Failed 4 load_init \<le>
     load_score_local (Scanned 3 (F32 0x3F800000) (F32 0) (F32 0)) 4 load_init"
  using unreadable_load_wins [of Fopen_Failed "Scanned 3 (F32 0x3F800000) (F32 0) (F32 0)" "F32 0x3F800000" "F32 0" "F32 0"
      4 load_init load_init 4]
  by (simp add: f32_eval f32_nonneg_def f32_finite_def load_get_def)

end
