(* ===== verification/Dispatcher.thy ===== *)
theory Dispatcher
  imports Sockets Peer_List Load_Monitor
begin

text \<open>
  \<^verbatim>\<open>dispatcher.c\<close>: querying the peers, choosing a node, sending the task and printing what
  comes back. The state threaded through is the peer table, the kernel's descriptors, the
  datagrams sent and the lines printed. What the network answers comes from the environment.
\<close>

section \<open>State and environment\<close>

datatype out_item =
    Out_Load string u16 "f32 option"
  | Out_Load_Self string u16 f32
  | Out_Route_Self string u16
  | Out_Route_Peer string u16 f32
  | Out_Bytes "byte list"
  | Err_Fallback string u16
  | Err_Nowhere
  | Err_Send

record dstate =
  ds_peers :: peers
  ds_kern :: kern
  ds_sent :: "(sockaddr_in \<times> byte list) list"
  ds_out :: "out_item list"

definition print :: "out_item \<Rightarrow> dstate \<Rightarrow> dstate" where
  "print x s = s\<lparr>ds_out := ds_out s @ [x]\<rparr>"

text \<open>
  One query: which socket calls succeed, what \<^verbatim>\<open>select\<close> and \<^verbatim>\<open>recv\<close> return (\<open>None\<close> is
  the error \<open>-1\<close>) and the clock.
\<close>

record query_env =
  qe_sock :: sock_env
  qe_select :: int
  qe_recv :: "byte list option"
  qe_now :: int

section \<open>query_peer_load\<close>

text \<open>
  What the function stores in \<^verbatim>\<open>*out_info\<close>; on the failing paths nothing is stored, and the
  caller's variable keeps its indeterminate value, written \<open>None\<close>.
\<close>

record queried =
  q_ip :: string
  q_port :: u16
  q_load :: f32
  q_active :: u32
  q_total :: u32

definition NO_ANSWER :: f32 where "NO_ANSWER = f32_of_nat 1000000000"

definition QUERY_BUF :: nat where "QUERY_BUF = HDR_SIZE + LOAD_RESP_SIZE + 8"

definition load_req_packet :: "byte list" where
  "load_req_packet = mem_header (zero_header\<lparr>h_type := msg_code MSG_LOAD_REQ, h_payload_len := 0\<rparr>)"

definition query_peer_load ::
  "query_env \<Rightarrow> string \<Rightarrow> u16 \<Rightarrow> dstate \<Rightarrow> f32 \<times> queried option \<times> dstate" where
  "query_peer_load qe ip port s =
     (let (fd, k1) = make_udp_broadcast_socket (qe_sock qe) 0 (ds_kern s); s1 = s\<lparr>ds_kern := k1\<rparr> in
      if fd < 0 then (NO_ANSWER, None, s1)
      else
        let dst = \<lparr>sin_port = htons DISCOVERY_PORT,
                   sin_addr = (case inet_pton ip of Some a \<Rightarrow> a | None \<Rightarrow> 0)\<rparr>;
            s2 = s1\<lparr>ds_sent := ds_sent s1 @ [(dst, load_req_packet)]\<rparr>;
            s3 = s2\<lparr>ds_kern := sys_close fd (ds_kern s2)\<rparr> in
        if qe_select qe \<le> 0 then (NO_ANSWER, None, s3)
        else case qe_recv qe of
          None \<Rightarrow> (NO_ANSWER, None, s3)
        | Some data \<Rightarrow>
            let buf = take QUERY_BUF data in
            if length buf < HDR_SIZE + LOAD_RESP_SIZE then (NO_ANSWER, None, s3)
            else if h_type (rd_header buf) \<noteq> msg_code MSG_LOAD_RESP then (NO_ANSWER, None, s3)
            else
              let resp = rd_load_resp (drop HDR_SIZE buf);
                  s4 = s3\<lparr>ds_peers := peer_list_update_load (qe_now qe) (ds_peers s3) ip resp\<rparr>;
                  f = F32 (ntohl (lr_load_pct resp));
                  info = \<lparr>q_ip = ip, q_port = port, q_load = f,
                          q_active = ntohl (lr_active_tasks resp), q_total = ntohl (lr_total_tasks resp)\<rparr> in
              (load_score f (q_active info), Some info, s4))"

section \<open>send_task_file and receive_output\<close>

definition task_payload :: "task_t \<Rightarrow> byte list" where
  "task_payload task =
     (let fn_len = word_of_nat (length (t_filename task)) :: u16 in
      mem16 (htons fn_len) @ take (unat fn_len) (bytes_of (t_filename task)) @
      mem32 (htonl (t_file_size task)) @ take (unat (t_file_size task)) (t_file_data task))"

definition send_task_file :: "(nat \<Rightarrow> bool) \<Rightarrow> conn \<Rightarrow> task_t \<Rightarrow> (int \<times> conn) option" where
  "send_task_file malloc_ok c task =
     (let fn_len = word_of_nat (length (t_filename task)) :: u16;
          total = 2 + ucast fn_len + 4 + t_file_size task in
      if \<not> malloc_ok (unat total) then Some (-1, c)
      else send_msg c MSG_TASK_FILE (Some (task_payload task)) total)"

text \<open>The loop ends with the message that carries the exit code, or with an error of the stream.\<close>

function receive_output ::
  "(nat \<Rightarrow> bool) \<Rightarrow> conn \<Rightarrow> byte list \<Rightarrow> (int \<times> byte list \<times> conn) option" where
  "receive_output malloc_ok c out =
     (case recv_msg malloc_ok c of
        None \<Rightarrow> None
      | Some (None, c') \<Rightarrow> Some (-1, out, c')
      | Some (Some m, c') \<Rightarrow>
          let payload = (case rm_payload m of Some p \<Rightarrow> p | None \<Rightarrow> []); plen = rm_len m in
          if rm_type m = msg_code MSG_OUTPUT then
            receive_output malloc_ok c' (out @ take (unat plen) payload)
          else if rm_type m = msg_code MSG_TASK_DONE then
            Some (if 4 \<le> plen then sint (ntohl (rd32 payload)) else 0, out, c')
          else receive_output malloc_ok c' out)"
  by pat_completeness auto
termination
  by (relation "measure (\<lambda>(m, c, out). rx_weight (rx c))") (auto dest: recv_msg_weight)

declare receive_output.simps [simp del]

section \<open>dispatch\<close>

record best =
  b_score :: f32
  b_ip :: string
  b_port :: "u16 option"

definition best_init :: best where
  "best_init = \<lparr>b_score = f32_of_nat 10000000000, b_ip = [], b_port = Some 0\<rparr>"

text \<open>
  The query loop over the copied peers. The port of the best peer is copied from the query's
  result, so it is indeterminate when a failed query wins.
\<close>

fun query_loop :: "(nat \<Rightarrow> query_env) \<Rightarrow> nat \<Rightarrow> peers \<Rightarrow> best \<Rightarrow> dstate \<Rightarrow> best \<times> dstate" where
  "query_loop qs i [] b s = (b, s)"
| "query_loop qs i (p # ps) b s =
     (let (score, result, s1) = query_peer_load (qs i) (p_ip p) (p_port p) s;
          s2 = print (Out_Load (p_ip p) (p_port p) (map_option q_load result)) s1;
          b1 = (if score < b_score b
                then \<lparr>b_score = score, b_ip = take INET_ADDRSTRLEN (p_ip p), b_port = map_option q_port result\<rparr>
                else b)
      in query_loop qs (Suc i) ps b1 s2)"

text \<open>
  The environment of a dispatch: the queries, the two readings of the load, the task counters, the
  two connection attempts, the connection each address gives, the allocator, and the value that an
  indeterminate port would have.
\<close>

record disp_env =
  de_query :: "nat \<Rightarrow> query_env"
  de_load1 :: loadavg
  de_load2 :: loadavg
  de_ncores :: int
  de_tasks :: load_state
  de_connect1 :: sock_env
  de_connect2 :: sock_env
  de_conn :: "string \<Rightarrow> u16 \<Rightarrow> conn"
  de_malloc :: "nat \<Rightarrow> bool"
  de_garbage :: u16

definition choose_target ::
  "disp_env \<Rightarrow> string \<Rightarrow> u16 \<Rightarrow> dstate \<Rightarrow> bool \<times> string \<times> u16 \<times> dstate" where
  "choose_target e local_ip own_port s =
     (let peers = peer_list_get_all (ds_peers s) MAX_PEERS;
          (b, s1) = query_loop (de_query e) 0 peers best_init s;
          self_score = load_score_local (de_load1 e) (de_ncores e) (de_tasks e);
          s2 = print (Out_Load_Self local_ip own_port (load_get_percentage (de_load2 e) (de_ncores e))) s1;
          best_port = (case b_port b of Some p \<Rightarrow> p | None \<Rightarrow> de_garbage e) in
      if length peers = 0 \<or> self_score \<le> b_score b
      then (True, local_ip, own_port, print (Out_Route_Self local_ip own_port) s2)
      else (False, b_ip b, best_port, print (Out_Route_Peer (b_ip b) best_port (b_score b)) s2))"

definition connect_target ::
  "disp_env \<Rightarrow> string \<Rightarrow> u16 \<Rightarrow> bool \<Rightarrow> string \<Rightarrow> u16 \<Rightarrow> dstate \<Rightarrow> int \<times> string \<times> u16 \<times> dstate" where
  "connect_target e local_ip own_port use_local ip port s =
     (let (fd, k1) = tcp_connect (de_connect1 e) ip port (ds_kern s); s1 = s\<lparr>ds_kern := k1\<rparr> in
      if 0 \<le> fd then (fd, ip, port, s1)
      else if \<not> use_local then
        (let s2 = print (Err_Fallback ip port) s1;
             (fd2, k2) = tcp_connect (de_connect2 e) local_ip own_port (ds_kern s2);
             s3 = s2\<lparr>ds_kern := k2\<rparr> in
         if fd2 < 0 then (-1, local_ip, own_port, print Err_Nowhere s3)
         else (fd2, local_ip, own_port, s3))
      else (-1, ip, port, print Err_Nowhere s1))"

definition close_fd :: "int \<Rightarrow> dstate \<Rightarrow> dstate" where
  "close_fd fd s = s\<lparr>ds_kern := sys_close fd (ds_kern s)\<rparr>"

definition dispatch ::
  "disp_env \<Rightarrow> task_t \<Rightarrow> string \<Rightarrow> u16 \<Rightarrow> dstate \<Rightarrow> (int \<times> dstate) option" where
  "dispatch e task local_ip own_port s =
     (let (use_local, ip, port, s1) = choose_target e local_ip own_port s;
          (fd, ip', port', s2) = connect_target e local_ip own_port use_local ip port s1 in
      if fd < 0 then Some (-1, s2)
      else
        do { (send_ret, c1) \<leftarrow> send_task_file (de_malloc e) (de_conn e ip' port') task;
             if send_ret < 0 then Some (-1, close_fd fd (print Err_Send s2))
             else
               do { (exit_code, out, c2) \<leftarrow> receive_output (de_malloc e) c1 [];
                    Some (exit_code, close_fd fd (print (Out_Bytes out) s2)) } })"

section \<open>Output received as frames\<close>

definition chunk_ok :: "(nat \<Rightarrow> bool) \<Rightarrow> byte list \<Rightarrow> bool" where
  "chunk_ok malloc_ok p \<longleftrightarrow> length p \<le> RECV_LIMIT \<and> (p \<noteq> [] \<longrightarrow> malloc_ok (length p + 1))"

lemma receive_output_chunk:
  assumes "stream c = frame MSG_OUTPUT p @ rest" "chunk_ok malloc_ok p"
  obtains c' where "receive_output malloc_ok c out = receive_output malloc_ok c' (out @ p)"
    "stream c' = rest" "closed c' = closed c"
proof -
  from assms recv_msg_frame [of c MSG_OUTPUT p rest malloc_ok] obtain c' where
    *: "recv_msg malloc_ok c = Some (Some (got_frame MSG_OUTPUT p), c')" "stream c' = rest" "closed c' = closed c"
    by (auto simp: chunk_ok_def)
  have "unat (word_of_nat (length p) :: u32) = length p"
    using assms(2) by (intro unat_of_nat_u32 RECV_LIMIT_lt) (simp add: chunk_ok_def)
  then have "receive_output malloc_ok c out = receive_output malloc_ok c' (out @ p)"
    using * by (cases "p = []") (simp_all add: receive_output.simps [of malloc_ok c] got_frame_def)
  then show ?thesis using * that by blast
qed

lemma receive_output_done:
  assumes "stream c = frame MSG_TASK_DONE (done_payload ec) @ rest" "malloc_ok 5"
  obtains c' where "receive_output malloc_ok c out = Some (sint ec, out, c')" "stream c' = rest"
proof -
  from assms recv_msg_frame [of c MSG_TASK_DONE "done_payload ec" rest malloc_ok] obtain c' where
    *: "recv_msg malloc_ok c = Some (Some (got_frame MSG_TASK_DONE (done_payload ec)), c')" "stream c' = rest"
    by (auto simp: RECV_LIMIT_def limit_defs)
  then have "receive_output malloc_ok c out = Some (sint ec, out, c')"
    by (simp add: receive_output.simps [of malloc_ok c] got_frame_def)
  then show ?thesis using * that by blast
qed

lemma receive_output_frames:
  "stream c = concat (map (frame MSG_OUTPUT) chunks) @ frame MSG_TASK_DONE (done_payload ec) @ rest \<Longrightarrow>
   list_all (chunk_ok malloc_ok) chunks \<Longrightarrow> malloc_ok 5 \<Longrightarrow>
   \<exists>c'. receive_output malloc_ok c out = Some (sint ec, out @ concat chunks, c') \<and> stream c' = rest"
proof (induction chunks arbitrary: c out)
  case Nil
  then show ?case using receive_output_done [of c ec rest malloc_ok out] by auto
next
  case (Cons p ps)
  from Cons.prems receive_output_chunk [of c p _ malloc_ok out] obtain c' where
    *: "receive_output malloc_ok c out = receive_output malloc_ok c' (out @ p)"
      "stream c' = concat (map (frame MSG_OUTPUT) ps) @ frame MSG_TASK_DONE (done_payload ec) @ rest"
    by auto
  from Cons.IH [where out = "out @ p", OF this(2)] Cons.prems * show ?case by auto
qed

text \<open>A worker that vanishes in the middle of a frame: the complete chunks are printed, the result is \<open>-1\<close>.\<close>

lemma receive_output_cut:
  "stream c = concat (map (frame MSG_OUTPUT) chunks) @ take n (frame ty p) \<Longrightarrow> n < length (frame ty p) \<Longrightarrow>
   length p < 2 ^ 32 \<Longrightarrow> closed c \<Longrightarrow> list_all (chunk_ok malloc_ok) chunks \<Longrightarrow>
   \<exists>c'. receive_output malloc_ok c out = Some (-1, out @ concat chunks, c')"
proof (induction chunks arbitrary: c out)
  case Nil
  then have "msg_spec malloc_ok (stream c) (closed c) = Msg_Fails" using msg_spec_cut [of n ty p malloc_ok] by simp
  then show ?case using recv_msg_spec [of malloc_ok c]
    by (cases "recv_msg malloc_ok c") (auto simp: receive_output.simps [of malloc_ok c] split: option.splits)
next
  case (Cons q qs)
  from Cons.prems receive_output_chunk [of c q _ malloc_ok out] obtain c' where
    *: "receive_output malloc_ok c out = receive_output malloc_ok c' (out @ q)"
      "stream c' = concat (map (frame MSG_OUTPUT) qs) @ take n (frame ty p)" "closed c' = closed c"
    by auto
  from Cons.IH [where out = "out @ q", OF this(2)] Cons.prems * show ?case by auto
qed

text \<open>Every point at which the stream can be cut lies in one of the frames.\<close>

abbreviation output_frames :: "byte list list \<Rightarrow> byte list" where
  "output_frames chunks \<equiv> concat (map (frame MSG_OUTPUT) chunks)"

lemma cut_point:
  assumes "n < length (output_frames chunks @ frame ty p)"
  obtains k m ty' q where "k \<le> length chunks" "length (output_frames (take k chunks)) \<le> n"
    "k < length chunks \<Longrightarrow> n < length (output_frames (take (Suc k) chunks))"
    "take n (output_frames chunks @ frame ty p) = output_frames (take k chunks) @ take m (frame ty' q)"
    "m < length (frame ty' q)" "q = p \<or> q \<in> set chunks"
  using assms
proof (induction chunks arbitrary: n thesis)
  case Nil
  show ?case by (rule Nil.prems(1) [of 0 n ty p]) (use Nil.prems(2) in simp_all)
next
  case (Cons x xs)
  let ?f = "frame MSG_OUTPUT x"
  show ?case
  proof (cases "n < length ?f")
    case True
    then show ?thesis by (intro Cons.prems(1) [of 0 n MSG_OUTPUT x]) simp_all
  next
    case False
    then have "n - length ?f < length (output_frames xs @ frame ty p)" using Cons.prems(2) by simp
    then obtain k m ty' q where k: "k \<le> length xs" "length (output_frames (take k xs)) \<le> n - length ?f"
      "k < length xs \<Longrightarrow> n - length ?f < length (output_frames (take (Suc k) xs))"
      "take (n - length ?f) (output_frames xs @ frame ty p) = output_frames (take k xs) @ take m (frame ty' q)"
      "m < length (frame ty' q)" "q = p \<or> q \<in> set xs" using Cons.IH by metis
    have "take n (output_frames (x # xs) @ frame ty p) = output_frames (take (Suc k) (x # xs)) @ take m (frame ty' q)"
      using False k(4) by (simp del: length_frame)
    moreover have "length (output_frames (take (Suc k) (x # xs))) \<le> n" using False k(2) by simp
    moreover have "n < length (output_frames (take (Suc (Suc k)) (x # xs)))" if "Suc k < length (x # xs)"
      using False k(3) that by simp
    ultimately show ?thesis using k(1,5,6) by (intro Cons.prems(1) [of "Suc k" m ty' q]) (auto simp del: length_frame take_Suc_Cons)
  qed
qed

section \<open>Queries\<close>

text \<open>What a query answers does not depend on the state, and it leaks no descriptor.\<close>

definition answer :: "query_env \<Rightarrow> string \<Rightarrow> u16 \<Rightarrow> f32 \<times> queried option" where
  "answer qe ip port =
     (if \<not> se_socket (qe_sock qe) \<or> qe_select qe \<le> 0 then (NO_ANSWER, None)
      else case qe_recv qe of
        None \<Rightarrow> (NO_ANSWER, None)
      | Some data \<Rightarrow>
          let buf = take QUERY_BUF data; resp = rd_load_resp (drop HDR_SIZE buf);
              f = F32 (ntohl (lr_load_pct resp)); active = ntohl (lr_active_tasks resp) in
          if length buf < HDR_SIZE + LOAD_RESP_SIZE \<or> h_type (rd_header buf) \<noteq> msg_code MSG_LOAD_RESP
          then (NO_ANSWER, None)
          else (load_score f active, Some \<lparr>q_ip = ip, q_port = port, q_load = f, q_active = active,
                                            q_total = ntohl (lr_total_tasks resp)\<rparr>))"

lemma udp_0: "make_udp_broadcast_socket e 0 k = sys_socket e k"
  by (auto simp: make_udp_broadcast_socket_def sys_socket_def Let_def)

lemma query_answer:
  "query_peer_load qe ip port s = (score, res, s') \<Longrightarrow> answer qe ip port = (score, res)"
  by (auto simp: query_peer_load_def answer_def udp_0 sys_socket_def Let_def split: option.splits if_splits)

lemma query_state:
  assumes "query_peer_load qe ip port s = (score, res, s')"
  shows "kern_ok (ds_kern s) \<Longrightarrow> ds_kern s' = ds_kern s"
    "ds_peers s' = ds_peers s \<or> (\<exists>r. ds_peers s' = peer_list_update_load (qe_now qe) (ds_peers s) ip r)"
    "ds_out s' = ds_out s"
  using assms close_fresh(1) [of "ds_kern s"]
  by (auto simp: query_peer_load_def udp_0 sys_socket_def Let_def split: option.splits if_splits)

lemma print_sel [simp]: "ds_kern (print x s) = ds_kern s" "ds_peers (print x s) = ds_peers s"
    "ds_sent (print x s) = ds_sent s" "ds_out (print x s) = ds_out s @ [x]"
  by (simp_all add: print_def)

fun best_loop :: "(nat \<Rightarrow> query_env) \<Rightarrow> nat \<Rightarrow> peers \<Rightarrow> best \<Rightarrow> best" where
  "best_loop qs i [] b = b"
| "best_loop qs i (p # ps) b =
     (let (score, res) = answer (qs i) (p_ip p) (p_port p) in
      best_loop qs (Suc i) ps
        (if score < b_score b
         then \<lparr>b_score = score, b_ip = take INET_ADDRSTRLEN (p_ip p), b_port = map_option q_port res\<rparr>
         else b))"

lemma query_loop_best: "fst (query_loop qs i ps b s) = best_loop qs i ps b"
proof (induction ps arbitrary: i b s)
  case (Cons p ps)
  obtain score res s1 where q: "query_peer_load (qs i) (p_ip p) (p_port p) s = (score, res, s1)"
    by (cases "query_peer_load (qs i) (p_ip p) (p_port p) s") auto
  then show ?case using Cons query_answer [OF q] by (simp add: Let_def)
qed simp

lemma query_loop_kern: "kern_ok (ds_kern s) \<Longrightarrow> ds_kern (snd (query_loop qs i ps b s)) = ds_kern s"
proof (induction ps arbitrary: i b s)
  case (Cons p ps)
  obtain score res s1 where q: "query_peer_load (qs i) (p_ip p) (p_port p) s = (score, res, s1)"
    by (cases "query_peer_load (qs i) (p_ip p) (p_port p) s") auto
  define s2 where "s2 = print (Out_Load (p_ip p) (p_port p) (map_option q_load res)) s1"
  have "ds_kern s2 = ds_kern s" using query_state(1) [OF q Cons.prems] by (simp add: s2_def)
  with Cons.IH [of s2] Cons.prems q show ?case by (simp add: Let_def flip: s2_def)
qed simp

lemma query_loop_peers:
  "peers_ok (ds_peers s) \<Longrightarrow> peers_ok (ds_peers (snd (query_loop qs i ps b s))) \<and>
     dom (lookup (ds_peers (snd (query_loop qs i ps b s)))) = dom (lookup (ds_peers s))"
proof (induction ps arbitrary: i b s)
  case (Cons p ps)
  obtain score res s1 where q: "query_peer_load (qs i) (p_ip p) (p_port p) s = (score, res, s1)"
    by (cases "query_peer_load (qs i) (p_ip p) (p_port p) s") auto
  define s2 where "s2 = print (Out_Load (p_ip p) (p_port p) (map_option q_load res)) s1"
  from query_state(2) [OF q]
  have "peers_ok (ds_peers s2) \<and> dom (lookup (ds_peers s2)) = dom (lookup (ds_peers s))"
    by (elim disjE exE) (simp_all add: s2_def reg.ok_update reg.update_dom Cons.prems)
  with Cons.IH [of s2] q show ?case by (simp add: Let_def flip: s2_def)
qed simp

section \<open>The choice\<close>

text \<open>
  The state of the search after some peers: the best entry is the initial one or comes from a
  queried peer, and no queried peer has a smaller score.
\<close>

definition peer_answer :: "(nat \<Rightarrow> query_env) \<Rightarrow> peers \<Rightarrow> nat \<Rightarrow> f32 \<times> queried option" where
  "peer_answer qs ps j = answer (qs j) (p_ip (ps ! j)) (p_port (ps ! j))"

definition best_from :: "(nat \<Rightarrow> query_env) \<Rightarrow> peers \<Rightarrow> nat \<Rightarrow> best" where
  "best_from qs ps j = \<lparr>b_score = fst (peer_answer qs ps j), b_ip = take INET_ADDRSTRLEN (p_ip (ps ! j)),
     b_port = map_option q_port (snd (peer_answer qs ps j))\<rparr>"

definition best_inv :: "(nat \<Rightarrow> query_env) \<Rightarrow> peers \<Rightarrow> nat \<Rightarrow> best \<Rightarrow> bool" where
  "best_inv qs ps n b \<longleftrightarrow>
     (\<forall>j < n. \<not> fst (peer_answer qs ps j) < b_score b) \<and>
     (b = best_init \<or> (\<exists>j < n. b = best_from qs ps j \<and> b_score b < b_score best_init))"

lemma best_inv_step:
  assumes "best_inv qs ps n b"
  shows "best_inv qs ps (Suc n) (if fst (peer_answer qs ps n) < b_score b then best_from qs ps n else b)"
proof (cases "fst (peer_answer qs ps n) < b_score b")
  case True
  let ?new = "fst (peer_answer qs ps n)"
  from assms have old: "\<not> fst (peer_answer qs ps j) < b_score b" if "j < n" for j
    using that by (simp add: best_inv_def)
  have "\<not> fst (peer_answer qs ps j) < ?new" if "j < Suc n" for j
  proof
    assume "fst (peer_answer qs ps j) < ?new"
    with True have "fst (peer_answer qs ps j) < b_score b" "j \<noteq> n" by (auto intro: f32_less_trans)
    with old [of j] that show False by simp
  qed
  moreover have "b = best_init \<or> b_score b < b_score best_init" using assms by (auto simp: best_inv_def)
  with True have "?new < b_score best_init" by (auto intro: f32_less_trans)
  ultimately show ?thesis using True by (auto simp: best_inv_def best_from_def)
next
  case False
  then show ?thesis using assms by (auto simp: best_inv_def less_Suc_eq)
qed

lemma best_loop_inv:
  "best_inv qs ps n b \<Longrightarrow> n \<le> length ps \<Longrightarrow> best_inv qs ps (length ps) (best_loop qs n (drop n ps) b)"
proof (induction "length ps - n" arbitrary: n b)
  case (Suc k)
  then have n: "n < length ps" by simp
  then have d: "drop n ps = ps ! n # drop (Suc n) ps" by (simp add: Cons_nth_drop_Suc)
  let ?b = "if fst (peer_answer qs ps n) < b_score b then best_from qs ps n else b"
  have "best_loop qs n (drop n ps) b = best_loop qs (Suc n) (drop (Suc n) ps) ?b"
    by (simp add: d peer_answer_def best_from_def split: prod.split)
  then show ?case using Suc.hyps(1) [of "Suc n" ?b] Suc.hyps(2) n best_inv_step [OF Suc.prems(1)] by simp
qed simp

lemma query_loop_inv:
  "best_inv qs ps (length ps) (fst (query_loop qs 0 ps best_init s))"
  using best_loop_inv [of qs ps 0 best_init] by (simp add: query_loop_best best_inv_def)

section \<open>A result always comes\<close>

lemma send_task_file_payload:
  assumes "t_file_size task = word_of_nat (length (t_file_data task))"
    and "length (t_filename task) < MAX_FILENAME_LEN" "length (t_file_data task) \<le> MAX_FILE_SIZE"
  shows "length (task_payload task) = 6 + length (t_filename task) + length (t_file_data task)"
    "send_task_file malloc_ok c task =
       (if malloc_ok (length (task_payload task))
        then send_msg c MSG_TASK_FILE (Some (task_payload task)) (word_of_nat (length (task_payload task)))
        else Some (-1, c))"
proof -
  let ?f = "length (t_filename task)" and ?d = "length (t_file_data task)"
  have b: "?f < 256" "?d \<le> 4194304" using assms by (simp_all add: limit_defs)
  then have fn: "unat (word_of_nat ?f :: u16) = ?f" by (simp add: unat_of_nat)
  have d: "unat (t_file_size task) = ?d" using b assms(1) by (simp add: unat_of_nat)
  show len: "length (task_payload task) = 6 + ?f + ?d"
    using fn d by (simp add: task_payload_def Let_def)
  have "ucast (word_of_nat ?f :: u16) = (word_of_nat (unat (word_of_nat ?f :: u16)) :: u32)" by simp
  then have uc: "ucast (word_of_nat ?f :: u16) = (word_of_nat ?f :: u32)" unfolding fn .
  have total: "2 + ucast (word_of_nat ?f :: u16) + 4 + t_file_size task = (word_of_nat (6 + ?f + ?d) :: u32)"
    using uc assms(1) by (simp add: algebra_simps)
  have un: "unat (word_of_nat (6 + ?f + ?d) :: u32) = 6 + ?f + ?d"
    using b by (intro unat_of_nat_u32) simp
  show "send_task_file malloc_ok c task =
       (if malloc_ok (length (task_payload task))
        then send_msg c MSG_TASK_FILE (Some (task_payload task)) (word_of_nat (length (task_payload task)))
        else Some (-1, c))"
    unfolding send_task_file_def Let_def total un len by (cases "malloc_ok (6 + ?f + ?d)") (simp_all only: if_True if_False not_True_eq_False not_False_eq_True)
qed

lemma recv_msg_closed:
  assumes "closed c"
  obtains m c' where "recv_msg malloc_ok c = Some (m, c')" "m \<noteq> None \<Longrightarrow> closed c'"
proof (cases "recv_msg malloc_ok c")
  case None
  then show ?thesis using recv_msg_spec [of malloc_ok c] assms
    by (auto simp: msg_spec_def Let_def split: if_splits)
next
  case (Some x)
  obtain m c' where x: "x = (m, c')" by (cases x)
  show ?thesis
  proof (rule that [of m c'])
    show "recv_msg malloc_ok c = Some (m, c')" using Some x by simp
    show "m \<noteq> None \<Longrightarrow> closed c'" using recv_msg_spec [of malloc_ok c] Some x assms by auto
  qed
qed

lemma receive_output_closed:
  "closed c \<Longrightarrow> \<exists>r. receive_output malloc_ok c out = Some r"
proof (induction malloc_ok c out rule: receive_output.induct)
  case (1 malloc_ok c out)
  from recv_msg_closed [OF 1(3), of malloc_ok] obtain m c' where
    m: "recv_msg malloc_ok c = Some (m, c')" "m \<noteq> None \<Longrightarrow> closed c'" by blast
  show ?case
  proof (cases m)
    case None
    then show ?thesis using m by (simp add: receive_output.simps [of malloc_ok c])
  next
    case (Some q)
    then have cl: "closed c'" and r: "recv_msg malloc_ok c = Some (Some q, c')" using m by auto
    show ?thesis
      using 1(1) [OF r refl refl refl refl _ cl] 1(2) [OF r refl refl refl refl _ _ cl] r
      by (auto simp: receive_output.simps [of malloc_ok c] Let_def)
  qed
qed

section \<open>Descriptors and the table across a dispatch\<close>

lemma tcp_connect_close:
  assumes "kern_ok k" "tcp_connect e ip port k = (fd, k1)"
  shows "fd < 0 \<Longrightarrow> k1 = k" "0 \<le> fd \<Longrightarrow> sys_close fd k1 = k"
  using assms close_fresh(1) [of k]
  by (auto simp: tcp_connect_def sys_socket_def Let_def split: option.splits if_splits)

lemma choose_target_state:
  assumes "choose_target e local_ip own_port s = (use_local, ip, port, s')"
  shows "kern_ok (ds_kern s) \<Longrightarrow> ds_kern s' = ds_kern s"
    "peers_ok (ds_peers s) \<Longrightarrow> peers_ok (ds_peers s') \<and> dom (lookup (ds_peers s')) = dom (lookup (ds_peers s))"
proof -
  let ?q = "snd (query_loop (de_query e) 0 (peer_list_get_all (ds_peers s) MAX_PEERS) best_init s)"
  have "ds_kern s' = ds_kern ?q" "ds_peers s' = ds_peers ?q"
    using assms by (auto simp: choose_target_def Let_def split: prod.splits if_splits)
  then show "kern_ok (ds_kern s) \<Longrightarrow> ds_kern s' = ds_kern s"
    "peers_ok (ds_peers s) \<Longrightarrow> peers_ok (ds_peers s') \<and> dom (lookup (ds_peers s')) = dom (lookup (ds_peers s))"
    by (simp_all add: query_loop_kern query_loop_peers)
qed

lemma connect_target_state:
  assumes "connect_target e local_ip own_port use_local ip port s = (fd, ip', port', s')"
  shows "ds_peers s' = ds_peers s"
    "kern_ok (ds_kern s) \<Longrightarrow> (if fd < 0 then ds_kern s' = ds_kern s else sys_close fd (ds_kern s') = ds_kern s)"
proof -
  obtain fd1 k1 where c1: "tcp_connect (de_connect1 e) ip port (ds_kern s) = (fd1, k1)" by fastforce
  obtain fd2 k2 where c2: "tcp_connect (de_connect2 e) local_ip own_port k1 = (fd2, k2)" by fastforce
  show "ds_peers s' = ds_peers s"
    using assms c1 c2 by (auto simp: connect_target_def Let_def split: if_splits)
  assume ok: "kern_ok (ds_kern s)"
  note t1 = tcp_connect_close [OF ok c1]
  show "if fd < 0 then ds_kern s' = ds_kern s else sys_close fd (ds_kern s') = ds_kern s"
  proof (cases "0 \<le> fd1")
    case True
    then show ?thesis using assms c1 t1 by (auto simp: connect_target_def Let_def)
  next
    case False
    then have k: "k1 = ds_kern s" using t1 by simp
    note t2 = tcp_connect_close [OF ok c2 [unfolded k]]
    from False show ?thesis using assms c1 c2 t2 k
      by (auto simp: connect_target_def Let_def split: if_splits)
  qed
qed

lemma dispatch_state:
  assumes "dispatch e task local_ip own_port s = Some (rc, s')"
  shows "kern_ok (ds_kern s) \<Longrightarrow> ds_kern s' = ds_kern s"
    "peers_ok (ds_peers s) \<Longrightarrow> peers_ok (ds_peers s') \<and> dom (lookup (ds_peers s')) = dom (lookup (ds_peers s))"
proof -
  obtain use_local ip port s1 where c: "choose_target e local_ip own_port s = (use_local, ip, port, s1)"
    by (metis prod_cases4)
  obtain fd ip' port' s2 where t: "connect_target e local_ip own_port use_local ip port s1 = (fd, ip', port', s2)"
    by (metis prod_cases4)
  note cs = choose_target_state [OF c] and ts = connect_target_state [OF t]
  have r: "ds_peers s' = ds_peers s2" "ds_kern s' = (if fd < 0 then ds_kern s2 else sys_close fd (ds_kern s2))"
    using assms c t
    by (auto simp: dispatch_def Let_def close_fd_def bind_eq_Some_conv split: if_splits)
  show "kern_ok (ds_kern s) \<Longrightarrow> ds_kern s' = ds_kern s" using r cs(1) ts(2) by (auto split: if_splits)
  show "peers_ok (ds_peers s) \<Longrightarrow> peers_ok (ds_peers s') \<and> dom (lookup (ds_peers s')) = dom (lookup (ds_peers s))"
    using r cs(2) ts(1) by simp
qed

section \<open>The target\<close>

lemma choose_target_cases:
  assumes "choose_target e local_ip own_port s = (use_local, ip, port, s')"
  obtains b where "best_inv (de_query e) (peer_list_get_all (ds_peers s) MAX_PEERS)
      (length (peer_list_get_all (ds_peers s) MAX_PEERS)) b"
    "use_local \<longleftrightarrow> peer_list_get_all (ds_peers s) MAX_PEERS = [] \<or>
        load_score_local (de_load1 e) (de_ncores e) (de_tasks e) \<le> b_score b"
    "use_local \<Longrightarrow> ip = local_ip \<and> port = own_port"
    "\<not> use_local \<Longrightarrow> ip = b_ip b \<and> port = (case b_port b of Some p \<Rightarrow> p | None \<Rightarrow> de_garbage e)"
proof -
  define ps where "ps = peer_list_get_all (ds_peers s) MAX_PEERS"
  obtain b s1 where q: "query_loop (de_query e) 0 ps best_init s = (b, s1)" by fastforce
  have "best_inv (de_query e) ps (length ps) b" using query_loop_inv [of "de_query e" ps s] q by simp
  then show ?thesis
    using assms q
    by (intro that [of b]) (auto simp: choose_target_def Let_def ps_def [symmetric] split: if_splits)
qed

lemma self_score_small:
  assumes "f32_finite p" "p \<le> f32_of_nat 100" "a \<le> 2 ^ 26"
  shows "load_score p a \<le> NO_ANSWER"
proof -
  have "load_score p a \<le> load_score (f32_of_nat 100) (2 ^ 26)"
    using assms by (intro load_score_mono) (simp_all add: f32_nonnegD)
  also have "\<dots> \<le> NO_ANSWER" by (simp add: load_score_def NO_ANSWER_def f32_eval less_eq_f32_def)
  finally show ?thesis .
qed

lemma answered_score: "snd (answer qe ip port) = None \<Longrightarrow> fst (answer qe ip port) = NO_ANSWER"
  "snd (answer qe ip port) = Some q \<Longrightarrow> q_port q = port"
  by (auto simp: answer_def Let_def split: option.splits if_splits)

lemma known_ip: "peers_ok g \<Longrightarrow> p \<in> set (peer_list_get_all g MAX_PEERS) \<Longrightarrow>
    take INET_ADDRSTRLEN (p_ip p) = p_ip p \<and> lookup g (p_ip p) = Some p"
  using get_all_lookup [of g p] lookup_Some_iff [of g "p_ip p" p] by (auto simp: peers_ok_def)

text \<open>
  The own load counts as measured when it is at most 100 percent and at most \<open>2 ^ 26\<close> tasks run;
  then the own score beats a query without an answer.
\<close>

definition measured :: "disp_env \<Rightarrow> bool" where
  "measured e \<longleftrightarrow> load_score_local (de_load1 e) (de_ncores e) (de_tasks e) \<le> NO_ANSWER"

lemma own_measured:
  assumes "f32_finite (load_get_percentage (de_load1 e) (de_ncores e))"
    and "load_get_percentage (de_load1 e) (de_ncores e) \<le> f32_of_nat 100"
    and "load_get_active_tasks (de_tasks e) \<le> 2 ^ 26"
  shows "measured e"
  unfolding measured_def load_score_local_def using assms by (rule self_score_small)

lemma choose_remote:
  assumes "choose_target e local_ip own_port s = (False, ip, port, s')" "peers_ok (ds_peers s)" "measured e"
  obtains j q where "j < length (peer_list_get_all (ds_peers s) MAX_PEERS)"
    "snd (peer_answer (de_query e) (peer_list_get_all (ds_peers s) MAX_PEERS) j) = Some q"
    "lookup (ds_peers s) ip = Some (peer_list_get_all (ds_peers s) MAX_PEERS ! j)"
    "ip = p_ip (peer_list_get_all (ds_peers s) MAX_PEERS ! j)"
    "port = p_port (peer_list_get_all (ds_peers s) MAX_PEERS ! j)"
    "\<not> load_score_local (de_load1 e) (de_ncores e) (de_tasks e) \<le>
       fst (peer_answer (de_query e) (peer_list_get_all (ds_peers s) MAX_PEERS) j)"
    "\<And>k. k < length (peer_list_get_all (ds_peers s) MAX_PEERS) \<Longrightarrow>
       \<not> fst (peer_answer (de_query e) (peer_list_get_all (ds_peers s) MAX_PEERS) k) <
         fst (peer_answer (de_query e) (peer_list_get_all (ds_peers s) MAX_PEERS) j)"
proof -
  define ps where "ps = peer_list_get_all (ds_peers s) MAX_PEERS"
  define self where "self = load_score_local (de_load1 e) (de_ncores e) (de_tasks e)"
  have small: "self \<le> NO_ANSWER" using assms(3) by (simp add: measured_def self_def)
  from choose_target_cases [OF assms(1)] obtain b where b: "best_inv (de_query e) ps (length ps) b"
    "\<not> self \<le> b_score b" "ip = b_ip b" "port = (case b_port b of Some p \<Rightarrow> p | None \<Rightarrow> de_garbage e)"
    unfolding ps_def self_def by auto
  have "NO_ANSWER \<le> b_score best_init"
    by (simp add: NO_ANSWER_def best_init_def f32_of_nat_mono)
  with small b(2) have "b \<noteq> best_init" using f32_le_trans by blast
  with b(1) obtain j where j: "j < length ps" "b = best_from (de_query e) ps j" by (auto simp: best_inv_def)
  let ?a = "peer_answer (de_query e) ps j"
  have score: "b_score b = fst ?a" by (simp add: j best_from_def)
  have "snd ?a \<noteq> None"
  proof
    assume "snd ?a = None"
    then have "b_score b = NO_ANSWER" using answered_score(1) by (simp add: score peer_answer_def)
    with small b(2) show False by simp
  qed
  then obtain q where q: "snd ?a = Some q" by blast
  then have "port = p_port (ps ! j)"
    using b(4) j answered_score(2) by (simp add: best_from_def peer_answer_def)
  moreover have "ip = p_ip (ps ! j)" "lookup (ds_peers s) ip = Some (ps ! j)"
    using b(3) j known_ip [OF assms(2), of "ps ! j"] nth_mem [of j ps] by (simp_all add: best_from_def ps_def)
  moreover have "\<not> fst (peer_answer (de_query e) ps k) < fst ?a" if "k < length ps" for k
    using b(1) that by (simp add: best_inv_def score)
  ultimately show ?thesis
    using that [of j q] j(1) q b(2) unfolding ps_def self_def score [unfolded ps_def] by blast
qed

lemma keep_local:
  assumes "choose_target e local_ip own_port s = (True, ip, port, s')"
  shows "ip = local_ip \<and> port = own_port \<and> (\<forall>j < length (peer_list_get_all (ds_peers s) MAX_PEERS).
    \<not> fst (peer_answer (de_query e) (peer_list_get_all (ds_peers s) MAX_PEERS) j) <
      load_score_local (de_load1 e) (de_ncores e) (de_tasks e))"
proof -
  define ps where "ps = peer_list_get_all (ds_peers s) MAX_PEERS"
  define self where "self = load_score_local (de_load1 e) (de_ncores e) (de_tasks e)"
  from choose_target_cases [OF assms] obtain b where b: "best_inv (de_query e) ps (length ps) b"
    "ps = [] \<or> self \<le> b_score b" "ip = local_ip \<and> port = own_port"
    unfolding ps_def self_def by blast
  have "\<not> fst (peer_answer (de_query e) ps j) < self" if "j < length ps" for j
    using b that f32_less_le_trans [of "fst (peer_answer (de_query e) ps j)" self "b_score b"]
    by (auto simp: best_inv_def)
  then show ?thesis using b(3) unfolding ps_def self_def by blast
qed

section \<open>An example network\<close>

text \<open>One peer at 10.0.0.2 that reports 10 percent and no task; the node itself is at 100 percent.\<close>

definition all_ok :: sock_env where
  "all_ok = \<lparr>se_socket = True, se_bind = (\<lambda>_. True), se_listen = True, se_connect = (\<lambda>_. True)\<rparr>"

definition no_route :: sock_env where
  "no_route = all_ok\<lparr>se_connect := (\<lambda>_. False)\<rparr>"

definition demo_resp :: "byte list" where
  "demo_resp = mem_header (zero_header\<lparr>h_type := msg_code MSG_LOAD_RESP\<rparr>) @
     mem_load_resp \<lparr>lr_load_pct = htonl 0x41200000, lr_active_tasks = 0, lr_total_tasks = htonl 3,
       lr_num_cores = htonl 4\<rparr>"

definition demo_query :: query_env where
  "demo_query = \<lparr>qe_sock = all_ok, qe_select = 1, qe_recv = Some demo_resp, qe_now = 9\<rparr>"

definition demo_reply :: "byte list" where
  "demo_reply = frame MSG_OUTPUT [72, 105] @ frame MSG_TASK_DONE (done_payload 3)"

definition demo_env :: disp_env where
  "demo_env = \<lparr>de_query = (\<lambda>_. demo_query), de_load1 = Scanned 3 (F32 0x3F800000) (F32 0) (F32 0),
     de_load2 = Scanned 3 (F32 0x3F800000) (F32 0) (F32 0), de_ncores = 1, de_tasks = load_init,
     de_connect1 = all_ok, de_connect2 = all_ok,
     de_conn = (\<lambda>_ _. \<lparr>rx = [RxData demo_reply, RxEof], tx = replicate 40 (TxTake 9), outp = []\<rparr>),
     de_malloc = (\<lambda>_. True), de_garbage = 0\<rparr>"

definition demo_state :: dstate where
  "demo_state = \<lparr>ds_peers = peer_list_add 5 peer_list_init ''10.0.0.2'' 7777,
     ds_kern = \<lparr>k_fds = [2, 1, 0], k_bound = [], k_listening = []\<rparr>, ds_sent = [], ds_out = []\<rparr>"

definition demo_task :: task_t where
  "demo_task = \<lparr>t_type = TASK_FILE, t_filename = ''a.c'', t_file_data = [109], t_file_size = 1\<rparr>"

lemma demo_peers: "peer_list_get_all (ds_peers demo_state) MAX_PEERS = [new_entry 5 ''10.0.0.2'' 7777]"
proof -
  let ?l = "peer_list_get_all (ds_peers demo_state) MAX_PEERS"
  have "p \<in> set ?l \<longleftrightarrow> p = new_entry 5 ''10.0.0.2'' 7777" for p
    using get_all_lookup [OF table_of_one(1), of p]
    by (auto simp: demo_state_def table_of_one(2) split: if_splits)
  then have "set ?l = {new_entry 5 ''10.0.0.2'' 7777}" by blast
  moreover have "distinct ?l"
    using get_all_distinct [OF table_of_one(1)] by (simp add: demo_state_def distinct_map)
  ultimately show ?thesis by (cases ?l; cases "tl ?l") auto
qed

lemma demo_answer: "peer_answer (\<lambda>_. demo_query) [new_entry 5 ''10.0.0.2'' 7777] 0 =
    (F32 0x41200000, Some \<lparr>q_ip = ''10.0.0.2'', q_port = 7777, q_load = F32 0x41200000, q_active = 0, q_total = 3\<rparr>)"
proof -
  have "take QUERY_BUF demo_resp = demo_resp" "length demo_resp = 24"
    "rd_header demo_resp = zero_header\<lparr>h_type := msg_code MSG_LOAD_RESP\<rparr>"
    by (simp_all add: demo_resp_def QUERY_BUF_def HDR_SIZE_def LOAD_RESP_SIZE_def)
  moreover have "rd_load_resp (drop HDR_SIZE demo_resp) = \<lparr>lr_load_pct = htonl 0x41200000, lr_active_tasks = 0,
      lr_total_tasks = htonl 3, lr_num_cores = htonl 4\<rparr>"
    using hdr.drop_enc rd_mem_load_resp [of _ "[]"] by (simp add: demo_resp_def)
  moreover have "load_score (F32 0x41200000) 0 = F32 0x41200000" by (simp add: load_score_def f32_eval)
  ultimately show ?thesis
    by (simp add: peer_answer_def answer_def demo_query_def all_ok_def HDR_SIZE_def LOAD_RESP_SIZE_def Let_def)
qed

lemma demo_floats: "F32 0x41200000 < f32_of_nat 100" "F32 0x41200000 < f32_of_nat 10000000000"
    "F32 0x3F800000 / f32_of_nat (Suc 0) * f32_of_nat 100 = f32_of_nat 100" "\<not> f32_of_nat 100 < f32_of_nat 100"
    "f32_of_nat 100 + f32_of_nat 10 * f32_of_nat 0 = f32_of_nat 100"
  by (simp add: f32_eval less_f32_def, simp add: f32_eval less_f32_def, simp add: f32_eval, simp, simp add: f32_eval)

lemma demo_self: "load_score_local (de_load1 demo_env) (de_ncores demo_env) (de_tasks demo_env) = f32_of_nat 100"
  by (simp add: load_score_local_def load_get_percentage_def load_get_def load_get_core_count_def demo_env_def
      load_get_active_tasks_def load_init_def load_score_def demo_floats Let_def)

lemma demo_choice: "\<exists>s'. choose_target demo_env ''10.0.0.1'' 7777 demo_state = (False, ''10.0.0.2'', 7777, s')"
proof -
  obtain b s1 where q: "query_loop (de_query demo_env) 0 [new_entry 5 ''10.0.0.2'' 7777] best_init demo_state = (b, s1)"
    by fastforce
  have "b = best_loop (\<lambda>_. demo_query) 0 [new_entry 5 ''10.0.0.2'' 7777] best_init"
    using query_loop_best [of "de_query demo_env" 0 "[new_entry 5 ''10.0.0.2'' 7777]" best_init demo_state] q
    by (simp add: demo_env_def)
  also have "\<dots> = best_from (\<lambda>_. demo_query) [new_entry 5 ''10.0.0.2'' 7777] 0"
    using demo_answer demo_floats(2) by (simp add: best_from_def peer_answer_def best_init_def)
  finally have "b = \<lparr>b_score = F32 0x41200000, b_ip = ''10.0.0.2'', b_port = Some 7777\<rparr>"
    by (simp add: best_from_def demo_answer INET_ADDRSTRLEN_def)
  then show ?thesis using q demo_self f32_less_not_le [OF demo_floats(1)]
    by (simp add: choose_target_def demo_peers)
qed

lemma demo_ok: "peers_ok (ds_peers demo_state)" "kern_ok (ds_kern demo_state)"
  using table_of_one(1) by (simp_all add: demo_state_def kern_ok_def)

lemma demo_payload_length: "length (task_payload demo_task) = 10"
  using send_task_file_payload(1) [of demo_task] by (simp add: demo_task_def limit_defs)

lemma unreachable: "\<forall>a. \<not> se_connect e a \<Longrightarrow> fst (tcp_connect e ip port k) = -1"
  by (auto simp: tcp_connect_def sys_socket_def Let_def split: option.splits)

lemma dispatch_nowhere:
  assumes "\<forall>a. \<not> se_connect (de_connect1 e) a" "\<forall>a. \<not> se_connect (de_connect2 e) a"
  shows "\<exists>s'. dispatch e task local_ip own_port s = Some (-1, s')"
proof -
  obtain use_local ip port s1 where c: "choose_target e local_ip own_port s = (use_local, ip, port, s1)"
    by (metis prod_cases4)
  obtain fd ip' port' s2 where t: "connect_target e local_ip own_port use_local ip port s1 = (fd, ip', port', s2)"
    by (metis prod_cases4)
  obtain fd1 k1 where c1: "tcp_connect (de_connect1 e) ip port (ds_kern s1) = (fd1, k1)" by fastforce
  obtain fd2 k2 where c2: "tcp_connect (de_connect2 e) local_ip own_port k1 = (fd2, k2)" by fastforce
  have "fd1 = -1" "fd2 = -1"
    using unreachable [OF assms(1), of ip port "ds_kern s1"] unreachable [OF assms(2), of local_ip own_port k1] c1 c2
    by simp_all
  then have "fd = -1" using t c1 c2 by (auto simp: connect_target_def Let_def split: if_splits)
  then show ?thesis using c t by (simp add: dispatch_def)
qed

text \<open>A connection on which nothing ever arrives and that is never closed: the caller waits for ever.\<close>

lemma dispatch_waits:
  assumes "choose_target e local_ip own_port s = (use_local, ip, port, s1)"
    and "connect_target e local_ip own_port use_local ip port s1 = (fd, ip', port', s2)" "0 \<le> fd"
    and "stream (de_conn e ip' port') = []" "\<not> closed (de_conn e ip' port')"
    and "room_for (de_conn e ip' port') (8 + length (task_payload task))" "de_malloc e (length (task_payload task))"
    and "t_file_size task = word_of_nat (length (t_file_data task))"
    and "length (t_filename task) < MAX_FILENAME_LEN" "length (t_file_data task) \<le> MAX_FILE_SIZE"
  shows "dispatch e task local_ip own_port s = None"
proof -
  let ?c = "de_conn e ip' port'" and ?p = "task_payload task"
  note sp = send_task_file_payload [OF assms(8-10)]
  have "length ?p < 2 ^ 32" using sp(1) assms(9,10) by (simp add: limit_defs)
  moreover have "room_for ?c (length (frame MSG_TASK_FILE ?p) + 0)" using assms(6) by simp
  ultimately obtain c1 where c1: "send_msg ?c MSG_TASK_FILE (Some ?p) (word_of_nat (length ?p)) = Some (0, c1)"
    "rx c1 = rx ?c" using send_msg_room by blast
  then have "send_task_file (de_malloc e) ?c task = Some (0, c1)" by (simp add: sp(2) assms(7))
  moreover have "recv_msg (de_malloc e) c1 = None"
    using recv_all_short_open [of c1 HDR_SIZE] assms(4,5) c1(2) by (simp add: recv_msg_def HDR_SIZE_def)
  then have "receive_output (de_malloc e) c1 [] = None" by (simp add: receive_output.simps [of _ c1])
  ultimately show ?thesis using assms(1-3) by (simp add: dispatch_def)
qed

section \<open>Properties\<close>

text \<open>The dispatcher keeps the task when it knows no peer or when no queried
  peer scored below the node itself. Otherwise it takes a known peer whose score no other peer
  undercuts and the node's own score does not match. The remaining case, the empty address, needs an
  own score that is not a number or above 1e10.\<close>

theorem choice_optimal:
  assumes "choose_target e local_ip own_port s = (use_local, ip, port, s')" "peers_ok (ds_peers s)"
  shows "let ps = peer_list_get_all (ds_peers s) MAX_PEERS;
      score = (\<lambda>j. fst (peer_answer (de_query e) ps j));
      self = load_score_local (de_load1 e) (de_ncores e) (de_tasks e)
    in if use_local then ip = local_ip \<and> port = own_port \<and> (\<forall>j < length ps. \<not> score j < self)
       else (\<exists>j < length ps. lookup (ds_peers s) ip = Some (ps ! j) \<and> \<not> self \<le> score j \<and>
               (\<forall>k < length ps. \<not> score k < score j)) \<or>
            (ip = [] \<and> port = 0 \<and> \<not> self \<le> f32_of_nat 10000000000)"
proof -
  define ps where "ps = peer_list_get_all (ds_peers s) MAX_PEERS"
  define score where "score = (\<lambda>j. fst (peer_answer (de_query e) ps j))"
  define self where "self = load_score_local (de_load1 e) (de_ncores e) (de_tasks e)"
  have "if use_local then ip = local_ip \<and> port = own_port \<and> (\<forall>j < length ps. \<not> score j < self)
       else (\<exists>j < length ps. lookup (ds_peers s) ip = Some (ps ! j) \<and> \<not> self \<le> score j \<and>
               (\<forall>k < length ps. \<not> score k < score j)) \<or>
            (ip = [] \<and> port = 0 \<and> \<not> self \<le> f32_of_nat 10000000000)"
  proof (cases use_local)
    case True
    then show ?thesis
      using keep_local assms(1) unfolding ps_def self_def score_def by fastforce
  next
    case False
    from choose_target_cases [OF assms(1)] obtain b where b: "best_inv (de_query e) ps (length ps) b"
      "\<not> self \<le> b_score b" "ip = b_ip b" "port = (case b_port b of Some p \<Rightarrow> p | None \<Rightarrow> de_garbage e)"
      using False unfolding ps_def self_def by blast
    from b(1) consider "b = best_init" | j where "j < length ps" "b = best_from (de_query e) ps j"
      by (auto simp: best_inv_def)
    then show ?thesis
    proof cases
      case 1
      then show ?thesis using b False by (simp add: best_init_def)
    next
      case (2 j)
      then have "lookup (ds_peers s) ip = Some (ps ! j)"
        using b(3) known_ip [OF assms(2), of "ps ! j"] nth_mem [of j ps]
        by (simp add: best_from_def ps_def)
      then show ?thesis using 2 b False by (auto simp: best_from_def score_def best_inv_def)
    qed
  qed
  then show ?thesis unfolding ps_def self_def score_def Let_def .
qed

theorem choice_optimal_witness:
  "\<exists>s'. choose_target demo_env ''10.0.0.1'' 7777 demo_state = (False, ''10.0.0.2'', 7777, s') \<and>
     (\<exists>p. lookup (ds_peers demo_state) ''10.0.0.2'' = Some p) \<and>
     \<not> f32_of_nat 100 \<le> fst (peer_answer (\<lambda>_. demo_query) [new_entry 5 ''10.0.0.2'' 7777] 0)"
proof -
  obtain s' where c: "choose_target demo_env ''10.0.0.1'' 7777 demo_state = (False, ''10.0.0.2'', 7777, s')"
    using demo_choice by blast
  from choice_optimal [OF c demo_ok(1)] c show ?thesis
    by (simp add: demo_peers demo_self Let_def) (simp add: demo_env_def)
qed

text \<open>With a measured own load (at most 100 percent, fewer than
  \<open>2 ^ 26\<close> tasks) the task never goes to a peer that did not answer its query, and the port used
  is the one that peer announced: the indeterminate port of a failed query is never used.\<close>

theorem remote_target_answered:
  assumes "choose_target e local_ip own_port s = (False, ip, port, s')" "peers_ok (ds_peers s)"
    and "f32_finite (load_get_percentage (de_load1 e) (de_ncores e))"
    and "load_get_percentage (de_load1 e) (de_ncores e) \<le> f32_of_nat 100"
    and "load_get_active_tasks (de_tasks e) \<le> 2 ^ 26"
  shows "\<exists>j p. lookup (ds_peers s) ip = Some p \<and> port = p_port p \<and>
    p = peer_list_get_all (ds_peers s) MAX_PEERS ! j \<and>
    snd (peer_answer (de_query e) (peer_list_get_all (ds_peers s) MAX_PEERS) j) \<noteq> None"
  by (rule choose_remote [OF assms(1,2) own_measured [OF assms(3-5)]]) fastforce

theorem remote_target_answered_witness:
  "\<exists>j p. lookup (ds_peers demo_state) ''10.0.0.2'' = Some p \<and> 7777 = p_port p \<and>
     p = [new_entry 5 ''10.0.0.2'' 7777] ! j"
proof -
  obtain s' where c: "choose_target demo_env ''10.0.0.1'' 7777 demo_state = (False, ''10.0.0.2'', 7777, s')"
    using demo_choice by blast
  have p: "load_get_percentage (de_load1 demo_env) (de_ncores demo_env) = f32_of_nat 100"
    by (simp add: load_get_percentage_def load_get_def load_get_core_count_def demo_env_def demo_floats Let_def)
  have "f32_finite (f32_of_nat 100)" "f32_of_nat 100 \<le> f32_of_nat 100"
    using f32_of_nat_nonneg [of 100] by (simp_all add: f32_nonnegD f32_le_refl)
  then show ?thesis
    using remote_target_answered [OF c demo_ok(1)] unfolding p demo_peers
    by (fastforce simp: demo_env_def load_get_active_tasks_def load_init_def)
qed

text \<open>C31: on every path, with or without errors, \<^verbatim>\<open>dispatch\<close> closes every
  descriptor it opened, and it neither adds peers to the table nor removes any.\<close>

theorem dispatch_leak_free:
  assumes "dispatch e task local_ip own_port s = Some (rc, s')"
    and "kern_ok (ds_kern s)" "peers_ok (ds_peers s)"
  shows "ds_kern s' = ds_kern s \<and> peers_ok (ds_peers s') \<and>
    dom (lookup (ds_peers s')) = dom (lookup (ds_peers s))"
  using dispatch_state [OF assms(1)] assms(2,3) by simp

theorem dispatch_leak_free_witness:
  "\<exists>s'. dispatch (demo_env\<lparr>de_connect1 := no_route, de_connect2 := no_route\<rparr>) demo_task ''10.0.0.1'' 7777 demo_state =
      Some (-1, s') \<and> ds_kern s' = ds_kern demo_state \<and> peers_ok (ds_peers s')"
proof -
  have "\<exists>s'. dispatch (demo_env\<lparr>de_connect1 := no_route, de_connect2 := no_route\<rparr>) demo_task ''10.0.0.1'' 7777 demo_state =
      Some (-1, s')"
    by (rule dispatch_nowhere) (simp_all add: no_route_def all_ok_def)
  then show ?thesis using dispatch_leak_free [OF _ demo_ok(2,1)] by blast
qed

text \<open>C32: when the node that was dialled reads the task and in the end closes the
  connection, \<^verbatim>\<open>dispatch\<close> returns, whatever that node sends back.\<close>

theorem dispatch_returns:
  assumes "\<forall>ip port. closed (de_conn e ip port) \<and>
      room_for (de_conn e ip port) (8 + length (task_payload task))"
    and "t_file_size task = word_of_nat (length (t_file_data task))"
    and "length (t_filename task) < MAX_FILENAME_LEN" "length (t_file_data task) \<le> MAX_FILE_SIZE"
  shows "\<exists>rc s'. dispatch e task local_ip own_port s = Some (rc, s')"
proof -
  obtain use_local ip port s1 where c: "choose_target e local_ip own_port s = (use_local, ip, port, s1)"
    by (metis prod_cases4)
  obtain fd ip' port' s2 where t: "connect_target e local_ip own_port use_local ip port s1 = (fd, ip', port', s2)"
    by (metis prod_cases4)
  let ?c = "de_conn e ip' port'" and ?p = "task_payload task"
  note sp = send_task_file_payload [OF assms(2-4)]
  have "length ?p < 2 ^ 32" using sp(1) assms(3,4) by (simp add: limit_defs)
  moreover have "room_for ?c (length (frame MSG_TASK_FILE ?p) + 0)" using assms(1) by simp
  ultimately obtain c1 where "send_msg ?c MSG_TASK_FILE (Some ?p) (word_of_nat (length ?p)) = Some (0, c1)"
    "rx c1 = rx ?c" using send_msg_room by blast
  then obtain r c2 where s: "send_task_file (de_malloc e) ?c task = Some (r, c2)" "rx c2 = rx ?c"
    by (cases "de_malloc e (length ?p)") (auto simp: sp(2))
  then have "closed c2" using assms(1) by simp
  then obtain x where "receive_output (de_malloc e) c2 [] = Some x" using receive_output_closed by blast
  then show ?thesis using c t s by (cases x) (auto simp: dispatch_def)
qed

theorem dispatch_returns_witness:
  "\<exists>rc s'. dispatch demo_env demo_task ''10.0.0.1'' 7777 demo_state = Some (rc, s')"
proof (rule dispatch_returns)
  show "\<forall>ip port. closed (de_conn demo_env ip port) \<and>
      room_for (de_conn demo_env ip port) (8 + length (task_payload demo_task))"
    by (simp add: demo_payload_length)
      (simp add: demo_env_def room_for_def tx_ok_def tx_takes_def list_all_iff)
qed (simp_all add: demo_task_def limit_defs)

text \<open>When the chosen peer cannot be connected, the task goes to the node's own
  worker if that accepts connections; the failure is reported.\<close>

theorem fallback_local:
  assumes "\<forall>a. \<not> se_connect (de_connect1 e) a"
    and "se_socket (de_connect2 e)" "inet_pton local_ip \<noteq> None" "\<forall>a. se_connect (de_connect2 e) a"
    and "kern_ok (ds_kern s)"
  shows "\<exists>fd s'. connect_target e local_ip own_port False ip port s = (fd, local_ip, own_port, s') \<and>
    0 \<le> fd \<and> Err_Fallback ip port \<in> set (ds_out s') \<and> sys_close fd (ds_kern s') = ds_kern s"
proof -
  obtain fd1 k1 where c1: "tcp_connect (de_connect1 e) ip port (ds_kern s) = (fd1, k1)" by fastforce
  then have f: "fd1 = -1" using assms(1)
    by (auto simp: tcp_connect_def sys_socket_def Let_def split: option.splits if_splits)
  then have k: "k1 = ds_kern s" using tcp_connect_close(1) [OF assms(5) c1] by simp
  obtain fd2 k2 where c2: "tcp_connect (de_connect2 e) local_ip own_port (ds_kern s) = (fd2, k2)" by fastforce
  then have "0 \<le> fd2" using assms(2-4)
    by (auto simp: tcp_connect_def sys_socket_def Let_def)
  then show ?thesis using c1 c2 f k tcp_connect_close(2) [OF assms(5) c2]
    by (simp add: connect_target_def Let_def)
qed

theorem fallback_local_witness:
  "\<exists>fd s'. connect_target (demo_env\<lparr>de_connect1 := no_route\<rparr>) ''10.0.0.1'' 7777 False ''10.0.0.2'' 7777 demo_state =
      (fd, ''10.0.0.1'', 7777, s') \<and> 0 \<le> fd \<and> Err_Fallback ''10.0.0.2'' 7777 \<in> set (ds_out s')"
proof -
  have "inet_pton ''10.0.0.1'' \<noteq> None"
    by (simp add: inet_pton_def octet_def is_digit_def dec_val_def digit_val_def)
  then show ?thesis
    using fallback_local [of "demo_env\<lparr>de_connect1 := no_route\<rparr>" "''10.0.0.1''" demo_state 7777 "''10.0.0.2''" 7777]
      demo_ok(2)
    by (auto simp: demo_env_def no_route_def all_ok_def)
qed

text \<open>C30: when the worker sends its output in frames and then the exit code, the
  dispatcher prints exactly the output, in order, and returns the code as a signed number; when the
  stream ends anywhere before its last byte, between two frames, in a header, in a chunk or in the
  exit code, it prints the chunks that came whole and returns \<open>-1\<close>.\<close>

theorem output_complete:
  assumes "list_all (chunk_ok malloc_ok) chunks" "malloc_ok 5"
    and "whole = output_frames chunks @ frame MSG_TASK_DONE (done_payload ec)"
    and "stream c = whole @ rest" "stream d = take n whole" "n < length whole" "closed d"
  shows "(\<exists>c'. receive_output malloc_ok c out = Some (sint ec, out @ concat chunks, c') \<and> stream c' = rest) \<and>
    (\<exists>k d'. k \<le> length chunks \<and> length (output_frames (take k chunks)) \<le> n \<and>
       (k < length chunks \<longrightarrow> n < length (output_frames (take (Suc k) chunks))) \<and>
       receive_output malloc_ok d out = Some (-1, out @ concat (take k chunks), d'))"
proof
  show "\<exists>c'. receive_output malloc_ok c out = Some (sint ec, out @ concat chunks, c') \<and> stream c' = rest"
    using receive_output_frames [of c chunks ec rest malloc_ok] assms(1-4) by simp
  obtain k m ty q where k: "k \<le> length chunks" "length (output_frames (take k chunks)) \<le> n"
    "k < length chunks \<Longrightarrow> n < length (output_frames (take (Suc k) chunks))"
    "stream d = output_frames (take k chunks) @ take m (frame ty q)" "m < length (frame ty q)"
    "q = done_payload ec \<or> q \<in> set chunks"
    using cut_point [OF assms(6) [unfolded assms(3)]] unfolding assms(3,5) by metis
  have "length q < 2 ^ 32"
    using k(6) assms(1) RECV_LIMIT_lt [of "length q"] by (auto simp: list_all_iff chunk_ok_def limit_defs)
  from receive_output_cut [OF k(4,5) this assms(7)] assms(1) k(1-3)
  show "\<exists>k d'. k \<le> length chunks \<and> length (output_frames (take k chunks)) \<le> n \<and>
       (k < length chunks \<longrightarrow> n < length (output_frames (take (Suc k) chunks))) \<and>
       receive_output malloc_ok d out = Some (-1, out @ concat (take k chunks), d')"
    by (metis append_take_drop_id list_all_append)
qed

text \<open>The second stream ends in the exit code.\<close>

theorem output_complete_witness:
  "(\<exists>c'. receive_output (\<lambda>n. n < 10) \<lparr>rx = [RxData demo_reply], tx = [], outp = []\<rparr> [] = Some (3, [72, 105], c') \<and>
     stream c' = []) \<and>
   (\<exists>d'. receive_output (\<lambda>n. n < 10) \<lparr>rx = [RxData (take 20 demo_reply), RxEof], tx = [], outp = []\<rparr> [] = Some (-1, [72, 105], d'))"
proof -
  have "frame ty p \<noteq> []" for ty p by (simp add: frame_def mem_header_def)
  then have ne: "demo_reply \<noteq> []" "take 20 demo_reply \<noteq> []" "length demo_reply = 22"
    by (simp_all add: demo_reply_def)
  have "demo_reply = output_frames [[72, 105]] @ frame MSG_TASK_DONE (done_payload 3)" by (simp add: demo_reply_def)
  from output_complete [OF _ _ this, of "\<lambda>n. n < 10" "\<lparr>rx = [RxData demo_reply], tx = [], outp = []\<rparr>" "[]"
      "\<lparr>rx = [RxData (take 20 demo_reply), RxEof], tx = [], outp = []\<rparr>" 20 "[]"] ne
  show ?thesis by (auto simp: chunk_ok_def RECV_LIMIT_def limit_defs le_Suc_eq)
qed

end
