(* ===== verification/Worker.thy ===== *)
theory Worker
  imports Sockets Load_Monitor
begin

text \<open>
  \<^verbatim>\<open>worker.c\<close>: one task from the accepted connection to the reply. The state threaded through
  is the counters of the load monitor, the files under \<^verbatim>\<open>/tmp\<close> and the descriptor table. The
  compiler and the compiled program are not part of the project: what they print, how they end and
  what binary the compiler writes are functions given by the environment.
\<close>

section \<open>Child processes\<close>

text \<open>
  A child is what the reads of its pipe return and the status \<^verbatim>\<open>waitpid\<close> gives, which may
  depend on whether the worker has killed it.
\<close>

record child =
  ch_output :: "rx_event list"
  ch_status :: "bool \<Rightarrow> u32"

definition sys_read :: "rx_event list \<Rightarrow> nat \<Rightarrow> (sysret \<times> byte list \<times> rx_event list) option" where
  "sys_read p k = map_option (\<lambda>(r, bs, c). (r, bs, rx c)) (sys_recv \<lparr>rx = p, tx = [], outp = []\<rparr> k)"

text \<open>The macros of \<^verbatim>\<open>sys/wait.h\<close> on the status word.\<close>

definition wifexited :: "u32 \<Rightarrow> bool" where "wifexited st \<longleftrightarrow> st AND 0x7F = 0"
definition wexitstatus :: "u32 \<Rightarrow> int" where "wexitstatus st = uint (drop_bit 8 (st AND 0xFF00))"
definition wtermsig :: "u32 \<Rightarrow> int" where "wtermsig st = uint (st AND 0x7F)"
definition wifsignaled :: "u32 \<Rightarrow> bool" where
  "wifsignaled st \<longleftrightarrow> 0 < sint (ucast ((st AND 0x7F) + 1) :: byte) div 2"

definition child_exit :: "u32 \<Rightarrow> int" where
  "child_exit st =
     (if wifexited st then wexitstatus st
      else if wifsignaled st then 128 + wtermsig st
      else 0)"

lemma sys_read_weight:
  "sys_read p k = Some (SRet n, bs, p') \<Longrightarrow> 0 < n \<Longrightarrow> rx_weight p' < rx_weight p"
  "sys_read p k = Some (SEintr, bs, p') \<Longrightarrow> rx_weight p' < rx_weight p"
  using sys_recv_weight [of "\<lparr>rx = p, tx = [], outp = []\<rparr>" k] by (auto simp: sys_read_def)

text \<open>The reading loop: whether the child was killed, and the client's connection afterwards.\<close>

function stream_loop :: "conn \<Rightarrow> rx_event list \<Rightarrow> (bool \<times> conn) option" where
  "stream_loop c p =
     (case sys_read p OUTPUT_BUF_SIZE of
        None \<Rightarrow> None
      | Some (SErr, bs, p') \<Rightarrow> Some (False, c)
      | Some (SEintr, bs, p') \<Rightarrow> stream_loop c p'
      | Some (SRet n, bs, p') \<Rightarrow>
          if n = 0 then Some (False, c)
          else (case send_msg c MSG_OUTPUT (Some bs) (word_of_nat n) of
                  None \<Rightarrow> None
                | Some (r, c') \<Rightarrow> if r < 0 then Some (True, c') else stream_loop c' p'))"
  by pat_completeness auto
termination
  by (relation "measure (\<lambda>(c, p). rx_weight p)") (auto dest: sys_read_weight)

declare stream_loop.simps [simp del]

definition stream_and_wait :: "conn \<Rightarrow> child \<Rightarrow> (int \<times> conn) option" where
  "stream_and_wait c ch =
     do { (killed, c') \<leftarrow> stream_loop c (ch_output ch); Some (child_exit (ch_status ch killed), c') }"

section \<open>compile_and_stream\<close>

type_synonym files = "string \<rightharpoonup> byte list"

record wstate =
  ws_load :: load_state
  ws_fs :: files
  ws_kern :: kern

text \<open>
  The compiler reads the source file and may write the binary; running the binary depends on what
  the file holds. \<open>None\<close> is an \<^verbatim>\<open>execl\<close> that fails, of the shell or of a file that is no program.
  \<open>we_disk\<close> is how many bytes \<^verbatim>\<open>fwrite\<close> can store; the code does not look at what it returns.
\<close>

record work_env =
  we_pid :: int
  we_fopen :: bool
  we_disk :: nat
  we_pipe :: bool
  we_shell :: "byte list option \<Rightarrow> (child \<times> byte list option) option"
  we_exec :: "byte list \<Rightarrow> child option"

text \<open>
  The end of a child whose \<^verbatim>\<open>execl\<close> returns: it calls \<^verbatim>\<open>_exit(127)\<close> without having written anything,
  so the pipe ends at once and the status has 127 in its second byte.
\<close>

definition exec_failed :: child where
  "exec_failed = \<lparr>ch_output = [RxEof], ch_status = (\<lambda>_. push_bit 8 127)\<rparr>"

lemma exec_failed_end:
  "rx_stream (ch_output exec_failed) = []" "rx_closed (ch_output exec_failed)"
  "child_exit (ch_status exec_failed killed) = 127"
  by (simp_all add: exec_failed_def child_exit_def wifexited_def wexitstatus_def)

definition exec_gcc :: "work_env \<Rightarrow> byte list option \<Rightarrow> child \<times> byte list option" where
  "exec_gcc we src = (case we_shell we src of None \<Rightarrow> (exec_failed, None) | Some r \<Rightarrow> r)"

text \<open>A file that is missing cannot be executed either.\<close>

definition exec_binary :: "work_env \<Rightarrow> byte list option \<Rightarrow> child" where
  "exec_binary we bin =
     (case bin of
        None \<Rightarrow> exec_failed
      | Some b \<Rightarrow> (case we_exec we b of None \<Rightarrow> exec_failed | Some ch \<Rightarrow> ch))"

definition src_path :: "int \<Rightarrow> string" where
  "src_path pid = take 255 (''/tmp/p2p_'' @ dec_int pid @ ''.c'')"

definition bin_path :: "int \<Rightarrow> string" where
  "bin_path pid = take 255 (''/tmp/p2p_'' @ dec_int pid @ ''_bin'')"

definition compile_cmd :: "int \<Rightarrow> string" where
  "compile_cmd pid = take 511 (''gcc -o '' @ bin_path pid @ '' '' @ src_path pid @ '' 2>&1'')"

definition write_source :: "int \<Rightarrow> byte list \<Rightarrow> files \<Rightarrow> files" where
  "write_source pid data fs = fs(src_path pid \<mapsto> data)"

definition run_gcc :: "work_env \<Rightarrow> files \<Rightarrow> child \<times> files" where
  "run_gcc we fs =
     (let (ch, bin) = exec_gcc we (fs (src_path (we_pid we))) in
      (ch, case bin of None \<Rightarrow> fs | Some b \<Rightarrow> fs(bin_path (we_pid we) \<mapsto> b)))"

definition run_binary :: "work_env \<Rightarrow> files \<Rightarrow> child" where
  "run_binary we fs = exec_binary we (fs (bin_path (we_pid we)))"

definition unlink :: "string \<Rightarrow> files \<Rightarrow> files" where
  "unlink path fs = fs(path := None)"

definition send_done :: "conn \<Rightarrow> int \<Rightarrow> (int \<times> conn) option" where
  "send_done c code =
     (let d = \<lparr>td_exit_code = htonl (word_of_int code)\<rparr> in
      send_msg c MSG_TASK_DONE (Some (mem_task_done d)) 4)"

text \<open>
  The compile step gives whether the task ends here. When \<^verbatim>\<open>pipe\<close> fails the step is skipped.
\<close>

definition compile_step :: "work_env \<Rightarrow> conn \<Rightarrow> wstate \<Rightarrow> (bool \<times> conn \<times> wstate) option" where
  "compile_step we c s =
     (if we_pipe we then
        (let (ch, fs) = run_gcc we (ws_fs s); s1 = s\<lparr>ws_fs := fs\<rparr> in
         do { (compile_exit, c1) \<leftarrow> stream_and_wait c ch;
              if compile_exit \<noteq> 0 then
                do { (r, c2) \<leftarrow> send_done c1 compile_exit;
                     Some (True, c2, s1\<lparr>ws_fs := unlink (src_path (we_pid we)) (ws_fs s1),
                                        ws_load := load_task_done (ws_load s1)\<rparr>) }
              else Some (False, c1, s1) })
      else Some (False, c, s))"

definition run_step :: "work_env \<Rightarrow> conn \<Rightarrow> wstate \<Rightarrow> (conn \<times> wstate) option" where
  "run_step we c s =
     do { (run_exit, c1) \<leftarrow> stream_and_wait c (run_binary we (ws_fs s));
          (r, c2) \<leftarrow> send_done c1 run_exit;
          Some (c2, s\<lparr>ws_fs := unlink (bin_path (we_pid we)) (unlink (src_path (we_pid we)) (ws_fs s)),
                      ws_load := load_task_done (ws_load s)\<rparr>) }"

definition finish_task :: "work_env \<Rightarrow> conn \<Rightarrow> wstate \<Rightarrow> (conn \<times> wstate) option" where
  "finish_task we c s =
     do { (ended, c1, s1) \<leftarrow> compile_step we c s;
          if ended then Some (c1, s1) else run_step we c1 s1 }"

definition compile_and_stream ::
  "work_env \<Rightarrow> conn \<Rightarrow> byte list \<Rightarrow> wstate \<Rightarrow> (conn \<times> wstate) option" where
  "compile_and_stream we c data s =
     (let s1 = s\<lparr>ws_load := load_task_start (ws_load s)\<rparr> in
      if \<not> we_fopen we then Some (c, s1\<lparr>ws_load := load_task_done (ws_load s1)\<rparr>)
      else
        finish_task we c (s1\<lparr>ws_fs := write_source (we_pid we) (take (we_disk we) data) (ws_fs s1)\<rparr>))"

section \<open>handle_connection\<close>

text \<open>The payload of a task: the two length checks, then the file name and the file.\<close>

definition parse_task :: "byte list \<Rightarrow> nat \<Rightarrow> (byte list \<times> byte list) option" where
  "parse_task payload plen =
     (if plen < 6 then None
      else
        let fn_len = unat (ntohs (rd16 payload)) in
        if MAX_FILENAME_LEN \<le> fn_len \<or> plen < 2 + fn_len + 4 then None
        else
          let filename = take fn_len (drop 2 payload);
              file_len = unat (ntohl (rd32 (drop (2 + fn_len) payload))) in
          if MAX_FILE_SIZE < file_len \<or> plen < 2 + fn_len + 4 + file_len then None
          else Some (filename, take file_len (drop (2 + fn_len + 4) payload)))"

definition handle_connection ::
  "(nat \<Rightarrow> bool) \<Rightarrow> work_env \<Rightarrow> int \<Rightarrow> conn \<Rightarrow> wstate \<Rightarrow> (conn \<times> wstate) option" where
  "handle_connection malloc_ok we cfd c s =
     do { (msg, c1) \<leftarrow> recv_msg malloc_ok c;
          (c2, s2) \<leftarrow>
            (case msg of
               None \<Rightarrow> Some (c1, s)
             | Some m \<Rightarrow>
                 if rm_type m = msg_code MSG_TASK_FILE then
                   (case parse_task (case rm_payload m of Some p \<Rightarrow> p | None \<Rightarrow> []) (unat (rm_len m)) of
                      None \<Rightarrow> Some (c1, s)
                    | Some (filename, data) \<Rightarrow> compile_and_stream we c1 data s)
                 else Some (c1, s));
          Some (c2, s2\<lparr>ws_kern := sys_close cfd (ws_kern s2)\<rparr>) }"

section \<open>The accept loop\<close>

text \<open>
  What \<^verbatim>\<open>accept\<close> returns; with a connection, whether \<^verbatim>\<open>pthread_create\<close> will succeed for it. Its
  result is not looked at: without a thread the connection stays open and nobody serves it.
\<close>

datatype accept_event = Acc_Conn u32 bool | Acc_Eintr | Acc_Err

datatype accept_result = Acc_Continue | Acc_Rejected | Acc_Break | Acc_Spawn int string | Acc_Unserved int

definition accept_iteration :: "load_state \<Rightarrow> accept_event \<Rightarrow> kern \<Rightarrow> accept_result \<times> kern" where
  "accept_iteration load ev k =
     (case ev of
        Acc_Eintr \<Rightarrow> (Acc_Continue, k)
      | Acc_Err \<Rightarrow> (Acc_Break, k)
      | Acc_Conn a threaded \<Rightarrow>
          let cfd = fresh_fd (k_fds k); k1 = k\<lparr>k_fds := cfd # k_fds k\<rparr> in
          if MAX_CONCURRENT_TASKS \<le> unat (load_get_active_tasks load)
          then (Acc_Rejected, sys_close (int cfd) k1)
          else if threaded then (Acc_Spawn (int cfd) (inet_ntop a), k1)
          else (Acc_Unserved (int cfd), k1))"

text \<open>The loop over the events it meets, each with the counters as they are at that moment.\<close>

fun accept_loop :: "(load_state \<times> accept_event) list \<Rightarrow> kern \<Rightarrow> (int \<times> string) list \<Rightarrow> (int \<times> string) list \<times> kern" where
  "accept_loop [] k spawned = (spawned, k)"
| "accept_loop ((load, ev) # es) k spawned =
     (case accept_iteration load ev k of
        (Acc_Break, k1) \<Rightarrow> (spawned, k1)
      | (Acc_Spawn fd ip, k1) \<Rightarrow> accept_loop es k1 (spawned @ [(fd, ip)])
      | (_, k1) \<Rightarrow> accept_loop es k1 spawned)"

text \<open>\<open>None\<close> is the exit of the process by \<^verbatim>\<open>DIE\<close>.\<close>

definition worker_start :: "sock_env \<Rightarrow> u16 \<Rightarrow> kern \<Rightarrow> (kern \<times> thread list) option" where
  "worker_start e port k =
     (let (fd, k1) = make_tcp_server e (uint port) k in
      if fd < 0 then None else Some (k1, [AcceptLoop fd]))"

section \<open>What the client is sent\<close>

definition frames :: "byte list list \<Rightarrow> byte list" where
  "frames chunks = concat (map (frame MSG_OUTPUT) chunks)"

definition chunks_of :: "byte list list \<Rightarrow> byte list \<Rightarrow> bool" where
  "chunks_of chunks out \<longleftrightarrow> concat chunks = out \<and>
     list_all (\<lambda>p. 0 < length p \<and> length p \<le> OUTPUT_BUF_SIZE) chunks"

lemma chunks_of_Nil [simp]: "chunks_of [] out \<longleftrightarrow> out = []"
  by (auto simp: chunks_of_def)

lemma chunks_of_Cons: "chunks_of cs out \<Longrightarrow> 0 < length p \<Longrightarrow> length p \<le> OUTPUT_BUF_SIZE \<Longrightarrow>
    chunks_of (p # cs) (p @ out)"
  by (simp add: chunks_of_def)

lemma chunks_of_append: "chunks_of a x \<Longrightarrow> chunks_of b y \<Longrightarrow> chunks_of (a @ b) (x @ y)"
  by (auto simp: chunks_of_def)

lemma chunks_exist: "\<exists>chunks. chunks_of chunks out"
  by (rule exI [of _ "map (\<lambda>b. [b]) out"])
    (simp add: chunks_of_def list_all_iff OUTPUT_BUF_SIZE_def concat_map_singleton)

lemma frames_Cons: "frames (p # cs) = frame MSG_OUTPUT p @ frames cs"
  by (simp add: frames_def)

lemma frames_append [simp]: "frames (a @ b) = frames a @ frames b"
  by (simp add: frames_def)

text \<open>A read of the pipe, seen on its stream.\<close>

lemma sys_read_data:
  assumes "sys_read p k = Some (SRet n, bs, p')" "0 < n"
  shows "length bs = n" "n \<le> k" "rx_stream p = bs @ rx_stream p'" "rx_closed p' = rx_closed p"
  using assms sys_recv_data [of "\<lparr>rx = p, tx = [], outp = []\<rparr>" k n bs] by (auto simp: sys_read_def)

lemma sys_read_end:
  "sys_read p k = Some (SRet 0, bs, p') \<Longrightarrow> 0 < k \<Longrightarrow> rx_stream p = [] \<and> rx_closed p"
  "sys_read p k = Some (SErr, bs, p') \<Longrightarrow> rx_stream p = [] \<and> rx_closed p"
  "sys_read p k = Some (SEintr, bs, p') \<Longrightarrow> rx_stream p' = rx_stream p \<and> rx_closed p' = rx_closed p"
  "sys_read p k = None \<Longrightarrow> rx_stream p = [] \<and> \<not> rx_closed p"
  using sys_recv_zero [of "\<lparr>rx = p, tx = [], outp = []\<rparr>" k] sys_recv_err [of "\<lparr>rx = p, tx = [], outp = []\<rparr>" k]
    sys_recv_eintr [of "\<lparr>rx = p, tx = [], outp = []\<rparr>" k] sys_recv_None [of "\<lparr>rx = p, tx = [], outp = []\<rparr>" k]
  by (auto simp: sys_read_def)

lemma out_buf_pos [simp]: "0 < OUTPUT_BUF_SIZE"
  by (simp add: OUTPUT_BUF_SIZE_def)

lemma chunk_u32: "n \<le> OUTPUT_BUF_SIZE \<Longrightarrow> n < 2 ^ 32"
  by (simp add: OUTPUT_BUF_SIZE_def)

text \<open>
  The client is sent the child's output and nothing else, cut into chunks; when a send fails the
  child is killed, and what has been sent is cut short.
\<close>

lemma stream_loop_spec:
  "stream_loop c p = Some (killed, c') \<Longrightarrow> rx c' = rx c \<and> (\<not> killed \<longrightarrow> rx_closed p) \<and>
     (\<exists>chunks. chunks_of chunks (rx_stream p) \<and>
        (if killed then \<exists>k < length (frames chunks). outp c' = outp c @ take k (frames chunks)
         else outp c' = outp c @ frames chunks))"
proof (induction c p rule: stream_loop.induct)
  case (1 c p)
  note unf = stream_loop.simps [of c p]
  from 1(3) obtain q bs p' where q: "sys_read p OUTPUT_BUF_SIZE = Some (q, bs, p')"
    by (auto simp: unf split: option.splits)
  show ?case
  proof (cases q)
    case SErr
    then show ?thesis using 1(3) q sys_read_end(2) [of p] by (auto simp: unf frames_def intro!: exI [of _ "[]"])
  next
    case SEintr
    then have "stream_loop c p' = Some (killed, c')" using 1(3) q by (simp add: unf)
    from 1(2) [OF q refl SEintr refl this] show ?thesis
      using sys_read_end(3) [OF q [unfolded SEintr]] by simp
  next
    case (SRet n)
    show ?thesis
    proof (cases "n = 0")
      case True
      then show ?thesis using 1(3) q SRet sys_read_end(1) [of p]
        by (auto simp: unf frames_def intro!: exI [of _ "[]"])
    next
      case False
      with q SRet have rd: "length bs = n" "n \<le> OUTPUT_BUF_SIZE" "rx_stream p = bs @ rx_stream p'"
          "rx_closed p' = rx_closed p" "0 < length bs"
        using sys_read_data [of p OUTPUT_BUF_SIZE n bs p'] by auto
      from 1(3) q SRet False obtain r c1 where
        s: "send_msg c MSG_OUTPUT (Some bs) (word_of_nat n) = Some (r, c1)"
        by (auto simp: unf split: option.splits)
      have len: "length bs < 2 ^ 32" using rd by (intro chunk_u32) simp
      note fr = send_msg_frame [OF s [folded rd(1)] len]
      show ?thesis
      proof (cases "r < 0")
        case True
        then have kc: "killed" "c' = c1" using 1(3) q SRet False s by (simp_all add: unf)
        from fr(4) True obtain k where k: "k < length (frame MSG_OUTPUT bs)"
            "outp c1 = outp c @ take k (frame MSG_OUTPUT bs)" by auto
        obtain rest where "chunks_of rest (rx_stream p')" using chunks_exist by blast
        then have "chunks_of (bs # rest) (rx_stream p)" using rd chunks_of_Cons [of rest _ bs] by simp
        then show ?thesis using k kc fr(1)
          by (auto simp: frames_Cons intro!: exI [of _ "bs # rest"] exI [of _ k])
      next
        case ok: False
        then have r0: "r = 0" using fr(2) by auto
        have "stream_loop c1 p' = Some (killed, c')" using 1(3) q SRet False s ok by (simp add: unf)
        from 1(1) [OF q refl SRet refl False s refl ok this] obtain chunks where
          "rx c' = rx c1" "\<not> killed \<longrightarrow> rx_closed p'" and ch: "chunks_of chunks (rx_stream p')"
          "if killed then \<exists>k < length (frames chunks). outp c' = outp c1 @ take k (frames chunks)
           else outp c' = outp c1 @ frames chunks" by blast
        moreover have "chunks_of (bs # chunks) (rx_stream p)" using ch(1) rd chunks_of_Cons [of chunks _ bs] by simp
        moreover have "\<exists>k' < length (frames (bs # chunks)). outp c' = outp c @ take k' (frames (bs # chunks))"
          if "k < length (frames chunks)" "outp c' = outp c1 @ take k (frames chunks)" for k
          using that fr(3) [OF r0]
          by (intro exI [of _ "length (frame MSG_OUTPUT bs) + k"]) (simp add: frames_Cons)
        ultimately show ?thesis using fr(1) fr(3) [OF r0] rd
          by (intro conjI exI [of _ "bs # chunks"]) (auto simp: frames_Cons split: if_splits)
      qed
    qed
  qed
qed

lemma stream_loop_room:
  "rx_closed p \<Longrightarrow> room_for c (9 * length (rx_stream p) + k) \<Longrightarrow>
     \<exists>c'. stream_loop c p = Some (False, c') \<and> room_for c' k"
proof (induction c p rule: stream_loop.induct)
  case (1 c p)
  note unf = stream_loop.simps [of c p]
  obtain q bs p' where q: "sys_read p OUTPUT_BUF_SIZE = Some (q, bs, p')"
    using sys_read_end(4) [of p OUTPUT_BUF_SIZE] 1(3) by (cases "sys_read p OUTPUT_BUF_SIZE") auto
  show ?case
  proof (cases q)
    case SErr
    then show ?thesis using 1(4) q by (auto simp: unf intro: room_for_mono)
  next
    case SEintr
    from sys_read_end(3) [OF q [unfolded SEintr]] 1(3,4) 1(2) [OF q refl SEintr refl]
    show ?thesis using q SEintr by (simp add: unf)
  next
    case (SRet n)
    show ?thesis
    proof (cases "n = 0")
      case True
      then show ?thesis using 1(4) q SRet by (auto simp: unf intro: room_for_mono)
    next
      case False
      with q SRet have rd: "length bs = n" "n \<le> OUTPUT_BUF_SIZE" "rx_stream p = bs @ rx_stream p'"
          "rx_closed p' = rx_closed p" "0 < length bs"
        using sys_read_data [of p OUTPUT_BUF_SIZE n bs p'] by auto
      have len: "length bs < 2 ^ 32" using rd by (intro chunk_u32) simp
      have "room_for c (length (frame MSG_OUTPUT bs) + (9 * length (rx_stream p') + k))"
        using 1(4) by (rule room_for_mono) (use rd in simp)
      from send_msg_room [OF this len] obtain c1 where
        c1: "send_msg c MSG_OUTPUT (Some bs) (word_of_nat n) = Some (0, c1)"
          "room_for c1 (9 * length (rx_stream p') + k)" using rd by auto
      have cl: "rx_closed p'" using rd 1(3) by simp
      have nk: "\<not> (0::int) < 0" by simp
      from 1(1) [OF q refl SRet refl False c1(1) refl nk cl c1(2)]
      show ?thesis using q SRet False c1 by (simp add: unf)
    qed
  qed
qed

section \<open>Exit codes and paths\<close>

lemma u32_and_le: "unat (st AND m) \<le> unat m" for st m :: u32
  by (simp add: word_and_le1 flip: word_le_nat_alt)

lemma wexitstatus_range: "0 \<le> wexitstatus st \<and> wexitstatus st \<le> 255"
proof -
  define w where "w = drop_bit 8 (st AND 0xFF00)"
  have "unat w \<le> 255"
    unfolding w_def unat_drop_bit_eq using u32_and_le [of st "0xFF00"] by (simp add: drop_bit_eq_div)
  then have "uint w \<le> 255" by (simp flip: nat_le_eq_zle)
  then show ?thesis by (simp add: wexitstatus_def w_def)
qed

lemma child_exit_range: "0 \<le> child_exit st \<and> child_exit st \<le> 255"
proof -
  define x where "x = unat (st AND 0x7F)"
  have x: "x \<le> 127" using u32_and_le [of st "0x7F"] by (simp add: x_def)
  have t: "wtermsig st = int x" by (simp add: wtermsig_def x_def)
  have "x \<noteq> 127" if "wifsignaled st"
  proof
    assume "x = 127"
    then have "st AND 0x7F = 127" by (simp add: x_def word_unat_eq_iff)
    with that show False by (simp add: wifsignaled_def)
  qed
  then show ?thesis using wexitstatus_range [of st] x t by (auto simp: child_exit_def)
qed

definition pid_ok :: "int \<Rightarrow> bool" where
  "pid_ok pid \<longleftrightarrow> - (2 ^ 31) \<le> pid \<and> pid < 2 ^ 31"

lemma paths_exact:
  assumes "pid_ok pid"
  shows "src_path pid = ''/tmp/p2p_'' @ dec_int pid @ ''.c''"
    "bin_path pid = ''/tmp/p2p_'' @ dec_int pid @ ''_bin''"
  using length_dec_int [of pid] assms by (simp_all add: src_path_def bin_path_def pid_ok_def)

lemma paths_differ: "pid_ok pid \<Longrightarrow> src_path pid \<noteq> bin_path pid"
  by (simp add: paths_exact)

section \<open>The reply to a task\<close>

text \<open>The contract of a task: everything the client is shown, and the exit code it is told.\<close>

definition task_reply :: "work_env \<Rightarrow> byte list \<Rightarrow> byte list option \<Rightarrow> byte list \<times> int" where
  "task_reply we data old =
     (let (g, bin) = exec_gcc we (Some data); e = child_exit (ch_status g False) in
      if e \<noteq> 0 then (rx_stream (ch_output g), e)
      else
        let r = exec_binary we (case bin of Some b \<Rightarrow> Some b | None \<Rightarrow> old) in
        (rx_stream (ch_output g) @ rx_stream (ch_output r), child_exit (ch_status r False)))"

definition task_ends :: "work_env \<Rightarrow> byte list \<Rightarrow> byte list option \<Rightarrow> bool" where
  "task_ends we data old \<longleftrightarrow>
     (let (g, bin) = exec_gcc we (Some data) in
      rx_closed (ch_output g) \<and>
      rx_closed (ch_output (exec_binary we (case bin of Some b \<Rightarrow> Some b | None \<Rightarrow> old))))"

lemma stream_and_wait_room:
  assumes "rx_closed (ch_output ch)" "room_for c (9 * length (rx_stream (ch_output ch)) + k)"
  obtains c' chunks where "stream_and_wait c ch = Some (child_exit (ch_status ch False), c')"
    "chunks_of chunks (rx_stream (ch_output ch))" "outp c' = outp c @ frames chunks" "rx c' = rx c"
    "room_for c' k"
proof -
  from stream_loop_room [OF assms] obtain c' where c': "stream_loop c (ch_output ch) = Some (False, c')" "room_for c' k"
    by blast
  from stream_loop_spec [OF c'(1)] obtain chunks where "rx c' = rx c" "chunks_of chunks (rx_stream (ch_output ch))"
    "outp c' = outp c @ frames chunks" by auto
  with c' show ?thesis by (intro that [of c' chunks]) (simp_all add: stream_and_wait_def)
qed

lemma send_done_room:
  assumes "room_for c (12 + k)"
  obtains c' where "send_done c code = Some (0, c')" "rx c' = rx c"
    "outp c' = outp c @ frame MSG_TASK_DONE (done_payload (word_of_int code))" "room_for c' k"
proof -
  have "length (done_payload (word_of_int code)) < 2 ^ 32" by simp
  moreover have "room_for c (length (frame MSG_TASK_DONE (done_payload (word_of_int code))) + k)"
    using assms by simp
  ultimately show ?thesis
    using send_msg_room [of c MSG_TASK_DONE "done_payload (word_of_int code)" k] that
    by (auto simp: send_done_def Let_def done_payload_def mem_task_done_def)
qed

lemma run_step_reply:
  assumes "rx_closed (ch_output r)" "room_for c (9 * length (rx_stream (ch_output r)) + 12)"
    and "run_binary we (ws_fs s) = r"
  obtains c' s' chunks where "run_step we c s = Some (c', s')" "chunks_of chunks (rx_stream (ch_output r))"
    "outp c' = outp c @ frames chunks @ frame MSG_TASK_DONE (done_payload (word_of_int (child_exit (ch_status r False))))"
    "rx c' = rx c"
proof -
  let ?code = "child_exit (ch_status r False)"
  from stream_and_wait_room [OF assms(1,2)] obtain c1 chunks where
    c1: "stream_and_wait c r = Some (?code, c1)" "chunks_of chunks (rx_stream (ch_output r))"
      "outp c1 = outp c @ frames chunks" "rx c1 = rx c" "room_for c1 (12 + 0)" by auto
  from send_done_room [OF c1(5), of ?code] obtain c2 where "send_done c1 ?code = Some (0, c2)" "rx c2 = rx c1"
    "outp c2 = outp c1 @ frame MSG_TASK_DONE (done_payload (word_of_int ?code))" by blast
  with c1 show ?thesis by (intro that [of c2 _ chunks]) (simp_all add: run_step_def assms(3))
qed

lemma finish_task_reply:
  assumes env: "we_pipe we" "pid_ok (we_pid we)"
    and fs2: "ws_fs s2 = write_source (we_pid we) data fs0"
    and ends: "task_ends we data (fs0 (bin_path (we_pid we)))"
    and reply: "task_reply we data (fs0 (bin_path (we_pid we))) = (out, code)"
    and room: "room_for c (9 * length out + 12)"
  obtains c' s' chunks where "finish_task we c s2 = Some (c', s')" "chunks_of chunks out"
    "outp c' = outp c @ frames chunks @ frame MSG_TASK_DONE (done_payload (word_of_int code))" "rx c' = rx c"
proof -
  let ?src = "src_path (we_pid we)" and ?bin = "bin_path (we_pid we)"
  obtain g bin where g: "exec_gcc we (Some data) = (g, bin)" by (cases "exec_gcc we (Some data)")
  let ?e = "child_exit (ch_status g False)"
  define fs where "fs = (case bin of None \<Rightarrow> ws_fs s2 | Some b \<Rightarrow> (ws_fs s2)(?bin \<mapsto> b))"
  have gcc: "run_gcc we (ws_fs s2) = (g, fs)"
    by (simp add: run_gcc_def fs2 write_source_def g fs_def split: option.split)
  have fsbin: "fs ?bin = (case bin of Some b \<Rightarrow> Some b | None \<Rightarrow> fs0 ?bin)"
    using paths_differ [OF env(2)] by (simp add: fs_def fs2 write_source_def split: option.split)
  have closed: "rx_closed (ch_output g)" using ends by (simp add: task_ends_def g)
  show ?thesis
  proof (cases "?e = 0")
    case False
    then have r: "out = rx_stream (ch_output g)" "code = ?e" using reply by (simp_all add: task_reply_def g)
    from closed room [unfolded r] obtain c1 chunks where
      c1: "stream_and_wait c g = Some (?e, c1)" "chunks_of chunks out" "outp c1 = outp c @ frames chunks"
        "rx c1 = rx c" "room_for c1 (12 + 0)"
      by (rule stream_and_wait_room) (use r in simp)
    from send_done_room [OF c1(5), of ?e] obtain c2 where
      "send_done c1 ?e = Some (0, c2)" "rx c2 = rx c1"
      "outp c2 = outp c1 @ frame MSG_TASK_DONE (done_payload (word_of_int ?e))" by blast
    with c1 False env r show ?thesis by (intro that [of c2 _ chunks]) (auto simp: finish_task_def compile_step_def gcc)
  next
    case True
    let ?r = "exec_binary we (case bin of Some b \<Rightarrow> Some b | None \<Rightarrow> fs0 ?bin)"
    have r: "out = rx_stream (ch_output g) @ rx_stream (ch_output ?r)" "code = child_exit (ch_status ?r False)"
      using reply True by (simp_all add: task_reply_def g Let_def)
    have cl: "rx_closed (ch_output ?r)" using ends by (simp add: task_ends_def g)
    have "room_for c (9 * length (rx_stream (ch_output g)) + (9 * length (rx_stream (ch_output ?r)) + 12))"
      using room by (simp add: r algebra_simps)
    from stream_and_wait_room [OF closed this] obtain c1 ch1 where
      c1: "stream_and_wait c g = Some (?e, c1)" "chunks_of ch1 (rx_stream (ch_output g))"
        "outp c1 = outp c @ frames ch1" "rx c1 = rx c" "room_for c1 (9 * length (rx_stream (ch_output ?r)) + 12)"
      by blast
    have "run_binary we fs = ?r" by (simp add: run_binary_def fsbin)
    then have rb: "run_binary we (ws_fs (s2\<lparr>ws_fs := fs\<rparr>)) = ?r" by simp
    from run_step_reply [OF cl c1(5) rb] obtain c2 s3 ch2 where
      c2: "run_step we c1 (s2\<lparr>ws_fs := fs\<rparr>) = Some (c2, s3)" "chunks_of ch2 (rx_stream (ch_output ?r))"
        "outp c2 = outp c1 @ frames ch2 @ frame MSG_TASK_DONE (done_payload (word_of_int code))" "rx c2 = rx c1"
      using r(2) by metis
    have "chunks_of (ch1 @ ch2) out" using c1(2) c2(2) r by (simp add: chunks_of_append)
    then show ?thesis using c1 c2 True env(1)
      by (intro that [of c2 s3 "ch1 @ ch2"]) (simp_all add: finish_task_def compile_step_def gcc)
  qed
qed

lemma compile_and_stream_reply:
  assumes "we_fopen we" "we_pipe we" "pid_ok (we_pid we)"
    and "task_ends we (take (we_disk we) data) (ws_fs s (bin_path (we_pid we)))"
    and "task_reply we (take (we_disk we) data) (ws_fs s (bin_path (we_pid we))) = (out, code)"
    and "room_for c (9 * length out + 12)"
  obtains c' s' chunks where "compile_and_stream we c data s = Some (c', s')" "chunks_of chunks out"
    "outp c' = outp c @ frames chunks @ frame MSG_TASK_DONE (done_payload (word_of_int code))" "rx c' = rx c"
proof -
  let ?data = "take (we_disk we) data"
  let ?s1 = "s\<lparr>ws_load := load_task_start (ws_load s)\<rparr>"
  let ?s2 = "?s1\<lparr>ws_fs := write_source (we_pid we) ?data (ws_fs ?s1)\<rparr>"
  have "compile_and_stream we c data s = finish_task we c ?s2"
    using assms(1) by (simp add: compile_and_stream_def)
  moreover have fs2: "ws_fs ?s2 = write_source (we_pid we) ?data (ws_fs s)" by simp
  ultimately show ?thesis
    using finish_task_reply [OF assms(2,3) fs2, of out code c] assms(4-6) that by metis
qed

text \<open>Nothing fails that the worker does not look at, and the temporary file can be opened.\<close>

definition env_ok :: "work_env \<Rightarrow> byte list \<Rightarrow> bool" where
  "env_ok we data \<longleftrightarrow> we_fopen we \<and> length data \<le> we_disk we \<and> we_pipe we \<and> pid_ok (we_pid we)"

lemma env_okD: "env_ok we data \<Longrightarrow> we_fopen we" "env_ok we data \<Longrightarrow> we_pipe we"
  "env_ok we data \<Longrightarrow> pid_ok (we_pid we)" "env_ok we data \<Longrightarrow> take (we_disk we) data = data"
  by (simp_all add: env_ok_def)

section \<open>State after a task\<close>

text \<open>Counters, files and descriptors on every path that returns.\<close>

definition tmp_untouched :: "int \<Rightarrow> files \<Rightarrow> files \<Rightarrow> bool" where
  "tmp_untouched pid fs fs' \<longleftrightarrow> (\<forall>path. path \<noteq> src_path pid \<longrightarrow> path \<noteq> bin_path pid \<longrightarrow> fs' path = fs path)"

lemma run_gcc_files:
  "run_gcc we fs = (ch, fs') \<Longrightarrow> tmp_untouched (we_pid we) fs fs'"
  by (auto simp: run_gcc_def tmp_untouched_def split: prod.splits option.splits)

lemma run_step_state:
  "run_step we c s = Some (c', s') \<Longrightarrow> ws_load s' = load_task_done (ws_load s) \<and> ws_kern s' = ws_kern s \<and>
     ws_fs s' (src_path (we_pid we)) = None \<and> ws_fs s' (bin_path (we_pid we)) = None \<and>
     tmp_untouched (we_pid we) (ws_fs s) (ws_fs s')"
  by (auto simp: run_step_def bind_eq_Some_conv unlink_def tmp_untouched_def)

lemma compile_step_state:
  "compile_step we c s = Some (ended, c', s') \<Longrightarrow> ws_kern s' = ws_kern s \<and>
     tmp_untouched (we_pid we) (ws_fs s) (ws_fs s') \<and>
     ws_load s' = (if ended then load_task_done (ws_load s) else ws_load s) \<and>
     (ended \<longrightarrow> ws_fs s' (src_path (we_pid we)) = None)"
  using run_gcc_files [of we "ws_fs s"]
  by (auto simp: compile_step_def Let_def bind_eq_Some_conv unlink_def tmp_untouched_def
      split: if_splits prod.splits)

lemma counters_bracket:
  "load_task_done (load_task_start l) = l\<lparr>g_total_tasks := g_total_tasks l + 1\<rparr>"
  by (simp add: load_task_start_def load_task_done_def)

lemma compile_and_stream_state:
  assumes "compile_and_stream we c data s = Some (c', s')"
  shows "ws_load s' = (ws_load s)\<lparr>g_total_tasks := g_total_tasks (ws_load s) + 1\<rparr>"
    "ws_kern s' = ws_kern s" "tmp_untouched (we_pid we) (ws_fs s) (ws_fs s')"
    "we_fopen we \<Longrightarrow> ws_fs s' (src_path (we_pid we)) = None"
proof -
  let ?s1 = "s\<lparr>ws_load := load_task_start (ws_load s)\<rparr>"
  let ?s2 = "?s1\<lparr>ws_fs := write_source (we_pid we) (take (we_disk we) data) (ws_fs ?s1)\<rparr>"
  have "ws_load s' = (ws_load s)\<lparr>g_total_tasks := g_total_tasks (ws_load s) + 1\<rparr> \<and>
    ws_kern s' = ws_kern s \<and> tmp_untouched (we_pid we) (ws_fs s) (ws_fs s') \<and>
    (we_fopen we \<longrightarrow> ws_fs s' (src_path (we_pid we)) = None)"
  proof (cases "we_fopen we")
    case False
    then show ?thesis using assms
      by (auto simp: compile_and_stream_def counters_bracket tmp_untouched_def)
  next
    case True
    then obtain ended c1 s3 where c: "compile_step we c ?s2 = Some (ended, c1, s3)"
      "(if ended then Some (c1, s3) else run_step we c1 s3) = Some (c', s')"
      using assms by (auto simp: compile_and_stream_def finish_task_def Let_def bind_eq_Some_conv)
    note cs = compile_step_state [OF c(1)]
    have w: "tmp_untouched (we_pid we) (ws_fs s) (ws_fs ?s2)"
      by (simp add: tmp_untouched_def write_source_def)
    show ?thesis
    proof (cases ended)
      case True
      then show ?thesis using c(2) cs w by (simp add: counters_bracket tmp_untouched_def)
    next
      case False
      then have "run_step we c1 s3 = Some (c', s')" using c(2) by simp
      from run_step_state [OF this] show ?thesis using cs w False
        by (simp add: counters_bracket tmp_untouched_def)
    qed
  qed
  then show "ws_load s' = (ws_load s)\<lparr>g_total_tasks := g_total_tasks (ws_load s) + 1\<rparr>"
    "ws_kern s' = ws_kern s" "tmp_untouched (we_pid we) (ws_fs s) (ws_fs s')"
    "we_fopen we \<Longrightarrow> ws_fs s' (src_path (we_pid we)) = None" by auto
qed

section \<open>The payload of a task\<close>

definition task_bytes :: "byte list \<Rightarrow> byte list \<Rightarrow> byte list" where
  "task_bytes fn data =
     mem16 (htons (word_of_nat (length fn))) @ fn @ mem32 (htonl (word_of_nat (length data))) @ data"

lemma length_task_bytes [simp]: "length (task_bytes fn data) = 6 + length fn + length data"
  by (simp add: task_bytes_def)

lemma rd_mem_htonl: "rd16 (mem16 (htons v) @ bs) = htons v" "rd32 (mem32 (htonl w) @ bs) = htonl w"
  by (rule rd16_mem16, rule rd32_mem32)

lemma parse_task_bytes:
  assumes "length fn < MAX_FILENAME_LEN" "length data \<le> MAX_FILE_SIZE"
  shows "parse_task (task_bytes fn data @ rest) (length (task_bytes fn data)) = Some (fn, data)"
proof -
  have fn: "unat (word_of_nat (length fn) :: u16) = length fn"
    using assms(1) by (simp add: unat_of_nat MAX_FILENAME_LEN_def)
  have dl: "unat (word_of_nat (length data) :: u32) = length data"
    using assms(2) by (intro unat_of_nat_u32) (simp add: MAX_FILE_SIZE_def)
  let ?p = "task_bytes fn data @ rest"
  have "rd16 ?p = htons (word_of_nat (length fn))" by (simp add: task_bytes_def rd_mem_htonl)
  moreover have d2: "drop 2 ?p = fn @ mem32 (htonl (word_of_nat (length data))) @ data @ rest"
    by (simp add: task_bytes_def)
  then have d2n: "drop (2 + length fn) ?p = mem32 (htonl (word_of_nat (length data))) @ data @ rest"
    by (metis append_eq_conv_conj drop_drop add.commute)
  moreover from d2n have "drop (2 + length fn + 4) ?p = data @ rest"
    by (metis drop_drop add.commute drop_mem(1))
  ultimately show ?thesis
    using assms fn dl d2 by (simp add: parse_task_def Let_def rd_mem_htonl)
qed

text \<open>The checks keep every read inside the payload: bytes after it never matter.\<close>

lemma rd_take: "2 \<le> n \<Longrightarrow> n \<le> length p \<Longrightarrow> rd16 (take n p) = rd16 p"
    "m + 4 \<le> n \<Longrightarrow> n \<le> length p \<Longrightarrow> rd32 (drop m (take n p)) = rd32 (drop m p)"
  by (simp_all add: rd16_def rd32_def)

lemma parse_task_inside:
  assumes "plen \<le> length p"
  shows "parse_task p plen = parse_task (take plen p) plen"
proof (cases "plen < 6")
  case False
  then have r: "rd16 (take plen p) = rd16 p" using assms by (intro rd_take) simp_all
  define n where "n = unat (ntohs (rd16 p))"
  show ?thesis
  proof (cases "plen < 2 + n + 4")
    case small: False
    then have "rd32 (drop (2 + n) (take plen p)) = rd32 (drop (2 + n) p)"
      using assms by (intro rd_take) simp_all
    then show ?thesis using False small r
      by (auto simp: parse_task_def Let_def drop_take min_def not_less simp flip: n_def intro!: arg_cong2 [where f = take])
  qed (simp add: parse_task_def Let_def r flip: n_def)
qed (simp add: parse_task_def)

section \<open>Handling a connection\<close>

lemma handle_no_task:
  assumes "recv_msg malloc_ok c = Some (msg, c1)"
    "\<And>m. msg = Some m \<Longrightarrow> rm_type m = msg_code MSG_TASK_FILE \<Longrightarrow>
       parse_task (case rm_payload m of Some p \<Rightarrow> p | None \<Rightarrow> []) (unat (rm_len m)) = None"
  shows "handle_connection malloc_ok we cfd c s = Some (c1, s\<lparr>ws_kern := sys_close cfd (ws_kern s)\<rparr>)"
  using assms by (auto simp: handle_connection_def split: option.splits)

lemma handle_state:
  assumes "handle_connection malloc_ok we cfd c s = Some (c', s')"
  shows "ws_kern s' = sys_close cfd (ws_kern s)"
    "tmp_untouched (we_pid we) (ws_fs s) (ws_fs s')"
    "ws_load s' = ws_load s \<or> ws_load s' = (ws_load s)\<lparr>g_total_tasks := g_total_tasks (ws_load s) + 1\<rparr>"
proof -
  obtain msg c1 where m: "recv_msg malloc_ok c = Some (msg, c1)"
    using assms by (auto simp: handle_connection_def bind_eq_Some_conv)
  have "\<exists>s2. s' = s2\<lparr>ws_kern := sys_close cfd (ws_kern s2)\<rparr> \<and>
      (s2 = s \<or> (\<exists>data c2. compile_and_stream we c1 data s = Some (c2, s2)))"
  proof (cases "\<exists>q fn data. msg = Some q \<and> rm_type q = msg_code MSG_TASK_FILE \<and>
      parse_task (case rm_payload q of Some p \<Rightarrow> p | None \<Rightarrow> []) (unat (rm_len q)) = Some (fn, data)")
    case True
    then show ?thesis using assms by (clarsimp simp: handle_connection_def m bind_eq_Some_conv) blast
  next
    case False
    then have "s' = s\<lparr>ws_kern := sys_close cfd (ws_kern s)\<rparr>"
      using handle_no_task [OF m] assms by (cases msg) (fastforce simp: option.case_eq_if)+
    then show ?thesis by blast
  qed
  then obtain s2 where s2: "s' = s2\<lparr>ws_kern := sys_close cfd (ws_kern s2)\<rparr>"
    "s2 = s \<or> (\<exists>data c2. compile_and_stream we c1 data s = Some (c2, s2))" by blast
  from s2(2) have "ws_kern s2 = ws_kern s \<and> tmp_untouched (we_pid we) (ws_fs s) (ws_fs s2) \<and>
    (ws_load s2 = ws_load s \<or> ws_load s2 = (ws_load s)\<lparr>g_total_tasks := g_total_tasks (ws_load s) + 1\<rparr>)"
    by (elim disjE exE) (simp_all add: compile_and_stream_state, simp add: tmp_untouched_def)
  then show "ws_kern s' = sys_close cfd (ws_kern s)"
    "tmp_untouched (we_pid we) (ws_fs s) (ws_fs s')"
    "ws_load s' = ws_load s \<or> ws_load s' = (ws_load s)\<lparr>g_total_tasks := g_total_tasks (ws_load s) + 1\<rparr>"
    using s2(1) by auto
qed

lemma handle_task:
  assumes str: "stream c = frame MSG_TASK_FILE (task_bytes fn data) @ rest"
    and fn: "length fn < MAX_FILENAME_LEN" and data: "length data \<le> MAX_FILE_SIZE"
    and mem: "malloc_ok (length (task_bytes fn data) + 1)"
    and env: "env_ok we data"
    and ends: "task_ends we data (ws_fs s (bin_path (we_pid we)))"
    and reply: "task_reply we data (ws_fs s (bin_path (we_pid we))) = (out, code)"
    and room: "room_for c (9 * length out + 12)"
  obtains c' s' chunks where "handle_connection malloc_ok we cfd c s = Some (c', s')" "chunks_of chunks out"
    "outp c' = outp c @ frames chunks @ frame MSG_TASK_DONE (done_payload (word_of_int code))"
    "ws_load s' = (ws_load s)\<lparr>g_total_tasks := g_total_tasks (ws_load s) + 1\<rparr>"
proof -
  let ?p = "task_bytes fn data"
  have lim: "length ?p \<le> RECV_LIMIT" using fn data by (simp add: RECV_LIMIT_def)
  then obtain c1 where c1: "recv_msg malloc_ok c = Some (Some (got_frame MSG_TASK_FILE ?p), c1)" "same_tx c c1"
    using recv_msg_frame [of c MSG_TASK_FILE ?p rest malloc_ok] str mem by auto
  have ne: "?p \<noteq> []" by (metis length_task_bytes list.size(3) add_is_0 zero_neq_numeral)
  have "unat (word_of_nat (length ?p) :: u32) = length ?p"
    using lim by (intro unat_of_nat_u32 RECV_LIMIT_lt)
  then have parse: "parse_task (?p @ [0]) (unat (word_of_nat (length ?p) :: u32)) = Some (fn, data)"
    using parse_task_bytes [OF fn data] by simp
  have "room_for c1 (9 * length out + 12)" using room c1(2) by (simp add: room_for_def same_tx_def)
  from compile_and_stream_reply [OF env_okD(1-3) [OF env], where data = data, unfolded env_okD(4) [OF env], OF ends reply this] obtain c' s' chunks where
    r: "compile_and_stream we c1 data s = Some (c', s')" "chunks_of chunks out"
      "outp c' = outp c1 @ frames chunks @ frame MSG_TASK_DONE (done_payload (word_of_int code))" by blast
  have "handle_connection malloc_ok we cfd c s = Some (c', s'\<lparr>ws_kern := sys_close cfd (ws_kern s')\<rparr>)"
    using c1 r ne parse by (simp add: handle_connection_def got_frame_def)
  then show ?thesis using r c1(2) compile_and_stream_state(1) [OF r(1)] that by (simp add: same_tx_def)
qed

section \<open>What a task payload is\<close>

lemma mem_rd_take:
  "2 \<le> length p \<Longrightarrow> mem16 (rd16 p) = take 2 p" "4 \<le> length p \<Longrightarrow> mem32 (rd32 p) = take 4 p"
proof -
  assume "2 \<le> length p"
  then obtain a b r where p: "p = a # b # r" by (cases p; cases "tl p") auto
  then have "rd16 p = rd16 [a, b]" by (simp add: rd16_def)
  with p show "mem16 (rd16 p) = take 2 p" by simp
next
  assume "4 \<le> length p"
  then obtain a b c d r where p: "p = a # b # c # d # r"
    by (cases p; cases "tl p"; cases "tl (tl p)"; cases "tl (tl (tl p))") auto
  then have "rd32 p = rd32 [a, b, c, d]" by (simp add: rd32_def)
  with p show "mem32 (rd32 p) = take 4 p" by simp
qed

lemma parse_task_image:
  assumes "parse_task p plen = Some (fn, data)" "plen \<le> length p"
  shows "length fn < MAX_FILENAME_LEN" "length data \<le> MAX_FILE_SIZE"
    "\<exists>rest. take plen p = task_bytes fn data @ rest"
proof -
  define n where "n = unat (ntohs (rd16 p))"
  define m where "m = unat (ntohl (rd32 (drop (2 + n) p)))"
  have m_eq: "unat (ntohl (rd32 (drop (Suc (Suc n)) p))) = m" by (simp add: m_def)
  have g: "n < MAX_FILENAME_LEN" "m \<le> MAX_FILE_SIZE" "6 + n + m \<le> plen"
    "fn = take n (drop 2 p)" "data = take m (drop (6 + n) p)"
    using assms(1)
    by (auto simp: parse_task_def Let_def n_def [symmetric] m_eq add.commute split: if_splits)
  then have l: "length fn = n" "length data = m" using assms(2) by simp_all
  with g show "length fn < MAX_FILENAME_LEN" "length data \<le> MAX_FILE_SIZE" by simp_all
  have "mem16 (htons (word_of_nat (length fn))) = take 2 p"
    using mem_rd_take(1) [of p] g(3) assms(2) by (simp add: l n_def)
  moreover have "mem32 (htonl (word_of_nat (length data))) = take 4 (drop (2 + n) p)"
    using mem_rd_take(2) [of "drop (2 + n) p"] g(3) assms(2) by (simp add: l m_def)
  ultimately have "task_bytes fn data = take (6 + n + m) p"
    using take_add [of 2 "4 + n + m" p] take_add [of n "4 + m" "drop 2 p"] take_add [of 4 m "drop (2 + n) p"]
    by (simp add: task_bytes_def g(4,5) add.commute add.left_commute)
  then have "take plen p = task_bytes fn data @ drop (6 + n + m) (take plen p)"
    using g(3) append_take_drop_id [of "6 + n + m" "take plen p"] by (simp add: min_def)
  then show "\<exists>rest. take plen p = task_bytes fn data @ rest" by blast
qed

lemma parse_task_longer:
  assumes "length fn < MAX_FILENAME_LEN" "length data \<le> MAX_FILE_SIZE" "length (task_bytes fn data) \<le> plen"
  shows "parse_task (task_bytes fn data @ rest) plen = Some (fn, data)"
proof -
  let ?p = "task_bytes fn data @ rest" and ?n = "length (task_bytes fn data)"
  have "parse_task ?p ?n = Some (fn, data)" by (rule parse_task_bytes [OF assms(1,2)])
  then show ?thesis using assms(3) by (auto simp: parse_task_def Let_def split: if_splits)
qed

section \<open>Accepting\<close>

lemma accept_capacity:
  assumes "kern_ok k"
  shows "accept_iteration load (Acc_Conn a True) k =
    (if unat (load_get_active_tasks load) < MAX_CONCURRENT_TASKS
     then (Acc_Spawn (int (fresh_fd (k_fds k))) (inet_ntop a), k\<lparr>k_fds := fresh_fd (k_fds k) # k_fds k\<rparr>)
     else (Acc_Rejected, k)) \<and> fresh_fd (k_fds k) \<notin> set (k_fds k)"
  using close_fresh(1) [OF assms] fresh_fd_notin
  by (simp add: accept_iteration_def Let_def)

section \<open>An example worker\<close>

text \<open>
  A compiler that rejects the file with the single byte 33 and otherwise writes a binary that
  prints the file and exits with 3.
\<close>

definition finished :: "byte list \<Rightarrow> u32 \<Rightarrow> child" where
  "finished out st = \<lparr>ch_output = (if out = [] then [RxEof] else [RxData out, RxEof]), ch_status = (\<lambda>_. st)\<rparr>"

definition demo_we :: work_env where
  "demo_we = \<lparr>we_pid = 4321, we_fopen = True, we_disk = 1000000, we_pipe = True,
     we_shell = (\<lambda>src. Some (if src = Some [33] then (finished [69] 0x100, None) else (finished [] 0, src))),
     we_exec = (\<lambda>b. Some (finished b 0x300))\<rparr>"

lemma demo_exec:
  "exec_gcc demo_we src = (if src = Some [33] then (finished [69] 0x100, None) else (finished [] 0, src))"
  "exec_binary demo_we bin = (case bin of Some b \<Rightarrow> finished b 0x300 | None \<Rightarrow> finished [] 0x7F00)"
  by (simp_all add: exec_gcc_def exec_binary_def demo_we_def exec_failed_def finished_def split: option.split)

definition idle_worker :: wstate where
  "idle_worker = \<lparr>ws_load = load_init, ws_fs = Map.empty,
     ws_kern = \<lparr>k_fds = [4, 3, 2, 1, 0], k_bound = [], k_listening = [3]\<rparr>\<rparr>"

definition task_conn :: "byte list \<Rightarrow> byte list \<Rightarrow> conn" where
  "task_conn fn data = \<lparr>rx = [RxData (frame MSG_TASK_FILE (task_bytes fn data)), RxEof],
     tx = replicate 60 (TxTake 50), outp = []\<rparr>"

lemma demo_pid: "pid_ok (we_pid demo_we)" "length data \<le> 1000000 \<Longrightarrow> env_ok demo_we data"
  by (simp_all add: pid_ok_def demo_we_def env_ok_def)

lemma demo_child_exit: "child_exit 0x100 = 1" "child_exit 0x300 = 3" "child_exit 0x7F00 = 127" "child_exit 0 = 0"
  by (simp_all add: child_exit_def wifexited_def wexitstatus_def drop_bit_eq_div)

lemma demo_task_reply: "task_reply demo_we [72, 105] old = ([72, 105], 3)" "task_reply demo_we [33] old = ([69], 1)"
  "task_ends demo_we data old"
  by (auto simp: task_reply_def task_ends_def demo_exec finished_def demo_child_exit split: option.split)

lemma task_conn_stream: "stream (task_conn fn data) = frame MSG_TASK_FILE (task_bytes fn data)"
  "room_for (task_conn fn data) k \<longleftrightarrow> k \<le> 60"
  by (simp_all add: task_conn_def room_for_def tx_ok_def tx_takes_def list_all_iff frame_def mem_header_def)

section \<open>Properties\<close>

text \<open>C2: a well-formed task that arrives on a connection is compiled and run, and the
  client is sent the output of the compiler and then of the program, cut into chunks of at most
  \<^verbatim>\<open>OUTPUT_BUF_SIZE\<close> bytes but otherwise complete and in order, followed by one message with the
  exit code: the compiler's when it fails, else the program's.\<close>

theorem task_served:
  assumes "stream c = frame MSG_TASK_FILE (task_bytes fn data) @ rest"
    and "length fn < MAX_FILENAME_LEN" "length data \<le> MAX_FILE_SIZE"
    and "malloc_ok (length (task_bytes fn data) + 1)"
    and "env_ok we data"
    and "task_ends we data (ws_fs s (bin_path (we_pid we)))"
    and "task_reply we data (ws_fs s (bin_path (we_pid we))) = (out, code)"
    and "room_for c (9 * length out + 12)"
  shows "\<exists>c' s' chunks. handle_connection malloc_ok we cfd c s = Some (c', s') \<and> chunks_of chunks out \<and>
    outp c' = outp c @ frames chunks @ frame MSG_TASK_DONE (done_payload (word_of_int code))"
  using handle_task [of c fn data rest malloc_ok we s out code cfd] assms by metis

theorem task_served_witness:
  "\<exists>c' s' chunks. handle_connection (\<lambda>_. True) demo_we 4 (task_conn [97] [72, 105]) idle_worker = Some (c', s') \<and>
     chunks_of chunks [72, 105] \<and> outp c' = frames chunks @ frame MSG_TASK_DONE (done_payload 3)"
  using task_served [of "task_conn [97] [72, 105]" "[97]" "[72, 105]" "[]" "\<lambda>_. True" demo_we idle_worker "[72, 105]" 3 4]
  by (simp add: task_conn_stream demo_task_reply demo_pid limit_defs)
    (simp add: demo_we_def task_conn_def)

text \<open>C27: what the worker makes of failures it does not look at. When the first
  \<^verbatim>\<open>pipe\<close> fails the file is not compiled: whatever binary an earlier task left at the path is run
  and its output and exit code are reported as this task's. When \<^verbatim>\<open>fwrite\<close> stores only a part of
  the file, that part is compiled and answered like a whole file. When the temporary file cannot be
  opened nothing is sent at all.\<close>

theorem unchecked_failures:
  assumes "pid_ok (we_pid we)" "old = ws_fs s (bin_path (we_pid we))"
  shows "(we_fopen we \<and> \<not> we_pipe we \<and> rx_closed (ch_output (exec_binary we old)) \<and>
      room_for c (9 * length (rx_stream (ch_output (exec_binary we old))) + 12) \<longrightarrow>
        (\<exists>c' s' chunks. compile_and_stream we c data s = Some (c', s') \<and>
           chunks_of chunks (rx_stream (ch_output (exec_binary we old))) \<and> outp c' = outp c @ frames chunks @
           frame MSG_TASK_DONE (done_payload (word_of_int (child_exit (ch_status (exec_binary we old) False)))))) \<and>
    (we_fopen we \<and> we_pipe we \<and> task_ends we (take (we_disk we) data) old \<and>
      task_reply we (take (we_disk we) data) old = (out, code) \<and> room_for c (9 * length out + 12) \<longrightarrow>
        (\<exists>c' s' chunks. compile_and_stream we c data s = Some (c', s') \<and> chunks_of chunks out \<and>
           outp c' = outp c @ frames chunks @ frame MSG_TASK_DONE (done_payload (word_of_int code)))) \<and>
    (\<not> we_fopen we \<longrightarrow>
        compile_and_stream we c data s = Some (c, s\<lparr>ws_load := load_task_done (load_task_start (ws_load s))\<rparr>))"
proof (intro conjI impI)
  let ?r = "exec_binary we old"
  let ?s2 = "s\<lparr>ws_load := load_task_start (ws_load s), ws_fs := write_source (we_pid we) (take (we_disk we) data) (ws_fs s)\<rparr>"
  assume f: "we_fopen we \<and> \<not> we_pipe we \<and> rx_closed (ch_output ?r) \<and>
      room_for c (9 * length (rx_stream (ch_output ?r)) + 12)"
  have "run_binary we (ws_fs ?s2) = ?r"
    using paths_differ [OF assms(1)] by (simp add: run_binary_def write_source_def assms(2))
  then obtain c' s' chunks where "run_step we c ?s2 = Some (c', s')" "chunks_of chunks (rx_stream (ch_output ?r))"
    "outp c' = outp c @ frames chunks @ frame MSG_TASK_DONE (done_payload (word_of_int (child_exit (ch_status ?r False))))"
    using run_step_reply [of ?r c we ?s2] f by metis
  moreover have "compile_and_stream we c data s = run_step we c ?s2"
    using f by (simp add: compile_and_stream_def finish_task_def compile_step_def)
  ultimately show "\<exists>c' s' chunks. compile_and_stream we c data s = Some (c', s') \<and>
      chunks_of chunks (rx_stream (ch_output ?r)) \<and> outp c' = outp c @ frames chunks @
      frame MSG_TASK_DONE (done_payload (word_of_int (child_exit (ch_status ?r False))))" by metis
next
  assume "we_fopen we \<and> we_pipe we \<and> task_ends we (take (we_disk we) data) old \<and>
      task_reply we (take (we_disk we) data) old = (out, code) \<and> room_for c (9 * length out + 12)"
  then show "\<exists>c' s' chunks. compile_and_stream we c data s = Some (c', s') \<and> chunks_of chunks out \<and>
      outp c' = outp c @ frames chunks @ frame MSG_TASK_DONE (done_payload (word_of_int code))"
    using compile_and_stream_reply [of we data s out code c] assms by metis
qed (simp add: compile_and_stream_def)

theorem unchecked_failures_witness:
  "(\<exists>c' s' chunks. compile_and_stream (demo_we\<lparr>we_pipe := False\<rparr>) (task_conn [97] [1])
       [72, 105] (idle_worker\<lparr>ws_fs := [bin_path 4321 \<mapsto> [79]]\<rparr>) = Some (c', s') \<and> chunks_of chunks [79] \<and>
       outp c' = frames chunks @ frame MSG_TASK_DONE (done_payload 3)) \<and>
   (\<exists>c' s' chunks. compile_and_stream (demo_we\<lparr>we_disk := 1\<rparr>) (task_conn [97] [1]) [33, 34] idle_worker =
       Some (c', s') \<and> chunks_of chunks [69] \<and> outp c' = frames chunks @ frame MSG_TASK_DONE (done_payload 1))"
proof
  let ?we = "demo_we\<lparr>we_pipe := False\<rparr>" and ?s = "idle_worker\<lparr>ws_fs := [bin_path 4321 \<mapsto> [79]]\<rparr>"
  have "exec_binary ?we (ws_fs ?s (bin_path (we_pid ?we))) = finished [79] 0x300" "we_fopen ?we" "\<not> we_pipe ?we"
    "pid_ok (we_pid ?we)" by (simp_all add: exec_binary_def demo_we_def pid_ok_def)
  then show "\<exists>c' s' chunks. compile_and_stream ?we (task_conn [97] [1]) [72, 105] ?s = Some (c', s') \<and>
      chunks_of chunks [79] \<and> outp c' = frames chunks @ frame MSG_TASK_DONE (done_payload 3)"
    using unchecked_failures [of ?we _ ?s "task_conn [97] [1]" "[72, 105]"]
    by (simp add: finished_def demo_child_exit task_conn_stream) (simp add: task_conn_def)
next
  let ?we = "demo_we\<lparr>we_disk := 1\<rparr>"
  have "task_reply ?we [33] None = ([69], 1)" "task_ends ?we [33] None" "we_fopen ?we" "we_pipe ?we" "pid_ok (we_pid ?we)"
    by (simp_all add: task_reply_def task_ends_def exec_gcc_def exec_binary_def exec_failed_def demo_we_def finished_def demo_child_exit pid_ok_def)
  then show "\<exists>c' s' chunks. compile_and_stream ?we (task_conn [97] [1]) [33, 34] idle_worker =
      Some (c', s') \<and> chunks_of chunks [69] \<and> outp c' = frames chunks @ frame MSG_TASK_DONE (done_payload 1)"
    using unchecked_failures [of ?we None idle_worker "task_conn [97] [1]" "[33, 34]" "[69]" 1]
    by (simp add: idle_worker_def task_conn_stream) (simp add: demo_we_def task_conn_def)
qed

text \<open>C34: \<^verbatim>\<open>stream_and_wait\<close> forwards to the client only what the child wrote, in
  order, and returns the child's exit status; when a send fails the child is killed and what has been
  sent is a proper prefix of the frames.\<close>

theorem stream_faithful:
  assumes "stream_and_wait c ch = Some (code, c')"
  shows "\<exists>killed chunks. code = child_exit (ch_status ch killed) \<and>
    chunks_of chunks (rx_stream (ch_output ch)) \<and> rx c' = rx c \<and>
    (if killed then \<exists>k < length (frames chunks). outp c' = outp c @ take k (frames chunks)
     else outp c' = outp c @ frames chunks)"
proof -
  from assms obtain killed where k: "stream_loop c (ch_output ch) = Some (killed, c')"
    "code = child_exit (ch_status ch killed)"
    by (auto simp: stream_and_wait_def bind_eq_Some_conv)
  from stream_loop_spec [OF k(1)] k(2) show ?thesis by blast
qed

definition slow_child :: child where
  "slow_child = \<lparr>ch_output = [RxEintr, RxData [72, 105], RxEof], ch_status = (\<lambda>k. if k then 9 else 0x300)\<rparr>"

definition client_before :: conn where
  "client_before = \<lparr>rx = [], tx = [TxTake 9, TxTake 9], outp = []\<rparr>"

definition client_after :: conn where
  "client_after = \<lparr>rx = [], tx = [], outp = [7, 0, 0, 0, 0, 2, 0, 0, 72, 105]\<rparr>"

theorem stream_faithful_witness:
  "stream_and_wait client_before slow_child = Some (3, client_after) \<and>
   (\<exists>killed chunks. 3 = child_exit (ch_status slow_child killed) \<and>
      chunks_of chunks (rx_stream (ch_output slow_child)) \<and> rx client_after = rx client_before \<and>
      (if killed then \<exists>k < length (frames chunks). outp client_after = outp client_before @ take k (frames chunks)
       else outp client_after = outp client_before @ frames chunks))"
proof -
  have s: "stream_and_wait client_before slow_child = Some (3, client_after)"
    by (simp add: stream_and_wait_def stream_loop.simps sys_read_def sys_recv.simps OUTPUT_BUF_SIZE_def
        transfer_eval demo_child_exit slow_child_def client_before_def client_after_def)
  from stream_faithful [OF s] s show ?thesis by blast
qed

text \<open>The code the worker reports is between 0 and 255, it survives the
  encoding as a 32-bit network-order integer, and so is never the \<open>-1\<close> by which the
  dispatcher reports its own failures.\<close>

theorem exit_code_unambiguous:
  assumes "stream_and_wait c ch = Some (code, c')"
  shows "0 \<le> code \<and> code \<le> 255 \<and> sint (ntohl (rd32 (done_payload (word_of_int code)))) = code"
proof -
  from assms obtain killed where k: "code = child_exit (ch_status ch killed)"
    by (auto simp: stream_and_wait_def bind_eq_Some_conv)
  have r: "0 \<le> code \<and> code \<le> 255" unfolding k by (rule child_exit_range)
  then have "sint (word_of_int code :: u32) = code"
    by (simp add: signed_of_int signed_take_bit_int_eq_self)
  then show ?thesis using r rd32_done [of "word_of_int code" "[]"] by simp
qed

theorem exit_code_unambiguous_witness:
  "stream_and_wait demo_sender (finished [] 0x300) = Some (3, demo_sender) \<and>
   sint (ntohl (rd32 (done_payload 3))) = 3"
proof -
  have s: "stream_and_wait demo_sender (finished [] 0x300) = Some (3, demo_sender)"
    by (simp add: stream_and_wait_def stream_loop.simps sys_read_def sys_recv.simps finished_def demo_child_exit)
  from exit_code_unambiguous [OF s] s show ?thesis by simp
qed

text \<open>C29: the checks of \<^verbatim>\<open>handle_connection\<close> accept exactly the payloads that begin
  with the image of a file name of fewer than \<^verbatim>\<open>MAX_FILENAME_LEN\<close> bytes and a file of at most
  \<^verbatim>\<open>MAX_FILE_SIZE\<close>, and deliver that name and file; no byte behind the payload is looked at.\<close>

theorem payload_exact:
  assumes "plen \<le> length p"
  shows "parse_task p plen = Some (fn, data) \<longleftrightarrow>
    length fn < MAX_FILENAME_LEN \<and> length data \<le> MAX_FILE_SIZE \<and> (\<exists>rest. take plen p = task_bytes fn data @ rest)"
proof
  assume "parse_task p plen = Some (fn, data)"
  from parse_task_image [OF this assms]
  show "length fn < MAX_FILENAME_LEN \<and> length data \<le> MAX_FILE_SIZE \<and> (\<exists>rest. take plen p = task_bytes fn data @ rest)"
    by blast
next
  assume r: "length fn < MAX_FILENAME_LEN \<and> length data \<le> MAX_FILE_SIZE \<and> (\<exists>rest. take plen p = task_bytes fn data @ rest)"
  then obtain rest where t: "take plen p = task_bytes fn data @ rest" by blast
  have "length (task_bytes fn data) \<le> plen" using arg_cong [OF t, of length] assms by simp
  then have "parse_task (take plen p) plen = Some (fn, data)" unfolding t using r parse_task_longer by blast
  then show "parse_task p plen = Some (fn, data)" using parse_task_inside [OF assms] by simp
qed

theorem payload_exact_witness:
  "parse_task [0, 1, 97, 0, 0, 0, 2, 72, 105, 0] 9 = Some ([97], [72, 105]) \<and>
   parse_task [0, 1, 97, 0, 0, 0, 9, 72, 105, 0] 9 \<noteq> Some ([97], [72, 105])"
  using payload_exact [of 9 "[0, 1, 97, 0, 0, 0, 2, 72, 105, 0]" "[97]" "[72, 105]"]
    payload_exact [of 9 "[0, 1, 97, 0, 0, 0, 9, 72, 105, 0]" "[97]" "[72, 105]"]
  by (simp add: task_bytes_def mem16_def mem32_def htons_def htonl_def rd16_def rd32_def limit_defs)

text \<open>When the handler of a connection ends, however the task went, the
  connection's descriptor is closed and nothing else in the descriptor table has changed, the counter
  of active tasks is back at its value, and of the files only the two temporary ones can differ.\<close>

theorem handler_clean:
  assumes "handle_connection malloc_ok we cfd c s = Some (c', s')"
  shows "ws_kern s' = sys_close cfd (ws_kern s) \<and>
    load_get_active_tasks (ws_load s') = load_get_active_tasks (ws_load s) \<and>
    (load_get_total_tasks (ws_load s') = load_get_total_tasks (ws_load s) \<or>
     load_get_total_tasks (ws_load s') = load_get_total_tasks (ws_load s) + 1) \<and>
    (\<forall>path. path \<noteq> src_path (we_pid we) \<longrightarrow> path \<noteq> bin_path (we_pid we) \<longrightarrow> ws_fs s' path = ws_fs s path)"
  using handle_state [OF assms]
  by (auto simp: tmp_untouched_def load_get_active_tasks_def load_get_total_tasks_def)

theorem handler_clean_witness:
  "handle_connection (\<lambda>_. True) demo_we 4 \<lparr>rx = [RxData [6, 0], RxEof], tx = [], outp = []\<rparr> idle_worker =
     Some (\<lparr>rx = [RxEof], tx = [], outp = []\<rparr>, idle_worker\<lparr>ws_kern := sys_close 4 (ws_kern idle_worker)\<rparr>) \<and>
   4 \<notin> set (k_fds (sys_close 4 (ws_kern idle_worker)))"
proof -
  have h: "handle_connection (\<lambda>_. True) demo_we 4 \<lparr>rx = [RxData [6, 0], RxEof], tx = [], outp = []\<rparr> idle_worker =
     Some (\<lparr>rx = [RxEof], tx = [], outp = []\<rparr>, idle_worker\<lparr>ws_kern := sys_close 4 (ws_kern idle_worker)\<rparr>)"
    by (simp add: handle_connection_def recv_msg_def recv_all_def recv_all_loop.simps sys_recv.simps HDR_SIZE_def)
  from handler_clean [OF h] h show ?thesis by (simp add: sys_close_def idle_worker_def)
qed

end
