(* ===== verification/Main_Node.thy ===== *)
theory Main_Node
  imports Discovery Dispatcher Worker
begin

text \<open>
  \<^verbatim>\<open>main.c\<close>: the load responder, reading a source file, the command loop, the arguments and the
  life of the process from start to shutdown. The commands come from a finite standard input; what
  the files hold, what the network answers to each command and what the discovery threads receive
  between the commands are given by the environment.
\<close>

section \<open>The load responder\<close>

definition RESPONDER_BUF :: nat where "RESPONDER_BUF = HDR_SIZE + 16"

text \<open>
  The counters are read one after the other, so their values may come from different moments
  (\<open>l1\<close> and \<open>l2\<close>). The first number is \<^verbatim>\<open>sysconf\<close>'s answer.
\<close>

definition load_resp_packet :: "loadavg \<Rightarrow> int \<Rightarrow> load_state \<Rightarrow> load_state \<Rightarrow> byte list" where
  "load_resp_packet la n l1 l2 =
     (let resp = \<lparr>lr_load_pct = htonl (f32_bits (load_get_percentage la n)),
                  lr_active_tasks = htonl (load_get_active_tasks l1),
                  lr_total_tasks = htonl (load_get_total_tasks l2),
                  lr_num_cores = htonl (load_get_core_count n)\<rparr>;
          hdr = zero_header\<lparr>h_type := msg_code MSG_LOAD_RESP,
                            h_payload_len := htonl (word_of_nat LOAD_RESP_SIZE)\<rparr>
      in mem_header hdr @ mem_load_resp resp)"

text \<open>One round: the datagram that arrived and its source give the datagram that is sent.\<close>

definition responder_step ::
  "loadavg \<Rightarrow> int \<Rightarrow> load_state \<Rightarrow> load_state \<Rightarrow> sockaddr_in \<Rightarrow> byte list option \<Rightarrow> datagram option" where
  "responder_step la n l1 l2 src data =
     (case data of
        None \<Rightarrow> None
      | Some pkt \<Rightarrow>
          let buf = take RESPONDER_BUF pkt in
          if length buf < HDR_SIZE then None
          else if h_type (rd_header buf) \<noteq> msg_code MSG_LOAD_REQ then None
          else Some \<lparr>dg_dst = src, dg_data = load_resp_packet la n l1 l2\<rparr>)"

record resp_event =
  re_la :: loadavg
  re_ncores :: int
  re_load1 :: load_state
  re_load2 :: load_state
  re_src :: sockaddr_in
  re_data :: "byte list option"

fun responder_run :: "resp_event list \<Rightarrow> datagram list" where
  "responder_run [] = []"
| "responder_run (e # es) =
     (case responder_step (re_la e) (re_ncores e) (re_load1 e) (re_load2 e) (re_src e) (re_data e) of
        None \<Rightarrow> responder_run es
      | Some d \<Rightarrow> d # responder_run es)"

definition load_responder_thread :: "sock_env \<Rightarrow> resp_event list \<Rightarrow> kern \<Rightarrow> datagram list \<times> kern" where
  "load_responder_thread e es k =
     (let (fd, k1) = make_udp_broadcast_socket e (uint DISCOVERY_PORT) k in
      if fd < 0 then ([], k1) else (responder_run es, k1))"

section \<open>Reading a file\<close>

text \<open>An open file: what \<^verbatim>\<open>ftell\<close> says at its end and the bytes that \<^verbatim>\<open>fread\<close> finds.\<close>

record disk_file =
  f_size :: int
  f_data :: "byte list"

datatype read_result = Read_Fopen_Failed | Read_Bad_Size | Read_Failed | Read_Ok "byte list" u32

text \<open>\<^verbatim>\<open>fopen\<close> takes a descriptor, \<^verbatim>\<open>fclose\<close> gives it back.\<close>

definition stdio_open :: "kern \<Rightarrow> nat \<times> kern" where
  "stdio_open k = (let fd = fresh_fd (k_fds k) in (fd, k\<lparr>k_fds := fd # k_fds k\<rparr>))"

definition stdio_close :: "nat \<Rightarrow> kern \<Rightarrow> kern" where
  "stdio_close fd k = k\<lparr>k_fds := removeAll fd (k_fds k)\<rparr>"

definition read_file ::
  "(string \<Rightarrow> disk_file option) \<Rightarrow> (nat \<Rightarrow> bool) \<Rightarrow> string \<Rightarrow> kern \<Rightarrow> read_result \<times> kern" where
  "read_file files malloc_ok path k =
     (case files path of
        None \<Rightarrow> (Read_Fopen_Failed, k)
      | Some f \<Rightarrow>
          let (fd, k1) = stdio_open k; sz = f_size f in
          if sz \<le> 0 \<or> int MAX_FILE_SIZE < sz then (Read_Bad_Size, stdio_close fd k1)
          else if \<not> malloc_ok (nat sz) then (Read_Failed, stdio_close fd k1)
          else
            let data = take (nat sz) (f_data f) in
            if length data \<noteq> nat sz then (Read_Failed, stdio_close fd k1)
            else (Read_Ok data (word_of_int sz), stdio_close fd k1))"

lemma stdio_close_open: "stdio_open k = (fd, k1) \<Longrightarrow> stdio_close fd k1 = k"
  using fresh_fd_notin [of "k_fds k"] by (auto simp: stdio_open_def stdio_close_def Let_def)

lemma read_file_kern: "read_file files malloc_ok path k = (r, k') \<Longrightarrow> k' = k"
  using stdio_close_open by (auto simp: read_file_def Let_def split: option.splits if_splits prod.splits)

section \<open>The command loop\<close>

definition LINE_SIZE :: nat where "LINE_SIZE = MAX_CMD_LEN + 32"

text \<open>\<^verbatim>\<open>fgets\<close>: at most one character less than the buffer, up to and including a newline.\<close>

fun take_line :: "nat \<Rightarrow> string \<Rightarrow> string \<times> string" where
  "take_line 0 s = ([], s)"
| "take_line (Suc n) [] = ([], [])"
| "take_line (Suc n) (c # cs) =
     (if c = CHR 0x0A then ([c], cs)
      else let (l, r) = take_line n cs in (c # l, r))"

definition fgets :: "nat \<Rightarrow> string \<Rightarrow> (string \<times> string) option" where
  "fgets n s = (if s = [] then None else Some (take_line (n - 1) s))"

text \<open>The buffer as a C string ends at its first NUL; then the newline is stripped.\<close>

definition strip_newline :: "string \<Rightarrow> string" where
  "strip_newline buf =
     (let line = takeWhile (\<lambda>c. c \<noteq> CHR 0x00) buf in
      if line \<noteq> [] \<and> last line = CHR 0x0A then butlast line else line)"

datatype command = Cmd_Empty | Cmd_Peers | Cmd_Quit | Cmd_Submit_Usage | Cmd_Submit string | Cmd_Unknown

definition parse_command :: "string \<Rightarrow> command" where
  "parse_command line =
     (if line = [] then Cmd_Empty
      else if line = ''peers'' then Cmd_Peers
      else if line = ''quit'' \<or> line = ''exit'' then Cmd_Quit
      else if take 7 line = ''submit '' then
        (let path = dropWhile (\<lambda>c. c = CHR '' '') (drop 7 line) in
         if path = [] then Cmd_Submit_Usage else Cmd_Submit path)
      else Cmd_Unknown)"

definition basename :: "string \<Rightarrow> string" where
  "basename path = rev (takeWhile (\<lambda>c. c \<noteq> CHR ''/'') (rev path))"

definition make_task :: "string \<Rightarrow> byte list \<Rightarrow> u32 \<Rightarrow> task_t" where
  "make_task path data fsz =
     \<lparr>t_type = TASK_FILE, t_filename = take (MAX_FILENAME_LEN - 1) (basename path),
      t_file_data = data, t_file_size = fsz\<rparr>"

datatype node_out =
    Out_Prompt
  | Out_Peers "peer_row list"
  | Out_Usage
  | Out_Unknown
  | Out_File read_result
  | Out_Begin
  | Out_Dispatch "out_item list"
  | Out_Exit_Code int
  | Out_Shutting_Down

record node =
  nd_running :: bool
  nd_stdin :: string
  nd_peers :: peers
  nd_kern :: kern
  nd_out :: "node_out list"

definition say :: "node_out \<Rightarrow> node \<Rightarrow> node" where
  "say x n = n\<lparr>nd_out := nd_out n @ [x]\<rparr>"

definition on_sigint :: "node \<Rightarrow> node" where
  "on_sigint n = say Out_Shutting_Down (n\<lparr>nd_running := False\<rparr>)"

text \<open>
  What happens around one round of the loop: whether SIGINT came before the test of
  \<^verbatim>\<open>g_running\<close> and whether it came during \<^verbatim>\<open>fgets\<close> (\<^verbatim>\<open>signal\<close> makes the system
  restart the read, so the call goes on waiting for its line), what the listener and the reaper did to the table, the files, the allocator, the
  load that \<^verbatim>\<open>peers\<close> prints and the environment of a dispatch.
\<close>

datatype net_event = Net_Datagram udp_event | Net_Reap int

fun net_step :: "disc \<Rightarrow> net_event \<Rightarrow> peers \<Rightarrow> peers" where
  "net_step d (Net_Datagram e) g = listener_step d (ev_t1 e) (ev_t2 e) (ev_src e) (ev_data e) g"
| "net_step d (Net_Reap now) g = reaper_round now g"

fun net_run :: "disc \<Rightarrow> net_event list \<Rightarrow> peers \<Rightarrow> peers" where
  "net_run d [] g = g"
| "net_run d (e # es) g = net_run d es (net_step d e g)"

record round_env =
  rd_sigint :: bool
  rd_sigint_read :: bool
  rd_events :: "net_event list"
  rd_files :: "string \<Rightarrow> disk_file option"
  rd_malloc :: "nat \<Rightarrow> bool"
  rd_load :: f32
  rd_total :: u32
  rd_disp :: disp_env

text \<open>The commands; \<open>False\<close> in the result ends the loop, \<open>None\<close> is a dispatch that blocks for ever.\<close>

definition run_submit :: "round_env \<Rightarrow> string \<Rightarrow> u16 \<Rightarrow> string \<Rightarrow> node \<Rightarrow> node option" where
  "run_submit e local_ip own_port path n =
     (case read_file (rd_files e) (rd_malloc e) path (nd_kern n) of
        (Read_Ok data fsz, k) \<Rightarrow>
          do { (rc, s) \<leftarrow> dispatch (rd_disp e) (make_task path data fsz) local_ip own_port
                 \<lparr>ds_peers = nd_peers n, ds_kern = k, ds_sent = [], ds_out = []\<rparr>;
               Some (n\<lparr>nd_peers := ds_peers s, nd_kern := ds_kern s,
                       nd_out := nd_out n @ [Out_Begin, Out_Dispatch (ds_out s), Out_Exit_Code rc]\<rparr>) }
      | (failed, k) \<Rightarrow> Some (say (Out_File failed) (n\<lparr>nd_kern := k\<rparr>)))"

lemma run_submit_read:
  obtains (ok) data fsz where "read_file (rd_files e) (rd_malloc e) path (nd_kern n) = (Read_Ok data fsz, nd_kern n)"
    | (failed) r where "run_submit e local_ip own_port path n = Some (say (Out_File r) n)"
proof -
  obtain r k where r: "read_file (rd_files e) (rd_malloc e) path (nd_kern n) = (r, k)" by fastforce
  then have "k = nd_kern n" by (rule read_file_kern)
  with r ok failed show thesis by (cases r) (simp_all add: run_submit_def)
qed

definition run_command ::
  "round_env \<Rightarrow> string \<Rightarrow> u16 \<Rightarrow> command \<Rightarrow> node \<Rightarrow> (bool \<times> node) option" where
  "run_command e local_ip own_port cmd n =
     (case cmd of
        Cmd_Empty \<Rightarrow> Some (True, n)
      | Cmd_Peers \<Rightarrow>
          Some (True, say (Out_Peers (peer_list_print (nd_peers n) local_ip own_port (rd_load e) (rd_total e))) n)
      | Cmd_Quit \<Rightarrow> Some (False, n\<lparr>nd_running := False\<rparr>)
      | Cmd_Submit_Usage \<Rightarrow> Some (True, say Out_Usage n)
      | Cmd_Submit path \<Rightarrow> map_option (Pair True) (run_submit e local_ip own_port path n)
      | Cmd_Unknown \<Rightarrow> Some (True, say Out_Unknown n))"

definition read_prompt :: "round_env \<Rightarrow> node \<Rightarrow> node" where
  "read_prompt e n = (let n1 = say Out_Prompt n in if rd_sigint_read e then on_sigint n1 else n1)"

lemma read_prompt_keeps [simp]:
  "nd_stdin (read_prompt e n) = nd_stdin n" "nd_peers (read_prompt e n) = nd_peers n"
  "nd_kern (read_prompt e n) = nd_kern n"
  by (simp_all add: read_prompt_def on_sigint_def say_def Let_def)

definition repl_step :: "round_env \<Rightarrow> disc \<Rightarrow> string \<Rightarrow> u16 \<Rightarrow> node \<Rightarrow> (bool \<times> node) option" where
  "repl_step e d local_ip own_port n =
     (let n1 = read_prompt e n in
      case fgets LINE_SIZE (nd_stdin n1) of
        None \<Rightarrow> Some (False, n1)
      | Some (buf, rest) \<Rightarrow>
          run_command e local_ip own_port (parse_command (strip_newline buf))
            (n1\<lparr>nd_stdin := rest, nd_peers := net_run d (rd_events e) (nd_peers n1)\<rparr>))"

lemma take_line_rest: "take_line (Suc k) (c # cs) = (l, r) \<Longrightarrow> length r < Suc (length cs)"
proof (induction k arbitrary: c cs l r)
  case (Suc k)
  show ?case
  proof (cases "c = CHR 0x0A \<or> cs = []")
    case True
    then show ?thesis using Suc.prems by (auto split: if_splits)
  next
    case False
    then obtain c' cs' where cs: "cs = c' # cs'" by (cases cs) auto
    obtain l' where "take_line (Suc k) cs = (l', r)" using Suc.prems False by (auto split: prod.splits)
    from Suc.IH [OF this [unfolded cs]] show ?thesis by (simp add: cs)
  qed
qed (auto split: if_splits)

lemma fgets_rest: "fgets LINE_SIZE s = Some (buf, rest) \<Longrightarrow> length rest < length s"
  using take_line_rest [of 4126] by (cases s) (auto simp: fgets_def LINE_SIZE_def MAX_CMD_LEN_def)

lemma run_command_stdin:
  "run_command e local_ip own_port cmd n = Some (go, n') \<Longrightarrow> nd_stdin n' = nd_stdin n"
  by (cases cmd)
    (auto simp: run_command_def run_submit_def say_def bind_eq_Some_conv split: read_result.splits prod.splits)

lemma repl_step_stdin:
  "repl_step e d local_ip own_port n = Some (True, n') \<Longrightarrow> length (nd_stdin n') < length (nd_stdin n)"
  by (auto simp: repl_step_def Let_def dest!: run_command_stdin dest: fgets_rest split: option.splits)

function run_repl :: "(nat \<Rightarrow> round_env) \<Rightarrow> disc \<Rightarrow> string \<Rightarrow> u16 \<Rightarrow> nat \<Rightarrow> node \<Rightarrow> node option" where
  "run_repl es d local_ip own_port i n =
     (let n0 = (if rd_sigint (es i) then on_sigint n else n) in
      if \<not> nd_running n0 then Some n0
      else case repl_step (es i) d local_ip own_port n0 of
        None \<Rightarrow> None
      | Some (go, n1) \<Rightarrow> if go then run_repl es d local_ip own_port (Suc i) n1 else Some n1)"
  by pat_completeness auto
termination
  by (relation "measure (\<lambda>(es, d, ip, p, i, n). length (nd_stdin n))")
    (auto simp: on_sigint_def say_def Let_def dest!: repl_step_stdin split: if_splits)

declare run_repl.simps [simp del]

section \<open>Arguments\<close>

definition is_space :: "char \<Rightarrow> bool" where
  "is_space c \<longleftrightarrow> c = CHR '' '' \<or> (9 \<le> (of_char c :: nat) \<and> (of_char c :: nat) \<le> 13)"

text \<open>
  \<^verbatim>\<open>atoi\<close> as glibc has it: \<^verbatim>\<open>strtol\<close>, which saturates at 64 bits, cut to an \<^verbatim>\<open>int\<close>.
\<close>

definition atoi :: "string \<Rightarrow> int" where
  "atoi s =
     (let t = dropWhile is_space s;
          minus = (t \<noteq> [] \<and> hd t = CHR ''-'');
          u = (if t \<noteq> [] \<and> (hd t = CHR ''-'' \<or> hd t = CHR ''+'') then tl t else t);
          v = int (dec_val (takeWhile is_digit u));
          w = max (- (2 ^ 63)) (min (2 ^ 63 - 1) (if minus then - v else v))
      in sint (word_of_int w :: u32))"

datatype args_result = Args u16 "string option" | Args_Usage "string option"

fun parse_args :: "string list \<Rightarrow> u16 \<Rightarrow> string option \<Rightarrow> args_result" where
  "parse_args [] port iface = Args port iface"
| "parse_args [a] port iface = (if a = ''--help'' then Args_Usage None else Args_Usage (Some a))"
| "parse_args (a # b # rest) port iface =
     (if a = ''--port'' then parse_args rest (word_of_int (atoi b)) iface
      else if a = ''--iface'' then parse_args rest port (Some b)
      else if a = ''--help'' then Args_Usage None
      else Args_Usage (Some a))"

text \<open>The text that \<^verbatim>\<open>usage\<close> writes to stderr before it exits, after the unknown argument if there is one.\<close>

definition usage :: "string \<Rightarrow> string" where
  "usage prog =
     ''Usage: '' @ prog @ '' [--port <N>] [--iface <name>]'' @ [CHR 0x0A] @
     ''  --port  <N>    TCP worker port (default: '' @ dec (unat DEFAULT_WORKER_PORT) @ '')'' @ [CHR 0x0A] @
     ''  --iface <name> Network interface for IP detection (default: auto)'' @ [CHR 0x0A]"

definition unknown_argument :: "string option \<Rightarrow> string" where
  "unknown_argument a = (case a of None \<Rightarrow> [] | Some x \<Rightarrow> ''Unknown argument: '' @ x @ [CHR 0x0A])"

section \<open>The life of a node\<close>

text \<open>The seconds \<^verbatim>\<open>main\<close> sleeps between starting its threads and the first prompt.\<close>

definition START_PAUSE :: int where "START_PAUSE = 2"

record node_env =
  ne_argv0 :: string
  ne_ifs :: "ifaddr list option"
  ne_server :: sock_env
  ne_bcast :: sock_env
  ne_host :: string
  ne_rounds :: "nat \<Rightarrow> round_env"
  ne_stdin :: string
  ne_kern :: kern

text \<open>How the process ends, with the threads it had started and the datagrams of the farewell.\<close>

datatype node_end =
    Exit_Usage string
  | Exit_Failure
  | Exit_Ok "thread list" disc node "datagram list"

definition local_ip_of :: "ifaddr list option \<Rightarrow> string option \<Rightarrow> string" where
  "local_ip_of ifap iface =
     (let (r, ip) = get_local_ip ifap iface in
      if r < 0 then ''127.0.0.1'' else (case ip of Some a \<Rightarrow> a | None \<Rightarrow> ''127.0.0.1''))"

definition node_start :: "node_env \<Rightarrow> u16 \<Rightarrow> string option \<Rightarrow> (thread list \<times> disc \<times> node) option" where
  "node_start e port iface =
     (let local_ip = local_ip_of (ne_ifs e) iface; g = peer_list_init in
      do { (k1, ts1) \<leftarrow> worker_start (ne_server e) port (ne_kern e);
           (d, k2, ts2) \<leftarrow> discovery_start (ne_bcast e) port local_ip k1;
           Some (ts1 @ ts2 @ [LoadResponder], d,
             \<lparr>nd_running = True, nd_stdin = ne_stdin e, nd_peers = g, nd_kern = k2, nd_out = []\<rparr>) })"

definition node_main :: "node_env \<Rightarrow> string list \<Rightarrow> node_end option" where
  "node_main e args =
     (case parse_args args DEFAULT_WORKER_PORT None of
        Args_Usage a \<Rightarrow> Some (Exit_Usage (unknown_argument a @ usage (ne_argv0 e)))
      | Args port iface \<Rightarrow>
          (case node_start e port iface of
             None \<Rightarrow> Some Exit_Failure
           | Some (ts, d, n) \<Rightarrow>
               map_option (\<lambda>n'. Exit_Ok ts d n' (discovery_send_bye (ne_host e) d))
                 (run_repl (ne_rounds e) d (local_ip_of (ne_ifs e) iface) port 0 n)))"

text \<open>An option without its value is taken for an unknown argument, and nothing is started.\<close>

lemma node_main_rejects:
  assumes "a \<noteq> ''--help''"
  shows "node_main e [a] = Some (Exit_Usage (''Unknown argument: '' @ a @ [CHR 0x0A] @ usage (ne_argv0 e)))"
  using assms by (simp add: node_main_def unknown_argument_def)

section \<open>The discovery threads between commands\<close>

lemma net_step_table:
  assumes "peers_ok g"
  shows "peers_ok (net_step d e g)" "lookup g (g_local_ip d) = None \<Longrightarrow> lookup (net_step d e g) (g_local_ip d) = None"
  using assms
  by (cases e; simp add: listener_step_ok reaper_round_def reg.ok_reap listener_step_self reg.look_reap)+

lemma net_run_table:
  "peers_ok g \<Longrightarrow> peers_ok (net_run d es g) \<and>
     (lookup g (g_local_ip d) = None \<longrightarrow> lookup (net_run d es g) (g_local_ip d) = None)"
proof (induction es arbitrary: g)
  case (Cons e es)
  from Cons.IH [OF net_step_table(1) [OF Cons.prems]] net_step_table(2) [OF Cons.prems] show ?case by simp
qed simp

section \<open>What every command keeps\<close>

definition node_ok :: "disc \<Rightarrow> kern \<Rightarrow> node \<Rightarrow> bool" where
  "node_ok d k n \<longleftrightarrow> peers_ok (nd_peers n) \<and> lookup (nd_peers n) (g_local_ip d) = None \<and> nd_kern n = k"

lemma node_ok_say [simp]: "node_ok d k (say x n) = node_ok d k n"
  by (simp add: node_ok_def say_def)

lemma node_ok_ctl [simp]:
  "node_ok d k (n\<lparr>nd_running := b\<rparr>) = node_ok d k n" "node_ok d k (n\<lparr>nd_stdin := inp\<rparr>) = node_ok d k n"
  "node_ok d k (on_sigint n) = node_ok d k n"
  by (simp_all add: node_ok_def on_sigint_def say_def)

lemma run_submit_ok:
  assumes "run_submit e local_ip own_port path n = Some n'" "node_ok d k n" "kern_ok k"
  shows "node_ok d k n'"
proof (rule run_submit_read [where e = e and path = path and n = n and local_ip = local_ip and own_port = own_port])
  fix data fsz assume ok: "read_file (rd_files e) (rd_malloc e) path (nd_kern n) = (Read_Ok data fsz, nd_kern n)"
  define s0 where "s0 = \<lparr>ds_peers = nd_peers n, ds_kern = nd_kern n, ds_sent = [], ds_out = []\<rparr>"
  from assms(1) ok obtain rc s where
    s: "dispatch (rd_disp e) (make_task path data fsz) local_ip own_port s0 = Some (rc, s)"
    and n': "nd_peers n' = ds_peers s" "nd_kern n' = ds_kern s"
    by (auto simp: run_submit_def s0_def bind_eq_Some_conv)
  have "lookup (nd_peers n) (g_local_ip d) = None" "peers_ok (ds_peers s0)" "kern_ok (ds_kern s0)" "ds_kern s0 = k"
    using assms(2,3) by (simp_all add: node_ok_def s0_def)
  then show ?thesis
    using dispatch_state [OF s] n' by (auto simp: node_ok_def s0_def domIff)
qed (use assms in simp)

lemma run_command_ok:
  assumes "run_command e local_ip own_port cmd n = Some (go, n')" "node_ok d k n" "kern_ok k"
  shows "node_ok d k n'"
  using assms run_submit_ok [of e local_ip own_port _ n _ d k]
  by (cases cmd) (auto simp: run_command_def)

lemma repl_step_ok:
  assumes "repl_step e d local_ip own_port n = Some (go, n')" "node_ok d k n" "kern_ok k"
  shows "node_ok d k n'"
proof (cases "fgets LINE_SIZE (nd_stdin n)")
  case None
  then show ?thesis using assms by (auto simp: repl_step_def Let_def node_ok_def)
next
  case (Some x)
  obtain buf rest where x: "x = (buf, rest)" by (cases x)
  let ?n = "(read_prompt e n)\<lparr>nd_stdin := rest, nd_peers := net_run d (rd_events e) (nd_peers n)\<rparr>"
  have "run_command e local_ip own_port (parse_command (strip_newline buf)) ?n = Some (go, n')"
    using assms(1) Some x by (simp add: repl_step_def)
  moreover have "node_ok d k ?n"
    using assms(2) net_run_table [of "nd_peers n" d "rd_events e"] by (simp add: node_ok_def)
  ultimately show ?thesis using run_command_ok assms(3) by blast
qed

lemma run_repl_ok:
  "run_repl es d local_ip own_port i n = Some n' \<Longrightarrow> node_ok d k n \<Longrightarrow> kern_ok k \<Longrightarrow> node_ok d k n'"
proof (induction es d local_ip own_port i n rule: run_repl.induct)
  case (1 es d local_ip own_port i n)
  define n0 where "n0 = (if rd_sigint (es i) then on_sigint n else n)"
  have ok: "node_ok d k n0" using 1(3) by (simp add: n0_def)
  note unf = run_repl.simps [of es d local_ip own_port i n, unfolded Let_def, folded n0_def]
  show ?case
  proof (cases "nd_running n0")
    case False
    then show ?thesis using 1(2) ok by (simp add: unf)
  next
    case True
    with 1(2) obtain go n1 where s: "repl_step (es i) d local_ip own_port n0 = Some (go, n1)"
      by (auto simp: unf split: option.splits)
    have ok1: "node_ok d k n1" using repl_step_ok [OF s ok 1(4)] .
    show ?thesis
    proof (cases go)
      case False
      then show ?thesis using 1(2) True s ok1 by (simp add: unf)
    next
      case go: True
      then have "run_repl es d local_ip own_port (Suc i) n1 = Some n'" using 1(2) True s by (simp add: unf)
      from 1(1) [OF n0_def _ s refl go this ok1 1(4)] True show ?thesis by simp
    qed
  qed
qed

section \<open>A session ends\<close>

lemma run_command_returns:
  assumes "\<And>task s. dispatch (rd_disp e) task local_ip own_port s \<noteq> None"
  shows "run_command e local_ip own_port cmd n \<noteq> None"
proof -
  have "run_submit e local_ip own_port path n \<noteq> None" for path
  proof (rule run_submit_read [where e = e and path = path and n = n and local_ip = local_ip and own_port = own_port])
    fix data fsz assume ok: "read_file (rd_files e) (rd_malloc e) path (nd_kern n) = (Read_Ok data fsz, nd_kern n)"
    obtain rc s where "dispatch (rd_disp e) (make_task path data fsz) local_ip own_port
        \<lparr>ds_peers = nd_peers n, ds_kern = nd_kern n, ds_sent = [], ds_out = []\<rparr> = Some (rc, s)"
      using assms by fastforce
    then show ?thesis using ok by (simp add: run_submit_def)
  qed simp
  then show ?thesis by (cases cmd) (auto simp: run_command_def)
qed

lemma run_repl_returns:
  "(\<And>j task s. dispatch (rd_disp (es j)) task local_ip own_port s \<noteq> None) \<Longrightarrow>
     run_repl es d local_ip own_port i n \<noteq> None"
proof (induction es d local_ip own_port i n rule: run_repl.induct)
  case (1 es d local_ip own_port i n)
  define n0 where "n0 = (if rd_sigint (es i) then on_sigint n else n)"
  note unf = run_repl.simps [of es d local_ip own_port i n, unfolded Let_def, folded n0_def]
  show ?case
  proof (cases "nd_running n0")
    case True
    have "repl_step (es i) d local_ip own_port n0 \<noteq> None"
      using run_command_returns [OF 1(2)] by (auto simp: repl_step_def Let_def split: option.splits)
    then obtain go n1 where s: "repl_step (es i) d local_ip own_port n0 = Some (go, n1)" by auto
    show ?thesis
    proof (cases go)
      case go: True
      have "run_repl es d local_ip own_port (Suc i) n1 \<noteq> None"
        by (rule 1(1) [OF n0_def _ s refl go 1(2)]) (use True in simp)
      then show ?thesis using True s go by (simp add: unf)
    qed (use True s in \<open>simp add: unf\<close>)
  qed (simp add: unf)
qed

section \<open>Lines and arguments\<close>

lemma take_line_nl: "CHR 0x0A \<notin> set l \<Longrightarrow> length l < n \<Longrightarrow> take_line n (l @ CHR 0x0A # rest) = (l @ [CHR 0x0A], rest)"
proof (induction l arbitrary: n)
  case Nil
  then show ?case by (cases n) auto
next
  case (Cons c l)
  then show ?case by (cases n) auto
qed

lemma fgets_line:
  assumes "CHR 0x0A \<notin> set l" "CHR 0x00 \<notin> set l" "length l + 1 < LINE_SIZE"
  shows "fgets LINE_SIZE (l @ CHR 0x0A # rest) = Some (l @ [CHR 0x0A], rest)"
    "strip_newline (l @ [CHR 0x0A]) = l"
proof -
  show "fgets LINE_SIZE (l @ CHR 0x0A # rest) = Some (l @ [CHR 0x0A], rest)"
    using take_line_nl [OF assms(1), of "LINE_SIZE - 1" rest] assms(3) by (simp add: fgets_def)
  have "takeWhile (\<lambda>c. c \<noteq> CHR 0x00) (l @ [CHR 0x0A]) = l @ [CHR 0x0A]"
    using assms(2) by (intro takeWhile_eq_all_conv [THEN iffD2]) auto
  then show "strip_newline (l @ [CHR 0x0A]) = l" by (simp add: strip_newline_def)
qed

lemma atoi_dec: "n < 2 ^ 31 \<Longrightarrow> atoi (dec n) = int n"
proof -
  assume n: "n < 2 ^ 31"
  have digits: "\<forall>c \<in> set (dec n). is_digit c" by (rule dec_digits)
  have hd: "is_digit (hd (dec n))" using digits by simp
  then have "\<not> is_space (hd (dec n))" "hd (dec n) \<noteq> CHR ''-''" "hd (dec n) \<noteq> CHR ''+''"
    by (auto simp: is_digit_def is_space_def)
  then have d: "dropWhile is_space (dec n) = dec n" and h: "hd (dec n) \<noteq> CHR ''-''" "hd (dec n) \<noteq> CHR ''+''"
    by (cases "dec n"; simp)+
  have t: "takeWhile is_digit (dec n) = dec n" using digits by simp
  have w: "sint (word_of_int (int n) :: u32) = int n"
    using n by (simp add: signed_of_int signed_take_bit_int_eq_self del: of_int_of_nat_eq)
  have "max (- (2 ^ 63)) (min (2 ^ 63 - 1) (int n)) = int n" using n by simp
  then show ?thesis by (simp add: atoi_def Let_def d h t w del: of_int_of_nat_eq)
qed

section \<open>The start\<close>

lemma local_ip_short: "length (local_ip_of ifap iface) < INET_ADDRSTRLEN"
proof -
  have "length ip < INET_ADDRSTRLEN" if "iface_pass i ifs = Some ip" for i ifs ip
    using iface_pass_Some [OF that] length_inet_ntop by auto
  then show ?thesis
    by (auto simp: local_ip_of_def get_local_ip_def INET_ADDRSTRLEN_def split: option.splits)
qed

lemma node_start_ok:
  assumes "node_start e port iface = Some (ts, d, n)" "kern_ok (ne_kern e)"
  obtains sfd where "node_ok d (nd_kern n) n" "kern_ok (nd_kern n)" "0 \<le> g_bcast_fd d"
    "g_local_ip d = local_ip_of (ne_ifs e) iface" "g_own_port d = port"
    "ts = [AcceptLoop sfd, Announcer, Listener, Reaper, LoadResponder]"
    "k_fds (nd_kern n) = nat (g_bcast_fd d) # nat sfd # k_fds (ne_kern e)"
proof -
  obtain sfd k1 where s: "make_tcp_server (ne_server e) (uint port) (ne_kern e) = (sfd, k1)" by fastforce
  obtain bfd k2 where b: "make_udp_broadcast_socket (ne_bcast e) 0 k1 = (bfd, k2)" by fastforce
  have r: "0 \<le> sfd" "0 \<le> bfd" "ts = [AcceptLoop sfd, Announcer, Listener, Reaper, LoadResponder]"
    "d = \<lparr>g_own_port = port, g_local_ip = take (INET_ADDRSTRLEN - 1) (local_ip_of (ne_ifs e) iface), g_bcast_fd = bfd\<rparr>"
    "nd_peers n = peer_list_init" "nd_kern n = k2"
    using assms(1) s b
    by (auto simp: node_start_def worker_start_def discovery_start_def Let_def bind_eq_Some_conv split: if_splits)
  from make_tcp_contract [OF assms(2), of "ne_server e" "uint port"] s r(1)
  have k1: "kern_ok k1" "k_fds k1 = nat sfd # k_fds (ne_kern e)" by (auto simp: fd_contract_def)
  from make_udp_contract [OF k1(1), of "ne_bcast e" 0] b r(2)
  have k2: "kern_ok k2" "k_fds k2 = nat bfd # k_fds k1" by (auto simp: fd_contract_def)
  have ip: "g_local_ip d = local_ip_of (ne_ifs e) iface" using r(4) take_ip [OF local_ip_short] by simp
  show ?thesis
    by (rule that [of sfd])
      (use r k1 k2 ip in \<open>simp_all add: node_ok_def lookup_init peers_ok_init\<close>)
qed

section \<open>Properties\<close>

text \<open>C7: a node that runs from its start to its regular end, through any commands and
  any datagrams, ends with a well-formed peer table that never took in the node itself. Of the
  descriptors its main thread opened only the server's and the broadcast socket are left, every one of
  its dispatches is closed. It started the five threads and its last act is a broadcast BYE.\<close>

theorem session_safe:
  assumes "node_main e args = Some (Exit_Ok ts d n bye)" "kern_ok (ne_kern e)"
  shows "peers_ok (nd_peers n) \<and> lookup (nd_peers n) (g_local_ip d) = None \<and>
    (\<exists>sfd. ts = [AcceptLoop sfd, Announcer, Listener, Reaper, LoadResponder] \<and>
       k_fds (nd_kern n) = nat (g_bcast_fd d) # nat sfd # k_fds (ne_kern e)) \<and>
    map dg_data bye = [hello_packet (ne_host e) d MSG_BYE]"
proof -
  obtain port iface where a: "parse_args args DEFAULT_WORKER_PORT None = Args port iface"
    using assms(1) by (auto simp: node_main_def split: args_result.splits)
  with assms(1) obtain n0 where s: "node_start e port iface = Some (ts, d, n0)"
    and r: "run_repl (ne_rounds e) d (local_ip_of (ne_ifs e) iface) port 0 n0 = Some n"
    and b: "bye = discovery_send_bye (ne_host e) d"
    by (auto simp: node_main_def split: option.splits)
  from node_start_ok [OF s assms(2)] obtain sfd where o: "node_ok d (nd_kern n0) n0" "kern_ok (nd_kern n0)"
    "0 \<le> g_bcast_fd d" "ts = [AcceptLoop sfd, Announcer, Listener, Reaper, LoadResponder]"
    "k_fds (nd_kern n0) = nat (g_bcast_fd d) # nat sfd # k_fds (ne_kern e)" by metis
  have "node_ok d (nd_kern n0) n" by (rule run_repl_ok [OF r o(1,2)])
  then show ?thesis using o b
    by (simp add: node_ok_def discovery_send_bye_def send_broadcast_def)
qed

definition quiet_round :: round_env where
  "quiet_round = \<lparr>rd_sigint = False, rd_sigint_read = False, rd_events = [], rd_files = Map.empty, rd_malloc = (\<lambda>_. True),
     rd_load = f32_of_nat 0, rd_total = 0,
     rd_disp = demo_env\<lparr>de_connect1 := no_route, de_connect2 := no_route\<rparr>\<rparr>"

definition demo_node :: node_env where
  "demo_node = \<lparr>ne_argv0 = ''./p2p_node'', ne_ifs = None, ne_server = all_ok, ne_bcast = all_ok, ne_host = ''alice'',
     ne_rounds = (\<lambda>_. quiet_round), ne_stdin = ''quit'' @ [CHR 0x0A], ne_kern = \<lparr>k_fds = [2, 1, 0], k_bound = [], k_listening = []\<rparr>\<rparr>"

lemma demo_quit: "fgets LINE_SIZE (''quit'' @ [CHR 0x0A]) = Some (''quit'' @ [CHR 0x0A], [])"
    "strip_newline (''quit'' @ [CHR 0x0A]) = ''quit''" "parse_command ''quit'' = Cmd_Quit"
  using fgets_line(1) [of "''quit''" "[]"] fgets_line(2) [of "''quit''"] by (simp_all add: LINE_SIZE_def MAX_CMD_LEN_def parse_command_def)

lemma demo_fds: "fresh_fd [2, Suc 0, 0] = 3" "fresh_fd [3, 2, Suc 0, 0] = 4"
  by (simp_all add: fresh_fd_def upt_rec)

theorem session_safe_witness:
  "\<exists>ts d n bye. node_main demo_node [] = Some (Exit_Ok ts d n bye) \<and> k_fds (nd_kern n) = [4, 3, 2, 1, 0] \<and>
     lookup (nd_peers n) ''127.0.0.1'' = None"
proof -
  have k: "kern_ok (ne_kern demo_node)" by (simp add: kern_ok_def demo_node_def)
  obtain ts d n bye where r: "node_main demo_node [] = Some (Exit_Ok ts d n bye)"
    "k_fds (nd_kern n) = [4, 3, 2, 1, 0]" "g_local_ip d = ''127.0.0.1''"
    using demo_quit
    by (simp add: node_main_def node_start_def worker_start_def discovery_start_def make_tcp_server_def
        make_udp_broadcast_socket_def socket_defs demo_node_def all_ok_def run_repl.simps repl_step_def read_prompt_def say_def
        run_command_def quiet_round_def local_ip_of_def get_local_ip_def demo_fds INET_ADDRSTRLEN_def)
  from session_safe [OF r(1) k] r show ?thesis by auto
qed

text \<open>C37: the command loop reads at most its input: it always comes to an end unless a
  dispatch itself blocks for ever.\<close>

theorem session_ends:
  assumes "\<forall>j task s. dispatch (rd_disp (es j)) task local_ip own_port s \<noteq> None"
  shows "\<exists>n'. run_repl es d local_ip own_port i n = Some n'"
  using run_repl_returns [of es local_ip own_port d i n] assms by auto

theorem session_ends_witness:
  "\<exists>n'. run_repl (\<lambda>_. quiet_round) node_a ''10.0.0.1'' 7777 0
     \<lparr>nd_running = True, nd_stdin = ''submit a.c'' @ [CHR 0x0A] @ ''peers'', nd_peers = peer_list_init,
      nd_kern = ws_kern idle_worker, nd_out = []\<rparr> = Some n'"
proof (rule session_ends, intro allI)
  fix j task s
  have "\<forall>a. \<not> se_connect (de_connect1 (rd_disp quiet_round)) a" "\<forall>a. \<not> se_connect (de_connect2 (rd_disp quiet_round)) a"
    by (simp_all add: quiet_round_def no_route_def all_ok_def)
  from dispatch_nowhere [OF this, of task "''10.0.0.1''" 7777 s]
  show "dispatch (rd_disp quiet_round) task ''10.0.0.1'' 7777 s \<noteq> None" by auto
qed

lemma run_command_stopped:
  "run_command e local_ip own_port cmd n = Some (go, n') \<Longrightarrow> \<not> nd_running n \<Longrightarrow> \<not> nd_running n'"
  by (cases cmd)
    (auto simp: run_command_def run_submit_def say_def bind_eq_Some_conv split: read_result.splits prod.splits)

lemma run_repl_stopped:
  "\<not> nd_running n \<Longrightarrow> run_repl es d local_ip own_port i n = Some (if rd_sigint (es i) then on_sigint n else n)"
  by (subst run_repl.simps) (simp add: Let_def on_sigint_def say_def)

text \<open>C18: a line that fits the buffer is executed as one command and the rest of the input
  is left for the next round; \<^verbatim>\<open>quit\<close> ends the session with nothing after it executed. SIGINT
  before the prompt ends the loop without a command, but SIGINT while the shell waits for its line
  does not: the line is still read and executed, a task dispatched, and only then the loop ends.\<close>

theorem repl_obeys:
  assumes "CHR 0x0A \<notin> set line" "CHR 0x00 \<notin> set line" "length line + 1 < LINE_SIZE"
    and "nd_stdin n = line @ CHR 0x0A # rest" "nd_running n"
    and "n0 = (read_prompt (es i) n)\<lparr>nd_stdin := rest, nd_peers := net_run d (rd_events (es i)) (nd_peers n)\<rparr>"
    and "res = run_command (es i) local_ip own_port (parse_command line) n0"
  shows "run_repl es d local_ip own_port i n =
    (if rd_sigint (es i) then Some (on_sigint n)
     else case res of
       None \<Rightarrow> None
     | Some (go, n1) \<Rightarrow> if go then run_repl es d local_ip own_port (Suc i) n1 else Some n1) \<and>
   (\<not> rd_sigint (es i) \<and> line \<in> {''quit'', ''exit''} \<longrightarrow>
      run_repl es d local_ip own_port i n = Some (n0\<lparr>nd_running := False\<rparr>)) \<and>
   (\<not> rd_sigint (es i) \<and> rd_sigint_read (es i) \<longrightarrow>
      run_repl es d local_ip own_port i n =
        map_option (\<lambda>(go, n1). if go \<and> rd_sigint (es (Suc i)) then on_sigint n1 else n1) res)"
proof -
  note fg = fgets_line(1) [OF assms(1-3), of rest] fgets_line(2) [OF assms(1-3)]
  have first: "run_repl es d local_ip own_port i n =
    (if rd_sigint (es i) then Some (on_sigint n)
     else case res of
       None \<Rightarrow> None
     | Some (go, n1) \<Rightarrow> if go then run_repl es d local_ip own_port (Suc i) n1 else Some n1)"
    using fg assms(4,5)
    by (subst run_repl.simps) (auto simp: Let_def on_sigint_def say_def repl_step_def assms(6,7))
  moreover have "parse_command line = Cmd_Quit" if "line \<in> {''quit'', ''exit''}"
    using that by (auto simp: parse_command_def)
  moreover have "\<not> nd_running n1" if "rd_sigint_read (es i)" "res = Some (go, n1)" for go n1
    using that run_command_stopped [of "es i" local_ip own_port "parse_command line" n0 go n1]
    by (simp add: assms(6,7) read_prompt_def on_sigint_def say_def)
  ultimately show ?thesis
    by (auto simp: assms(7) run_command_def run_repl_stopped split: option.split)
qed

definition waiting_node :: node where
  "waiting_node = \<lparr>nd_running = True, nd_stdin = ''submit a.c'' @ CHR 0x0A # ''peers'', nd_peers = peer_list_init,
     nd_kern = ws_kern idle_worker, nd_out = []\<rparr>"

text \<open>Ctrl-C at the prompt, then a line: the submit is tried before the shell ends.\<close>

theorem repl_obeys_witness:
  "\<exists>n1. run_repl (\<lambda>_. quiet_round\<lparr>rd_sigint_read := True\<rparr>) node_a ''10.0.0.1'' 7777 0 waiting_node = Some n1 \<and>
     nd_stdin n1 = ''peers'' \<and> nd_out n1 = [Out_Prompt, Out_Shutting_Down, Out_File Read_Fopen_Failed]"
proof -
  let ?e = "quiet_round\<lparr>rd_sigint_read := True\<rparr>"
  have "nd_stdin waiting_node = ''submit a.c'' @ CHR 0x0A # ''peers''" "nd_running waiting_node" "nd_out waiting_node = []"
    by (simp_all add: waiting_node_def)
  moreover have "\<not> rd_sigint ?e" "rd_sigint_read ?e" "rd_files ?e ''a.c'' = None" by (simp_all add: quiet_round_def)
  moreover have "length ''submit a.c'' + 1 < LINE_SIZE" by (simp add: LINE_SIZE_def MAX_CMD_LEN_def)
  moreover have "parse_command ''submit a.c'' = Cmd_Submit ''a.c''" by (simp add: parse_command_def)
  ultimately show ?thesis
    using conjunct2 [OF conjunct2 [OF repl_obeys [of "''submit a.c''" waiting_node "''peers''" _ node_a "\<lambda>_. ?e" 0 _ "''10.0.0.1''" 7777, OF _ _ _ _ _ refl refl]]]
    by (simp add: run_command_def run_submit_def read_file_def read_prompt_def on_sigint_def say_def)
qed

text \<open>C38: every task the shell builds from \<^verbatim>\<open>submit\<close> meets the limits the
  worker checks: the name is the last component of the path cut to fit its field, the file is not empty
  and not larger than \<^verbatim>\<open>MAX_FILE_SIZE\<close>, and the size field is its exact length. The file is closed again.\<close>

theorem submit_within_limits:
  assumes "read_file files malloc_ok path k = (Read_Ok data fsz, k')"
  shows "k' = k \<and> length (t_filename (make_task path data fsz)) < MAX_FILENAME_LEN \<and>
    CHR ''/'' \<notin> set (t_filename (make_task path data fsz)) \<and>
    0 < length data \<and> length data \<le> MAX_FILE_SIZE \<and> unat (t_file_size (make_task path data fsz)) = length data \<and>
    (\<exists>f. files path = Some f \<and> f_size f = int (length data) \<and> data = take (length data) (f_data f))"
proof -
  from assms obtain f where f: "files path = Some f" "0 < f_size f" "f_size f \<le> int MAX_FILE_SIZE"
    "data = take (nat (f_size f)) (f_data f)" "length data = nat (f_size f)" "fsz = word_of_int (f_size f)"
    by (auto simp: read_file_def Let_def split: option.splits if_splits prod.splits)
  have l: "f_size f = int (length data)" "0 < length data" "length data \<le> MAX_FILE_SIZE"
    using f(2,3,5) by simp_all
  have d: "data = take (length data) (f_data f)" using f(4,5) by metis
  from l have un: "unat fsz = length data"
    using unat_of_nat_u32 [of "length data"] f(6) by (simp add: MAX_FILE_SIZE_def)
  have slash: "CHR ''/'' \<notin> set (t_filename (make_task path data fsz))"
    by (auto simp: make_task_def basename_def dest!: in_set_takeD set_takeWhileD)
  have "t_file_size (make_task path data fsz) = fsz" "length (t_filename (make_task path data fsz)) < MAX_FILENAME_LEN"
    by (simp_all add: make_task_def MAX_FILENAME_LEN_def)
  then show ?thesis using slash un l(2,3) f(1) l(1) d read_file_kern [OF assms] by metis
qed

theorem submit_within_limits_witness:
  "read_file [''src/a.c'' \<mapsto> \<lparr>f_size = 2, f_data = [72, 105]\<rparr>] (\<lambda>_. True) ''src/a.c'' three_open =
     (Read_Ok [72, 105] 2, three_open) \<and>
   CHR ''/'' \<notin> set (t_filename (make_task ''src/a.c'' [72, 105] 2)) \<and> basename ''src/a.c'' = ''a.c''"
proof -
  have f: "fresh_fd [2, Suc 0, 0] = 3" by (simp add: fresh_fd_def upt_rec)
  have r: "read_file [''src/a.c'' \<mapsto> \<lparr>f_size = 2, f_data = [72, 105]\<rparr>] (\<lambda>_. True) ''src/a.c'' three_open =
      (Read_Ok [72, 105] 2, three_open)"
    by (simp add: read_file_def MAX_FILE_SIZE_def stdio_open_def stdio_close_def three_open_def f)
  from submit_within_limits [OF r] r show ?thesis by (simp add: basename_def)
qed

text \<open>\<^verbatim>\<open>--port N\<close> is not checked: the node listens on and announces
  \<open>N mod 65536\<close>, so a port that is out of range is silently replaced by another one.\<close>

theorem port_argument_wraps:
  assumes "n < 2 ^ 31"
  shows "\<exists>port. parse_args [''--port'', dec n] p0 None = Args port None \<and> unat port = n mod 65536"
proof -
  have "unat (word_of_int (int n) :: u16) = n mod 65536" by (simp add: unat_of_nat)
  then show ?thesis by (simp add: atoi_dec [OF assms] del: of_int_of_nat_eq)
qed

theorem port_argument_wraps_witness:
  "\<exists>port. parse_args [''--port'', dec 70000] DEFAULT_WORKER_PORT None = Args port None \<and> unat port = 4464"
  using port_argument_wraps [of 70000 DEFAULT_WORKER_PORT] by simp

end
