(* ===== verification/Node_System.thy ===== *)
theory Node_System
  imports Main_Node "HOL-Library.Multiset"
begin

text \<open>
  Properties that span the components: a task from the dispatcher of one node through the worker of
  another and back, the load query between two nodes, the peer table under the steps of all threads in
  any order, the timing of heartbeats and reaping, the pool of task handlers as a transition system,
  and two tasks that run in one worker process at the same time.
\<close>

section \<open>A task from node to node\<close>

lemma task_payload_bytes:
  assumes "t_file_size task = word_of_nat (length (t_file_data task))"
    and "length (t_filename task) < MAX_FILENAME_LEN" "length (t_file_data task) \<le> MAX_FILE_SIZE"
  shows "task_payload task = task_bytes (bytes_of (t_filename task)) (t_file_data task)"
proof -
  have "unat (word_of_nat (length (t_filename task)) :: u16) = length (t_filename task)"
    using assms(2) by (simp add: unat_of_nat MAX_FILENAME_LEN_def)
  moreover have "unat (t_file_size task) = length (t_file_data task)"
    using assms(1,3) unat_of_nat_u32 [of "length (t_file_data task)"] by (simp add: MAX_FILE_SIZE_def)
  ultimately show ?thesis by (simp add: task_payload_def task_bytes_def Let_def assms(1))
qed

lemma task_reply_code: "task_reply we data old = (out, code) \<Longrightarrow> sint (word_of_int code :: u32) = code"
proof -
  assume r: "task_reply we data old = (out, code)"
  have "\<exists>st. code = child_exit st"
    using r by (auto simp: task_reply_def Let_def split: prod.splits if_splits)
  then have "0 \<le> code \<and> code \<le> 255" using child_exit_range by auto
  then show ?thesis by (simp add: signed_of_int signed_take_bit_int_eq_self)
qed

lemma chunks_fit:
  assumes "chunks_of chunks out" "\<And>n. n \<le> OUTPUT_BUF_SIZE + 1 \<Longrightarrow> malloc_ok n"
  shows "list_all (chunk_ok malloc_ok) chunks"
proof -
  have "OUTPUT_BUF_SIZE \<le> RECV_LIMIT" by (simp add: RECV_LIMIT_def limit_defs)
  then show ?thesis using assms by (fastforce simp: chunks_of_def chunk_ok_def list_all_iff)
qed

text \<open>A worker that reads a task, and a dispatcher that reads what this worker sends.\<close>

lemma served_reply:
  assumes "t_file_size task = word_of_nat (length (t_file_data task))"
    and "length (t_filename task) < MAX_FILENAME_LEN" "length (t_file_data task) \<le> MAX_FILE_SIZE"
    and "stream cw = frame MSG_TASK_FILE (task_payload task)" "outp cw = []"
    and "\<forall>n \<le> OUTPUT_BUF_SIZE + 1. md n" "mw (length (task_payload task) + 1)"
    and "env_ok we (t_file_data task)"
    and "task_ends we (t_file_data task) (ws_fs s (bin_path (we_pid we)))"
    and "task_reply we (t_file_data task) (ws_fs s (bin_path (we_pid we))) = (out, code)"
    and "room_for cw (9 * length out + 12)"
  obtains cw' s' where "handle_connection mw we cfd cw s = Some (cw', s')"
    "\<And>reply. stream reply = outp cw' \<Longrightarrow> \<exists>c2. receive_output md reply [] = Some (code, out, c2)"
proof -
  note bytes = task_payload_bytes [OF assms(1-3)]
  have str: "stream cw = frame MSG_TASK_FILE (task_bytes (bytes_of (t_filename task)) (t_file_data task)) @ []"
    using assms(4) bytes by simp
  have fn: "length (bytes_of (t_filename task)) < MAX_FILENAME_LEN" using assms(2) by simp
  have mw: "mw (length (task_bytes (bytes_of (t_filename task)) (t_file_data task)) + 1)" using assms(7) bytes by simp
  obtain cw' s' chunks where h: "handle_connection mw we cfd cw s = Some (cw', s')" "chunks_of chunks out"
    "outp cw' = outp cw @ frames chunks @ frame MSG_TASK_DONE (done_payload (word_of_int code))"
    using handle_task [of cw "bytes_of (t_filename task)" "t_file_data task" "[]" mw we s out code cfd]
      str fn mw assms(3,8-11) by metis
  have "\<exists>c2. receive_output md reply [] = Some (code, out, c2)" if "stream reply = outp cw'" for reply
  proof -
    have "stream reply = concat (map (frame MSG_OUTPUT) chunks) @
        frame MSG_TASK_DONE (done_payload (word_of_int code)) @ []"
      using that h(3) assms(5) by (simp add: frames_def)
    moreover have "list_all (chunk_ok md) chunks" using chunks_fit [OF h(2)] assms(6) by blast
    moreover have "md 5" using assms(6) by (simp add: OUTPUT_BUF_SIZE_def)
    ultimately obtain c' where "receive_output md reply [] = Some (sint (word_of_int code :: u32), [] @ concat chunks, c')"
      using receive_output_frames by blast
    then show ?thesis using h(2) task_reply_code [OF assms(10)] by (simp add: chunks_of_def)
  qed
  with h(1) that show ?thesis by blast
qed

text \<open>The answer to a load query, on its way.\<close>

lemma load_resp_wire:
  "length (load_resp_packet la n l l) = HDR_SIZE + LOAD_RESP_SIZE"
  "take QUERY_BUF (load_resp_packet la n l l) = load_resp_packet la n l l"
  "h_type (rd_header (load_resp_packet la n l l)) = msg_code MSG_LOAD_RESP"
  "rd_load_resp (drop HDR_SIZE (load_resp_packet la n l l)) =
     \<lparr>lr_load_pct = htonl (f32_bits (load_get_percentage la n)),
      lr_active_tasks = htonl (load_get_active_tasks l), lr_total_tasks = htonl (load_get_total_tasks l),
      lr_num_cores = htonl (load_get_core_count n)\<rparr>"
proof -
  show len: "length (load_resp_packet la n l l) = HDR_SIZE + LOAD_RESP_SIZE"
    "h_type (rd_header (load_resp_packet la n l l)) = msg_code MSG_LOAD_RESP"
    by (simp_all add: load_resp_packet_def HDR_SIZE_def LOAD_RESP_SIZE_def Let_def)
  show "take QUERY_BUF (load_resp_packet la n l l) = load_resp_packet la n l l"
    by (simp add: len QUERY_BUF_def)
  show "rd_load_resp (drop HDR_SIZE (load_resp_packet la n l l)) =
     \<lparr>lr_load_pct = htonl (f32_bits (load_get_percentage la n)),
      lr_active_tasks = htonl (load_get_active_tasks l), lr_total_tasks = htonl (load_get_total_tasks l),
      lr_num_cores = htonl (load_get_core_count n)\<rparr>"
    using rd_mem_load_resp [of "\<lparr>lr_load_pct = htonl (f32_bits (load_get_percentage la n)),
      lr_active_tasks = htonl (load_get_active_tasks l), lr_total_tasks = htonl (load_get_total_tasks l),
      lr_num_cores = htonl (load_get_core_count n)\<rparr>" "[]"]
    by (simp add: load_resp_packet_def Let_def HDR_SIZE_def)
qed

lemma responder_answers:
  "responder_step la n l1 l2 src (Some load_req_packet) = Some \<lparr>dg_dst = src, dg_data = load_resp_packet la n l1 l2\<rparr>"
  by (simp add: responder_step_def RESPONDER_BUF_def HDR_SIZE_def load_req_packet_def)

section \<open>The table under all threads\<close>

text \<open>
  Every access to the table holds its lock, so the threads act on it in some order of whole steps:
  the listener's, the reaper's and the dispatcher's update with an answer.
\<close>

inductive table_step :: "disc \<Rightarrow> peers \<Rightarrow> peers \<Rightarrow> bool" for d where
  Datagram: "table_step d g (listener_step d t1 t2 src data g)"
| Reap: "table_step d g (reaper_round now g)"
| Answer: "table_step d g (peer_list_update_load now g ip resp)"

inductive_cases table_stepE: "table_step d g g'"

definition table_inv :: "disc \<Rightarrow> peers \<Rightarrow> bool" where
  "table_inv d g \<longleftrightarrow> peers_ok g \<and> lookup g (g_local_ip d) = None"

lemma table_inv_step: "table_step d g g' \<Longrightarrow> table_inv d g \<Longrightarrow> table_inv d g'"
  by (erule table_stepE)
    (auto simp: table_inv_def reaper_round_def reg.ok_ops listener_step_ok listener_step_self
      reg.look_reap reg.look_update split: option.splits)

interpretation table_kept: kept "table_step d" "table_inv d" for d
  by unfold_locales (rule table_inv_step)

lemma net_run_steps: "rtranclp (table_step d) g (net_run d es g)"
proof (induction es arbitrary: g)
  case (Cons e es)
  have "table_step d g (net_step d e g)" by (cases e) (auto intro: table_step.intros)
  then show ?case using Cons [of "net_step d e g"] by (simp add: converse_rtranclp_into_rtranclp)
qed simp

lemma query_loop_steps: "rtranclp (table_step d) (ds_peers s) (ds_peers (snd (query_loop qs i ps b s)))"
proof (induction ps arbitrary: i b s)
  case (Cons p ps)
  obtain score res s1 where q: "query_peer_load (qs i) (p_ip p) (p_port p) s = (score, res, s1)"
    by (cases "query_peer_load (qs i) (p_ip p) (p_port p) s") auto
  define s2 where "s2 = print (Out_Load (p_ip p) (p_port p) (map_option q_load res)) s1"
  have "rtranclp (table_step d) (ds_peers s) (ds_peers s2)"
    using query_state(2) [OF q] by (elim disjE exE) (simp_all add: s2_def r_into_rtranclp table_step.Answer)
  note to = rtranclp_trans [OF this Cons [of s2]]
  show ?case using to q by (simp add: Let_def flip: s2_def)
qed simp

section \<open>Heartbeats\<close>

text \<open>
  \<open>alive ip seen es\<close>: starting from a last sign of life at \<open>seen\<close>, every round of the
  reaper in the events comes at most \<^verbatim>\<open>PEER_TIMEOUT_SECS\<close> after the latest HELLO from the address,
  and the address sends nothing but HELLOs.
\<close>

definition is_hello :: "byte list option \<Rightarrow> bool" where
  "is_hello data =
     (case data of
        None \<Rightarrow> False
      | Some pkt \<Rightarrow>
          let buf = take LISTEN_BUF pkt; plen = unat (ntohl (h_payload_len (rd_header buf))) in
          h_type (rd_header buf) = msg_code MSG_HELLO \<and> HELLO_SIZE \<le> plen \<and> HDR_SIZE + plen \<le> length buf)"

fun alive :: "string \<Rightarrow> int \<Rightarrow> net_event list \<Rightarrow> bool" where
  "alive ip seen [] = True"
| "alive ip seen (Net_Reap now # es) = (now - seen \<le> PEER_TIMEOUT_SECS \<and> alive ip seen es)"
| "alive ip seen (Net_Datagram e # es) =
     (if inet_ntop (ev_src e) = ip then is_hello (ev_data e) \<and> alive ip (ev_t2 e) es else alive ip seen es)"

lemma listener_is_hello:
  assumes "is_hello data" "inet_ntop src \<noteq> g_local_ip d"
  obtains port where "listener_step d t1 t2 src data g =
    peer_list_touch t2 (peer_list_add t1 g (inet_ntop src) port) (inet_ntop src)"
proof -
  obtain pkt where pkt: "data = Some pkt" using assms(1) by (cases data) (auto simp: is_hello_def)
  show ?thesis
    by (rule that [of "ntohs (tcp_port (rd_hello (drop HDR_SIZE (take LISTEN_BUF pkt))))"])
      (use assms pkt in \<open>auto simp: is_hello_def listener_step_def Let_def min_def split: if_splits\<close>)
qed

lemma hello_packet_is_hello: "is_hello (Some (hello_packet host s MSG_HELLO))"
  by (simp add: is_hello_def listen_buf_hello Let_def)

lemma alive_known:
  "alive ip (p_last_seen p) es \<Longrightarrow> peers_ok g \<Longrightarrow> lookup g ip = Some p \<Longrightarrow> ip \<noteq> g_local_ip d \<Longrightarrow>
     \<exists>p'. lookup (net_run d es g) ip = Some p'"
proof (induction es arbitrary: g p)
  case (Cons e es)
  have ok: "peers_ok (net_step d e g)" by (rule net_step_table(1) [OF Cons.prems(2)])
  have "\<exists>q. lookup (net_step d e g) ip = Some q \<and> alive ip (p_last_seen q) es"
  proof (cases e)
    case (Net_Reap now)
    then show ?thesis using Cons.prems
      by (auto simp: reaper_round_def reg.reap_keeps stale_def)
  next
    case (Net_Datagram ev)
    show ?thesis
    proof (cases "inet_ntop (ev_src ev) = ip")
      case True
      with Net_Datagram Cons.prems have h: "is_hello (ev_data ev)" "alive ip (ev_t2 ev) es"
        "inet_ntop (ev_src ev) \<noteq> g_local_ip d" by auto
      from listener_is_hello [OF h(1,3)] obtain port where
        "net_step d e g = peer_list_touch (ev_t2 ev) (peer_list_add (ev_t1 ev) g ip port) ip"
        using Net_Datagram True by (metis net_step.simps(1))
      moreover have "length ip < INET_ADDRSTRLEN" using length_inet_ntop True by blast
      then have "\<exists>q. lookup (peer_list_touch (ev_t2 ev) (peer_list_add (ev_t1 ev) g ip port) ip) ip = Some q \<and>
          p_last_seen q = ev_t2 ev"
        using reg.hello_known [OF Cons.prems(2), of ip "ev_t2 ev" "ev_t1 ev" port] Cons.prems(3) by force
      ultimately show ?thesis using h(2) by auto
    next
      case False
      then show ?thesis using Net_Datagram Cons.prems
          listener_step_frame [OF Cons.prems(2), of ip "ev_src ev" d] by auto
    qed
  qed
  then show ?case using Cons.IH ok Cons.prems(4) by auto
qed simp

fun senders :: "net_event list \<Rightarrow> string list" where
  "senders [] = []"
| "senders (Net_Reap now # es) = senders es"
| "senders (Net_Datagram e # es) = inet_ntop (ev_src e) # senders es"

lemma silent_entry:
  "ip \<notin> set (senders es) \<Longrightarrow> peers_ok g \<Longrightarrow> lookup g ip = None \<or> lookup g ip = Some p \<Longrightarrow>
     lookup (net_run d es g) ip = None \<or> lookup (net_run d es g) ip = Some p"
proof (induction es arbitrary: g)
  case (Cons e es)
  have ok: "peers_ok (net_step d e g)" by (rule net_step_table(1) [OF Cons.prems(2)])
  have "lookup (net_step d e g) ip = None \<or> lookup (net_step d e g) ip = Some p"
  proof (cases e)
    case (Net_Reap now)
    then show ?thesis using Cons.prems(2,3)
      by (cases "stale now p") (auto simp: reaper_round_def reg.look_reap)
  next
    case (Net_Datagram ev)
    then have "ip \<noteq> inet_ntop (ev_src ev)" using Cons.prems(1) by auto
    from listener_step_frame [OF Cons.prems(2) this] show ?thesis using Net_Datagram Cons.prems(3) by simp
  qed
  moreover have "ip \<notin> set (senders es)" using Cons.prems(1) by (cases e) auto
  ultimately show ?case using Cons.IH ok by simp
qed simp

lemma net_run_append: "net_run d (xs @ ys) g = net_run d ys (net_run d xs g)"
  by (induction xs arbitrary: g) auto

section \<open>The pool of task handlers\<close>

text \<open>
  The worker process between two steps of its threads: the counters, the descriptors, the connections
  of the handlers that have been started but have not called \<^verbatim>\<open>load_task_start\<close> yet, those of the
  tasks that run, those that only have to be closed, and those for which no handler could be started.
  The accept loop looks at the counter when it accepts; the handler raises it later, in its own thread.
  An error of \<^verbatim>\<open>accept\<close> ends the loop for good.
\<close>

record pool =
  pl_load :: load_state
  pl_kern :: kern
  pl_waiting :: "int list"
  pl_running :: "int list"
  pl_closing :: "int list"
  pl_orphans :: "int list"
  pl_accepting :: bool

definition pool_start :: "kern \<Rightarrow> pool" where
  "pool_start k = \<lparr>pl_load = load_init, pl_kern = k, pl_waiting = [], pl_running = [], pl_closing = [],
     pl_orphans = [], pl_accepting = True\<rparr>"

definition pool_accept :: "accept_event \<Rightarrow> pool \<Rightarrow> pool" where
  "pool_accept ev p =
     (if \<not> pl_accepting p then p
      else case accept_iteration (pl_load p) ev (pl_kern p) of
        (Acc_Spawn fd ip, k) \<Rightarrow> p\<lparr>pl_kern := k, pl_waiting := fd # pl_waiting p\<rparr>
      | (Acc_Unserved fd, k) \<Rightarrow> p\<lparr>pl_kern := k, pl_orphans := fd # pl_orphans p\<rparr>
      | (Acc_Break, k) \<Rightarrow> p\<lparr>pl_kern := k, pl_accepting := False\<rparr>
      | (_, k) \<Rightarrow> p\<lparr>pl_kern := k\<rparr>)"

definition pool_begin :: "int \<Rightarrow> pool \<Rightarrow> pool" where
  "pool_begin fd p = p\<lparr>pl_load := load_task_start (pl_load p), pl_waiting := remove1 fd (pl_waiting p),
     pl_running := fd # pl_running p\<rparr>"

definition pool_refuse :: "int \<Rightarrow> pool \<Rightarrow> pool" where
  "pool_refuse fd p = p\<lparr>pl_waiting := remove1 fd (pl_waiting p), pl_closing := fd # pl_closing p\<rparr>"

definition pool_finish :: "int \<Rightarrow> pool \<Rightarrow> pool" where
  "pool_finish fd p = p\<lparr>pl_load := load_task_done (pl_load p), pl_running := remove1 fd (pl_running p),
     pl_closing := fd # pl_closing p\<rparr>"

definition pool_close :: "int \<Rightarrow> pool \<Rightarrow> pool" where
  "pool_close fd p = p\<lparr>pl_closing := remove1 fd (pl_closing p), pl_kern := sys_close fd (pl_kern p)\<rparr>"

inductive pool_step :: "pool \<Rightarrow> pool \<Rightarrow> bool" where
  Accept: "pool_step p (pool_accept ev p)"
| Begin: "fd \<in> set (pl_waiting p) \<Longrightarrow> pool_step p (pool_begin fd p)"
| Refuse: "fd \<in> set (pl_waiting p) \<Longrightarrow> pool_step p (pool_refuse fd p)"
| Finish: "fd \<in> set (pl_running p) \<Longrightarrow> pool_step p (pool_finish fd p)"
| Close: "fd \<in> set (pl_closing p) \<Longrightarrow> pool_step p (pool_close fd p)"

text \<open>The schedule in which the accept loop waits until no started handler is still to count itself.\<close>

inductive prompt_step :: "pool \<Rightarrow> pool \<Rightarrow> bool" where
  Prompt_Accept: "pl_waiting p = [] \<Longrightarrow> prompt_step p (pool_accept ev p)"
| Prompt_Begin: "fd \<in> set (pl_waiting p) \<Longrightarrow> prompt_step p (pool_begin fd p)"
| Prompt_Refuse: "fd \<in> set (pl_waiting p) \<Longrightarrow> prompt_step p (pool_refuse fd p)"
| Prompt_Finish: "fd \<in> set (pl_running p) \<Longrightarrow> prompt_step p (pool_finish fd p)"
| Prompt_Close: "fd \<in> set (pl_closing p) \<Longrightarrow> prompt_step p (pool_close fd p)"

inductive_cases pool_stepE: "pool_step p q"
inductive_cases prompt_stepE: "prompt_step p q"

definition pool_fds :: "pool \<Rightarrow> int list" where
  "pool_fds p = pl_waiting p @ pl_running p @ pl_closing p @ pl_orphans p"

definition pool_inv :: "kern \<Rightarrow> pool \<Rightarrow> bool" where
  "pool_inv k0 p \<longleftrightarrow>
     kern_ok (pl_kern p) \<and> distinct (pool_fds p) \<and>
     (\<forall>fd \<in> set (pool_fds p). 0 \<le> fd \<and> nat fd \<notin> set (k_fds k0)) \<and>
     set (k_fds (pl_kern p)) = set (k_fds k0) \<union> nat ` set (pool_fds p) \<and>
     load_get_active_tasks (pl_load p) = word_of_nat (length (pl_running p))"

lemma kern_ok_close: "kern_ok k \<Longrightarrow> kern_ok (sys_close fd k)"
  by (auto simp: kern_ok_def sys_close_def distinct_removeAll)

lemma nat_image_remove:
  assumes "\<forall>x \<in> A. 0 \<le> (x :: int)" "fd \<in> A"
  shows "nat ` A - {nat fd} = nat ` (A - {fd})"
  using assms by (auto simp: nat_eq_iff)

lemma pool_inv_accept: "pool_inv k0 p \<Longrightarrow> pool_inv k0 (pool_accept ev p)"
proof (cases ev)
  case (Acc_Conn a threaded)
  assume inv: "pool_inv k0 p"
  then have k: "kern_ok (pl_kern p)" by (simp add: pool_inv_def)
  let ?fd = "fresh_fd (k_fds (pl_kern p))"
  have new: "?fd \<notin> set (k_fds (pl_kern p))" by (rule fresh_fd_notin)
  then have "int ?fd \<notin> set (pool_fds p)" using inv by (force simp: pool_inv_def)
  then show ?thesis
    using inv Acc_Conn close_fresh(1) [OF k] new
    by (auto simp: pool_accept_def accept_iteration_def Let_def pool_inv_def kern_ok_def pool_fds_def)
qed (simp_all add: pool_accept_def accept_iteration_def pool_inv_def pool_fds_def)

lemma close_set: "set (k_fds (sys_close fd k)) = set (k_fds k) - {nat fd}"
  by (simp add: sys_close_def)

text \<open>A handler that moves from one list to another keeps its descriptor.\<close>

lemma pool_move:
  assumes "pool_inv k0 p" "pl_kern q = pl_kern p" "mset (pool_fds q) = mset (pool_fds p)"
    and "load_get_active_tasks (pl_load q) = word_of_nat (length (pl_running q))"
  shows "pool_inv k0 q"
  using assms mset_eq_setD [OF assms(3)] mset_eq_imp_distinct_iff [OF assms(3)]
  by (simp add: pool_inv_def)

lemma pool_inv_step: "pool_step p q \<Longrightarrow> pool_inv k0 p \<Longrightarrow> pool_inv k0 q"
proof (erule pool_stepE)
  fix ev assume "q = pool_accept ev p" "pool_inv k0 p"
  then show "pool_inv k0 q" by (simp add: pool_inv_accept)
next
  fix fd assume "q = pool_begin fd p" "fd \<in> set (pl_waiting p)" "pool_inv k0 p"
  then show "pool_inv k0 q"
    by (intro pool_move [of k0 p q]) (auto simp: pool_begin_def pool_fds_def pool_inv_def tasks.active_start)
next
  fix fd assume "q = pool_refuse fd p" "fd \<in> set (pl_waiting p)" "pool_inv k0 p"
  then show "pool_inv k0 q"
    by (intro pool_move [of k0 p q]) (auto simp: pool_refuse_def pool_fds_def pool_inv_def)
next
  fix fd assume q: "q = pool_finish fd p" and fd: "fd \<in> set (pl_running p)" and inv: "pool_inv k0 p"
  have "1 \<le> length (pl_running p)" using fd by (cases "pl_running p") auto
  then have "(word_of_nat (length (pl_running p) - 1) :: u32) = word_of_nat (length (pl_running p)) - 1"
    by (simp add: of_nat_diff)
  then show "pool_inv k0 q" using inv fd
    by (intro pool_move [of k0 p q])
      (auto simp: q pool_finish_def pool_fds_def pool_inv_def tasks.active_finish length_remove1)
next
  fix fd assume q: "q = pool_close fd p" and fd: "fd \<in> set (pl_closing p)" and inv: "pool_inv k0 p"
  have d: "distinct (pool_fds p)" using inv by (simp add: pool_inv_def)
  then have s: "set (pool_fds q) = set (pool_fds p) - {fd}" "distinct (pool_fds q)"
    using fd by (auto simp: q pool_close_def pool_fds_def set_remove1_eq distinct_remove1)
  have "nat ` set (pool_fds p) - {nat fd} = nat ` (set (pool_fds p) - {fd})"
    using inv fd by (intro nat_image_remove) (auto simp: pool_inv_def pool_fds_def)
  moreover have "nat fd \<notin> set (k_fds k0)" using inv fd by (simp add: pool_inv_def pool_fds_def)
  moreover have "set (k_fds (pl_kern p)) = set (k_fds k0) \<union> nat ` set (pool_fds p)" using inv by (simp add: pool_inv_def)
  ultimately have k: "set (k_fds (pl_kern q)) = set (k_fds k0) \<union> nat ` set (pool_fds q)"
    unfolding s(1) by (simp add: q pool_close_def close_set Un_Diff)
  have "kern_ok (pl_kern q)" "pl_load q = pl_load p" "pl_running q = pl_running p"
    using inv by (simp_all add: q pool_close_def pool_inv_def kern_ok_close)
  then show "pool_inv k0 q" using inv s k by (simp add: pool_inv_def)
qed

lemma pool_inv_start: "kern_ok k \<Longrightarrow> pool_inv k (pool_start k)"
  by (simp add: pool_inv_def pool_fds_def pool_start_def load_init_def load_get_active_tasks_def)

interpretation pool_kept: kept pool_step "pool_inv k" for k
  by unfold_locales (rule pool_inv_step)

lemma prompt_is_pool: "prompt_step p q \<Longrightarrow> pool_step p q"
  by (erule prompt_stepE) (auto intro: pool_step.intros)

definition within_capacity :: "pool \<Rightarrow> bool" where
  "within_capacity p \<longleftrightarrow> length (pl_waiting p) + length (pl_running p) \<le> MAX_CONCURRENT_TASKS"

lemma prompt_capacity:
  assumes "prompt_step p q" "pool_inv k p" "within_capacity p"
  shows "within_capacity q"
  using assms(1)
proof (rule prompt_stepE)
  fix ev assume q: "q = pool_accept ev p" and none: "pl_waiting p = []"
  have n: "length (pl_running p) \<le> 8" using assms(3) none by (simp add: within_capacity_def MAX_CONCURRENT_TASKS_def)
  then have "unat (word_of_nat (length (pl_running p)) :: u32) = length (pl_running p)"
    by (intro unat_of_nat_u32) simp
  moreover have "load_get_active_tasks (pl_load p) = word_of_nat (length (pl_running p))"
    using assms(2) by (simp add: pool_inv_def)
  ultimately show "within_capacity q" using n none
    by (auto simp: q pool_accept_def accept_iteration_def within_capacity_def Let_def MAX_CONCURRENT_TASKS_def
        split: accept_event.split)
next
  fix fd assume q: "q = pool_begin fd p" and fd: "fd \<in> set (pl_waiting p)"
  have "Suc (length (remove1 fd (pl_waiting p))) = length (pl_waiting p)"
    using fd length_pos_if_in_set [OF fd] by (simp add: length_remove1)
  then show "within_capacity q" using assms(3)
    by (simp add: q pool_begin_def within_capacity_def)
next
  fix fd assume "q = pool_refuse fd p"
  then show "within_capacity q" using assms(3)
    by (auto simp: pool_refuse_def within_capacity_def length_remove1)
next
  fix fd assume "q = pool_finish fd p"
  then show "within_capacity q" using assms(3)
    by (auto simp: pool_finish_def within_capacity_def length_remove1)
next
  fix fd assume "q = pool_close fd p"
  then show "within_capacity q" using assms(3) by (simp add: pool_close_def within_capacity_def)
qed

interpretation prompt_kept: kept prompt_step "\<lambda>p. pool_inv k p \<and> within_capacity p" for k
  by unfold_locales (blast intro: pool_inv_step prompt_is_pool prompt_capacity)

text \<open>Nothing makes the handlers count themselves before the next connection is accepted.\<close>

lemma accept_spawns:
  assumes "unat (load_get_active_tasks (pl_load p)) < MAX_CONCURRENT_TASKS" "pl_accepting p"
  shows "length (pl_waiting (pool_accept (Acc_Conn a True) p)) = Suc (length (pl_waiting p))"
    "pl_running (pool_accept (Acc_Conn a True) p) = pl_running p" "pl_load (pool_accept (Acc_Conn a True) p) = pl_load p"
    "pl_accepting (pool_accept (Acc_Conn a True) p)"
  using assms by (simp_all add: pool_accept_def accept_iteration_def Let_def)

lemma accept_many:
  assumes "unat (load_get_active_tasks (pl_load p)) < MAX_CONCURRENT_TASKS" "pl_accepting p"
  shows "\<exists>q. rtranclp pool_step p q \<and> length (pl_waiting q) = length (pl_waiting p) + n \<and>
    pl_running q = pl_running p \<and> pl_load q = pl_load p \<and> pl_accepting q"
proof (induction n)
  case (Suc n)
  then obtain q where q: "rtranclp pool_step p q" "length (pl_waiting q) = length (pl_waiting p) + n"
    "pl_running q = pl_running p" "pl_load q = pl_load p" "pl_accepting q" by blast
  have "pool_step q (pool_accept (Acc_Conn 0 True) q)" by (rule pool_step.Accept)
  with q(1) have "rtranclp pool_step p (pool_accept (Acc_Conn 0 True) q)" by (rule rtranclp.rtrancl_into_rtrancl)
  then show ?case using accept_spawns [of q 0] assms q by (intro exI [of _ "pool_accept (Acc_Conn 0 True) q"]) simp
qed (use assms in auto)

lemma begin_many:
  "length (pl_waiting p) = n \<Longrightarrow>
     \<exists>q. rtranclp pool_step p q \<and> length (pl_running q) = length (pl_running p) + n"
proof (induction n arbitrary: p)
  case (Suc n)
  then obtain fd ws where w: "pl_waiting p = fd # ws" by (cases "pl_waiting p") auto
  then have s: "pool_step p (pool_begin fd p)" by (intro pool_step.Begin) simp
  have "length (pl_waiting (pool_begin fd p)) = n" using w Suc.prems by (simp add: pool_begin_def)
  from Suc.IH [OF this] obtain q where "rtranclp pool_step (pool_begin fd p) q"
    "length (pl_running q) = length (pl_running (pool_begin fd p)) + n" by blast
  then show ?case using converse_rtranclp_into_rtranclp [of pool_step, OF s]
    by (auto simp: pool_begin_def)
qed auto

section \<open>Properties\<close>

text \<open>A task sent by \<^verbatim>\<open>send_task_file\<close> on one node, received by a worker that gets
  those bytes, is compiled and run there; and when what that worker sends comes back, whatever the
  segments, \<^verbatim>\<open>receive_output\<close> prints exactly the output of the compiler and of the program and
  returns its exit code.\<close>

theorem remote_run:
  assumes "t_file_size task = word_of_nat (length (t_file_data task))"
    and "length (t_filename task) < MAX_FILENAME_LEN" "length (t_file_data task) \<le> MAX_FILE_SIZE"
    and "send_task_file md c task = Some (0, c1)" "outp c = []" "stream cw = outp c1" "outp cw = []"
    and "\<forall>n \<le> OUTPUT_BUF_SIZE + 1. md n" "mw (length (task_payload task) + 1)"
    and "env_ok we (t_file_data task)"
    and "task_ends we (t_file_data task) (ws_fs s (bin_path (we_pid we)))"
    and "task_reply we (t_file_data task) (ws_fs s (bin_path (we_pid we))) = (out, code)"
    and "room_for cw (9 * length out + 12)"
  shows "\<exists>cw' s'. handle_connection mw we cfd cw s = Some (cw', s') \<and>
    (\<forall>reply. stream reply = outp cw' \<longrightarrow> (\<exists>c2. receive_output md reply [] = Some (code, out, c2)))"
proof -
  note len = send_task_file_payload(1) [OF assms(1-3)]
  have "send_msg c MSG_TASK_FILE (Some (task_payload task)) (word_of_nat (length (task_payload task))) = Some (0, c1)"
    using assms(4) send_task_file_payload(2) [OF assms(1-3), of md c] by (auto split: if_splits)
  moreover have "length (task_payload task) < 2 ^ 32" using len assms(2,3) by (simp add: limit_defs)
  ultimately have "stream cw = frame MSG_TASK_FILE (task_payload task)"
    using send_msg_frame(3) assms(5,6) by fastforce
  from served_reply [where md = md and mw = mw, OF assms(1-3) this assms(7-13)] show ?thesis by metis
qed

definition demo_dialer :: conn where
  "demo_dialer = \<lparr>rx = [], tx = [TxTake 5, TxEintr, TxTake 5, TxTake 50], outp = []\<rparr>"

definition demo_job :: task_t where
  "demo_job = \<lparr>t_type = TASK_FILE, t_filename = ''a'', t_file_data = [72, 105], t_file_size = 2\<rparr>"

lemma demo_job_payload: "task_payload demo_job = task_bytes [97] [72, 105]"
  using task_payload_bytes [of demo_job] by (simp add: demo_job_def limit_defs bytes_of_def)

lemma demo_job_bytes: "task_bytes [97] [72, 105] = [0, 1, 97, 0, 0, 0, 2, 72, 105]"
  by (simp add: task_bytes_def mem16_def mem32_def htons_def htonl_def rd16_def rd32_def)

lemma demo_job_sent: "send_task_file (\<lambda>n. n < 5000) demo_dialer demo_job =
    Some (0, demo_dialer\<lparr>tx := [], outp := frame MSG_TASK_FILE (task_bytes [97] [72, 105])\<rparr>)"
  using send_task_file_payload(2) [of demo_job "\<lambda>n. n < 5000" demo_dialer]
  by (simp add: demo_job_payload demo_job_bytes)
    (simp add: demo_job_def limit_defs transfer_eval demo_dialer_def frame_def)

theorem remote_run_witness:
  "\<exists>cw' s'. handle_connection (\<lambda>_. True) demo_we 4 (task_conn [97] [72, 105]) idle_worker = Some (cw', s') \<and>
     (\<forall>reply. stream reply = outp cw' \<longrightarrow> (\<exists>c2. receive_output (\<lambda>n. n < 5000) reply [] = Some (3, [72, 105], c2)))"
  by (rule remote_run [OF _ _ _ demo_job_sent])
    (simp_all add: task_conn_stream demo_pid OUTPUT_BUF_SIZE_def,
     simp_all add: demo_job_def limit_defs demo_task_reply,
     simp_all add: env_ok_def pid_ok_def demo_we_def task_conn_def demo_dialer_def)

text \<open>C6: when a node answers a load query, the querying node computes for it
  exactly the score that node computes for itself, the float crossing the network as its 32 bits, and
  its table afterwards has that node's percentage, counters, cores and the time of the answer.\<close>

theorem query_roundtrip:
  assumes "se_socket (qe_sock qe)" "0 < qe_select qe"
    and "qe_recv qe = map_option dg_data (responder_step la n l l src (Some load_req_packet))"
    and "peers_ok (ds_peers s)" "lookup (ds_peers s) ip = Some p"
  shows "\<exists>q s'. query_peer_load qe ip port s = (load_score_local la n l, Some q, s') \<and> q_port q = port \<and>
    lookup (ds_peers s') ip = Some (p\<lparr>p_load_pct := load_get_percentage la n,
      p_active_tasks := load_get_active_tasks l, p_total_tasks := load_get_total_tasks l,
      p_num_cores := load_get_core_count n, p_last_seen := qe_now qe\<rparr>)"
proof -
  define resp where "resp = \<lparr>lr_load_pct = htonl (f32_bits (load_get_percentage la n)),
    lr_active_tasks = htonl (load_get_active_tasks l), lr_total_tasks = htonl (load_get_total_tasks l),
    lr_num_cores = htonl (load_get_core_count n)\<rparr>"
  have "qe_recv qe = Some (load_resp_packet la n l l)"
    using assms(3) by (simp add: responder_answers)
  note wire = this load_resp_wire [of la n l, folded resp_def]
  have "load_entry (qe_now qe) resp p = p\<lparr>p_load_pct := load_get_percentage la n,
      p_active_tasks := load_get_active_tasks l, p_total_tasks := load_get_total_tasks l,
      p_num_cores := load_get_core_count n, p_last_seen := qe_now qe\<rparr>"
    by (simp add: load_entry_def resp_def)
  then show ?thesis
    using assms(1,2) reg.update_known [OF assms(4,5), of "qe_now qe" resp]
    by (simp add: query_peer_load_def udp_0 sys_socket_def wire Let_def load_score_local_def)
      (simp add: resp_def)
qed

theorem query_roundtrip_witness:
  "\<exists>q s'. query_peer_load (demo_query\<lparr>qe_recv := map_option dg_data
       (responder_step Fopen_Failed 4 \<lparr>g_active_tasks = 2, g_total_tasks = 7\<rparr> \<lparr>g_active_tasks = 2, g_total_tasks = 7\<rparr>
          \<lparr>sin_port = 5, sin_addr = 6\<rparr> (Some load_req_packet))\<rparr>) ''10.0.0.2'' 7777 demo_state =
     (load_score_local Fopen_Failed 4 \<lparr>g_active_tasks = 2, g_total_tasks = 7\<rparr>, Some q, s') \<and> q_port q = 7777"
proof -
  have "lookup (ds_peers demo_state) ''10.0.0.2'' = Some (new_entry 5 ''10.0.0.2'' 7777)"
    by (simp add: demo_state_def table_of_one(2))
  from query_roundtrip [OF _ _ _ demo_ok(1) this, of "demo_query\<lparr>qe_recv := map_option dg_data
       (responder_step Fopen_Failed 4 \<lparr>g_active_tasks = 2, g_total_tasks = 7\<rparr> \<lparr>g_active_tasks = 2, g_total_tasks = 7\<rparr>
          \<lparr>sin_port = 5, sin_addr = 6\<rparr> (Some load_req_packet))\<rparr>"]
  show ?thesis by (fastforce simp: demo_query_def all_ok_def)
qed

text \<open>C8: from the empty table, under any interleaving of the listener's, the
  reaper's and the dispatcher's steps, the peer table stays well-formed, holds at most
  \<^verbatim>\<open>MAX_PEERS\<close> peers and never an entry for the node itself; and the rounds of the
  discovery threads and the queries of a dispatch are such steps.\<close>

theorem table_invariant:
  assumes "rtranclp (table_step d) peer_list_init g"
  shows "peers_ok g \<and> peer_count g \<le> MAX_PEERS \<and> lookup g (g_local_ip d) = None \<and>
    rtranclp (table_step d) peer_list_init (net_run d es g) \<and>
    (ds_peers s = g \<longrightarrow> rtranclp (table_step d) peer_list_init (ds_peers (snd (query_loop qs i ps b s))))"
proof -
  have "table_inv d g"
    by (rule table_kept.reach [OF assms]) (simp add: table_inv_def peers_ok_init lookup_init)
  then have "peers_ok g" "lookup g (g_local_ip d) = None" by (simp_all add: table_inv_def)
  then show ?thesis
    using peer_count_le [of g] rtranclp_trans [OF assms net_run_steps [of d g es]]
      rtranclp_trans [of "table_step d", OF assms] query_loop_steps [of d s qs i ps b] by auto
qed

theorem table_invariant_witness:
  "peers_ok (peer_list_update_load 9 (listener_step node_a 1 2 0x0200000A (Some (hello_packet ''bob'' node_b MSG_HELLO))
       peer_list_init) ''10.0.0.2''
       \<lparr>lr_load_pct = 0, lr_active_tasks = 0, lr_total_tasks = 0, lr_num_cores = 0\<rparr>)"
proof -
  have "table_step node_a peer_list_init
      (listener_step node_a 1 2 0x0200000A (Some (hello_packet ''bob'' node_b MSG_HELLO)) peer_list_init)"
    by (rule table_step.Datagram)
  then have "rtranclp (table_step node_a) peer_list_init (peer_list_update_load 9
      (listener_step node_a 1 2 0x0200000A (Some (hello_packet ''bob'' node_b MSG_HELLO)) peer_list_init) ''10.0.0.2''
       \<lparr>lr_load_pct = 0, lr_active_tasks = 0, lr_total_tasks = 0, lr_num_cores = 0\<rparr>)"
    by (rule converse_rtranclp_into_rtranclp) (rule r_into_rtranclp, rule table_step.Answer)
  from table_invariant [OF this] show ?thesis by blast
qed

text \<open>A known peer that keeps sending HELLOs, each round of the reaper at most
  \<^verbatim>\<open>PEER_TIMEOUT_SECS\<close> after the latest of them, stays known through everything that happens; a
  known peer from which nothing comes is forgotten by the first round of the reaper more than that time
  after it was last seen.\<close>

theorem heartbeat_keeps:
  assumes "peers_ok g" "lookup g ip = Some p" "ip \<noteq> g_local_ip d"
  shows "(alive ip (p_last_seen p) es \<longrightarrow> (\<exists>q. lookup (net_run d es g) ip = Some q)) \<and>
    (ip \<notin> set (senders es) \<and> PEER_TIMEOUT_SECS < now - p_last_seen p \<longrightarrow>
       lookup (net_run d (es @ [Net_Reap now]) g) ip = None)"
proof (intro conjI impI)
  show "alive ip (p_last_seen p) es \<Longrightarrow> \<exists>q. lookup (net_run d es g) ip = Some q"
    using alive_known assms by blast
  assume s: "ip \<notin> set (senders es) \<and> PEER_TIMEOUT_SECS < now - p_last_seen p"
  have "peers_ok (net_run d es g)" using net_run_table [OF assms(1)] by blast
  moreover have "lookup (net_run d es g) ip = None \<or> lookup (net_run d es g) ip = Some p"
    using silent_entry [of ip es g p d] s assms(1,2) by simp
  ultimately show "lookup (net_run d (es @ [Net_Reap now]) g) ip = None"
    using s by (auto simp: net_run_append reaper_round_def reg.look_reap stale_def)
qed

theorem heartbeat_keeps_witness:
  "(\<exists>q. lookup (net_run node_a [Net_Reap 30, Net_Datagram \<lparr>ev_t1 = 33, ev_t2 = 33, ev_src = 0x0200000A,
       ev_data = Some (hello_packet ''bob'' node_b MSG_HELLO)\<rparr>, Net_Reap 45, Net_Reap 60]
     (peer_list_add 5 peer_list_init ''10.0.0.2'' 7777)) ''10.0.0.2'' = Some q) \<and>
   lookup (net_run node_a ([Net_Reap 30] @ [Net_Reap 45]) (peer_list_add 5 peer_list_init ''10.0.0.2'' 7777))
     ''10.0.0.2'' = None"
proof -
  have "lookup (peer_list_add 5 peer_list_init ''10.0.0.2'' 7777) ''10.0.0.2'' = Some (new_entry 5 ''10.0.0.2'' 7777)"
    "''10.0.0.2'' \<noteq> g_local_ip node_a"
    by (simp_all add: table_of_one(2) node_a_def)
  note hb = heartbeat_keeps [OF table_of_one(1) this]
  show ?thesis
    using hb [of "[Net_Reap 30, Net_Datagram \<lparr>ev_t1 = 33, ev_t2 = 33, ev_src = 0x0200000A,
       ev_data = Some (hello_packet ''bob'' node_b MSG_HELLO)\<rparr>, Net_Reap 45, Net_Reap 60]"]
      hb [of "[Net_Reap 30]" 45]
    by (simp add: PEER_TIMEOUT_SECS_def ip_10_0_0_2 hello_packet_is_hello)
qed

text \<open>However connections are accepted and handlers start, end and close, the counter
  of active tasks is the number of tasks that run, and the open descriptors are those from the start
  and one for each handler that has not closed its connection, each its own.\<close>

theorem pool_accounts:
  assumes "rtranclp pool_step (pool_start k) p" "kern_ok k"
  shows "load_get_active_tasks (pl_load p) = word_of_nat (length (pl_running p)) \<and>
    set (k_fds (pl_kern p)) = set (k_fds k) \<union> nat ` set (pool_fds p) \<and>
    distinct (pool_fds p) \<and> (\<forall>fd \<in> set (pool_fds p). nat fd \<notin> set (k_fds k))"
  using pool_kept.reach [OF assms(1) pool_inv_start [OF assms(2)]] by (simp add: pool_inv_def)

theorem pool_accounts_witness:
  "load_get_active_tasks (pl_load (pool_accept (Acc_Conn 7 True) (pool_start (ws_kern idle_worker)))) = 0 \<and>
   set (k_fds (pl_kern (pool_accept (Acc_Conn 7 True) (pool_start (ws_kern idle_worker))))) = {0, 1, 2, 3, 4, 5}"
proof -
  have k: "kern_ok (ws_kern idle_worker)" by (simp add: kern_ok_def idle_worker_def)
  have s: "rtranclp pool_step (pool_start (ws_kern idle_worker)) (pool_accept (Acc_Conn 7 True) (pool_start (ws_kern idle_worker)))"
    by (rule r_into_rtranclp) (rule pool_step.Accept)
  have f: "fresh_fd [4, 3, 2, Suc 0, 0] = 5" by (simp add: fresh_fd_def upt_rec)
  from pool_accounts [OF s k] show ?thesis
    by (simp add: pool_accept_def accept_iteration_def pool_start_def pool_fds_def load_init_def load_get_active_tasks_def
        MAX_CONCURRENT_TASKS_def idle_worker_def f) auto
qed

text \<open>C19: the limit is tested when a connection is accepted but the task is counted only
  when its handler runs, so connections that arrive together all pass the test: any number of tasks can
  run at once. Only if the accept loop accepted no connection while a started handler had still to count
  its task would \<^verbatim>\<open>MAX_CONCURRENT_TASKS\<close> be kept.\<close>

theorem capacity_race:
  assumes "kern_ok k"
  shows "(\<exists>p. rtranclp pool_step (pool_start k) p \<and> length (pl_running p) = n) \<and>
    (rtranclp prompt_step (pool_start k) q \<longrightarrow> length (pl_running q) \<le> MAX_CONCURRENT_TASKS)"
proof (intro conjI impI)
  have "unat (load_get_active_tasks (pl_load (pool_start k))) < MAX_CONCURRENT_TASKS" "pl_accepting (pool_start k)"
    by (simp_all add: pool_start_def load_init_def load_get_active_tasks_def MAX_CONCURRENT_TASKS_def)
  from accept_many [OF this, of n] obtain p where p: "rtranclp pool_step (pool_start k) p"
    "length (pl_waiting p) = n" "pl_running p = []" by (auto simp: pool_start_def)
  from begin_many [OF p(2)] p(1,3)
  show "\<exists>p. rtranclp pool_step (pool_start k) p \<and> length (pl_running p) = n" by (auto intro: rtranclp_trans)
  assume r: "rtranclp prompt_step (pool_start k) q"
  have "within_capacity (pool_start k)" by (simp add: within_capacity_def pool_start_def)
  from prompt_kept.reach [OF r conjI, OF pool_inv_start [OF assms] this]
  show "length (pl_running q) \<le> MAX_CONCURRENT_TASKS" by (simp add: within_capacity_def)
qed

theorem capacity_race_witness:
  "\<exists>p. rtranclp pool_step (pool_start (ws_kern idle_worker)) p \<and> length (pl_running p) = 9"
  using capacity_race [of "ws_kern idle_worker" 9] by (simp add: kern_ok_def idle_worker_def)

text \<open>The temporary files are named after the process, not the task. When a second
  handler writes its source between the write and the compilation of a first one, the first client is
  sent the output and the exit code of the second client's program; its own source is never used.\<close>

theorem tasks_collide:
  assumes "we_pipe we" "pid_ok (we_pid we)"
    and "ws_fs s = write_source (we_pid we) second (write_source (we_pid we) first fs)"
    and "task_ends we second (fs (bin_path (we_pid we)))"
    and "task_reply we second (fs (bin_path (we_pid we))) = (out, code)"
    and "room_for c (9 * length out + 12)"
  shows "\<exists>c' s' chunks. finish_task we c s = Some (c', s') \<and> chunks_of chunks out \<and>
    outp c' = outp c @ frames chunks @ frame MSG_TASK_DONE (done_payload (word_of_int code))"
proof -
  have "ws_fs s = write_source (we_pid we) second fs" by (simp add: assms(3) write_source_def)
  from finish_task_reply [OF assms(1,2) this, of out code c] assms(4-6) show ?thesis by metis
qed

theorem tasks_collide_witness:
  "\<exists>c' s' chunks. finish_task demo_we (task_conn [97] [1])
       (idle_worker\<lparr>ws_fs := write_source 4321 [72, 105] (write_source 4321 [33] Map.empty)\<rparr>) = Some (c', s') \<and>
     chunks_of chunks [72, 105] \<and> outp c' = frames chunks @ frame MSG_TASK_DONE (done_payload 3)"
  using tasks_collide [of demo_we "idle_worker\<lparr>ws_fs := write_source 4321 [72, 105] (write_source 4321 [33] Map.empty)\<rparr>"
      "[72, 105]" "[33]" Map.empty "[72, 105]" 3 "task_conn [97] [1]"]
  by (simp add: demo_pid demo_task_reply task_conn_stream) (simp add: demo_we_def task_conn_def)

end
