(* ===== verification/Timing.thy ===== *)
theory Timing
  imports Node_System
begin

text \<open>
  The announcer of one node against the table of another, in seconds: when a node that starts knows
  its peers, how many lost HELLOs the timeout tolerates, when a node that has gone silent is forgotten,
  and what the pause of a node that starts is worth.
\<close>

section \<open>The announcer's rounds\<close>

lemma length_announcer [simp]: "length (announcer_thread host d t xs) = length xs"
  by (induction xs arbitrary: t) auto

definition round_time :: "int \<Rightarrow> int list \<Rightarrow> nat \<Rightarrow> int" where
  "round_time t xs i = t + (\<Sum>x \<leftarrow> take i xs. DISCOVERY_INTERVAL + x)"

lemma announcer_nth:
  "i < length xs \<Longrightarrow> announcer_thread host d t xs ! i = (round_time t xs i, announcer_round host d)"
proof (induction xs arbitrary: t i)
  case (Cons x xs)
  then show ?case by (cases i) (auto simp: round_time_def)
qed simp

lemma round_time_0 [simp]: "round_time t xs 0 = t"
  by (simp add: round_time_def)

lemma round_time_Suc:
  "i < length xs \<Longrightarrow> round_time t xs (Suc i) = round_time t xs i + DISCOVERY_INTERVAL + xs ! i"
  by (simp add: round_time_def take_Suc_conv_app_nth)

lemma round_time_bounds:
  assumes "\<forall>x \<in> set xs. 0 \<le> x \<and> x \<le> late"
  shows "i + m \<le> length xs \<Longrightarrow> round_time t xs i \<le> round_time t xs (i + m) \<and>
    round_time t xs (i + m) \<le> round_time t xs i + int m * (DISCOVERY_INTERVAL + late)"
proof (induction m)
  case (Suc m)
  then have im: "i + m < length xs" by simp
  then have x: "0 \<le> xs ! (i + m)" "xs ! (i + m) \<le> late" using assms nth_mem by blast+
  have "round_time t xs (i + Suc m) = round_time t xs (i + m) + DISCOVERY_INTERVAL + xs ! (i + m)"
    using round_time_Suc [OF im] by simp
  with Suc im x show ?case by (simp add: algebra_simps DISCOVERY_INTERVAL_def)
qed simp

lemmas round_time_spread = round_time_bounds [THEN conjunct1] round_time_bounds [THEN conjunct2]

text \<open>
  What becomes of the HELLOs on the network: \<open>None\<close> is lost, \<open>Some l\<close> arrives after \<open>l\<close> seconds.
\<close>

definition arrives :: "int \<Rightarrow> int list \<Rightarrow> int option list \<Rightarrow> int \<Rightarrow> bool" where
  "arrives t xs fates a \<longleftrightarrow> (\<exists>i < length xs. \<exists>l. fates ! i = Some l \<and> a = round_time t xs i + l)"

definition losses_within :: "nat \<Rightarrow> int option list \<Rightarrow> bool" where
  "losses_within k fates \<longleftrightarrow> (\<forall>i. i + k < length fates \<longrightarrow> (\<exists>j \<le> k. fates ! (i + j) \<noteq> None))"

lemma hello_in_window:
  assumes late: "\<forall>x \<in> set xs. 0 \<le> x \<and> x \<le> late" and len: "length fates = length xs"
    and lat: "\<forall>l. Some l \<in> set fates \<longrightarrow> 0 \<le> l \<and> l \<le> lat" and loss: "losses_within k fates"
    and fits: "int (Suc k) * (DISCOVERY_INTERVAL + late) + lat \<le> PEER_TIMEOUT_SECS"
    and now: "now \<le> round_time t xs (length xs - 1) + lat" "xs \<noteq> []" "0 \<le> late"
  shows "now \<le> t + PEER_TIMEOUT_SECS \<or>
    (\<exists>a. arrives t xs fates a \<and> a < now \<and> now \<le> a + PEER_TIMEOUT_SECS)"
proof (cases "t + lat < now")
  case False
  have "0 \<le> int (Suc k) * (DISCOVERY_INTERVAL + late)" using now(3) by (simp add: DISCOVERY_INTERVAL_def)
  then have "lat \<le> PEER_TIMEOUT_SECS" using fits by linarith
  then show ?thesis using False by linarith
next
  case True
  define P where "P i \<longleftrightarrow> i < length xs \<and> round_time t xs i + lat < now" for i
  have "P 0" using True now(2) by (simp add: P_def)
  moreover have bound: "P i \<Longrightarrow> i \<le> length xs" for i by (simp add: P_def)
  ultimately have pi: "P (Greatest P)" "\<And>j. P j \<Longrightarrow> j \<le> Greatest P"
    using GreatestI_nat [of P 0 "length xs"] Greatest_le_nat [of P _ "length xs"] by auto
  define i where "i = Greatest P"
  have i: "i < length xs" "round_time t xs i + lat < now" using pi(1) by (simp_all add: P_def i_def)
  have "i \<noteq> length xs - 1" using i now(1) by auto
  then have si: "Suc i < length xs" using i(1) by simp
  have "\<not> P (Suc i)" using pi(2) [of "Suc i"] by (auto simp: i_def)
  then have nx: "now \<le> round_time t xs (Suc i) + lat" using si by (simp add: P_def)
  have mono: "int m * (DISCOVERY_INTERVAL + late) \<le> int (Suc k) * (DISCOVERY_INTERVAL + late)" if "m \<le> Suc k" for m
    using that now(3) by (intro mult_right_mono) (simp_all add: DISCOVERY_INTERVAL_def)
  show ?thesis
  proof (cases "k \<le> i")
    case False
    then have "round_time t xs (Suc i) \<le> t + int (Suc i) * (DISCOVERY_INTERVAL + late)"
      using round_time_spread(2) [OF late, of 0 "Suc i" t] si by simp
    moreover have "int (Suc i) * (DISCOVERY_INTERVAL + late) \<le> int (Suc k) * (DISCOVERY_INTERVAL + late)"
      using False by (intro mono) simp
    ultimately show ?thesis using nx fits by linarith
  next
    case True
    then have "i - k + k < length fates" using i len by simp
    then obtain j where j: "j \<le> k" "fates ! (i - k + j) \<noteq> None"
      using loss unfolding losses_within_def by blast
    then obtain l where l: "fates ! (i - k + j) = Some l" by blast
    let ?m = "i - k + j"
    have m: "?m \<le> i" "i - k \<le> ?m" "?m < length xs" using j(1) True i(1) by auto
    have "Some l \<in> set fates" using l m len by (metis nth_mem)
    then have l2: "0 \<le> l" "l \<le> lat" using lat by auto
    have "round_time t xs ?m \<le> round_time t xs i"
      using round_time_spread(1) [OF late, of ?m "i - ?m" t] m i by simp
    then have before: "round_time t xs ?m + l < now" using i l2 by linarith
    have "round_time t xs (Suc i) \<le> round_time t xs ?m + int (Suc i - ?m) * (DISCOVERY_INTERVAL + late)"
      using round_time_spread(2) [OF late, of ?m "Suc i - ?m" t] m si by simp
    moreover have "int (Suc i - ?m) * (DISCOVERY_INTERVAL + late) \<le> int (Suc k) * (DISCOVERY_INTERVAL + late)"
      using m True by (intro mono) simp
    ultimately have "now \<le> round_time t xs ?m + l + PEER_TIMEOUT_SECS" using nx fits l2 by linarith
    then show ?thesis using before l m by (auto simp: arrives_def)
  qed
qed

text \<open>With at most \<open>k\<close> losses in a row a HELLO arrives within \<open>k + 1\<close> periods of any moment.\<close>

lemma arrival_soon:
  assumes late: "\<forall>x \<in> set xs. 0 \<le> x \<and> x \<le> late" "0 \<le> late" and len: "length fates = length xs" "xs \<noteq> []"
    and lat: "\<forall>l. Some l \<in> set fates \<longrightarrow> 0 \<le> l \<and> l \<le> lat" and loss: "losses_within k fates"
    and runs: "t \<le> start" "start + int k * (DISCOVERY_INTERVAL + late) < round_time t xs (length xs - 1)"
  obtains a where "arrives t xs fates a" "start < a" "a \<le> start + int (Suc k) * (DISCOVERY_INTERVAL + late) + lat"
proof -
  let ?D = "DISCOVERY_INTERVAL + late"
  have D: "0 \<le> ?D" using late(2) by (simp add: DISCOVERY_INTERVAL_def)
  have mono: "int m * ?D \<le> int n * ?D" if "m \<le> n" for m n
    using that D by (intro mult_right_mono) simp_all
  define P where "P i \<longleftrightarrow> i < length xs \<and> round_time t xs i \<le> start" for i
  have "P 0" using runs(1) len(2) by (simp add: P_def)
  moreover have "P i \<Longrightarrow> i \<le> length xs" for i by (simp add: P_def)
  ultimately have gr: "P (Greatest P)" "\<And>j. P j \<Longrightarrow> j \<le> Greatest P"
    using GreatestI_nat [of P 0 "length xs"] Greatest_le_nat [of P _ "length xs"] by auto
  define i where "i = Greatest P"
  have i: "i < length xs" "round_time t xs i \<le> start" using gr(1) by (simp_all add: P_def i_def)
  have last: "round_time t xs (length xs - 1) \<le> round_time t xs i + int (length xs - 1 - i) * ?D"
    using round_time_spread(2) [OF late(1), of i "length xs - 1 - i" t] i(1) by simp
  have room: "Suc i + k < length xs"
  proof (rule ccontr)
    assume "\<not> ?thesis"
    then have "int (length xs - 1 - i) * ?D \<le> int k * ?D" by (intro mono) simp
    then show False using last i(2) runs(2) by linarith
  qed
  have "\<not> P (Suc i)" using gr(2) [of "Suc i"] by (auto simp: i_def)
  then have after: "start < round_time t xs (Suc i)" using room by (simp add: P_def)
  have "Suc i + k < length fates" using len(1) room by simp
  then obtain j where j: "j \<le> k" "fates ! (Suc i + j) \<noteq> None"
    using loss unfolding losses_within_def by blast
  then obtain l where l: "fates ! (Suc i + j) = Some l" by blast
  have ij: "Suc i + j < length xs" using j(1) room by simp
  then have "Some l \<in> set fates" using l len(1) by (metis nth_mem)
  then have l2: "0 \<le> l" "l \<le> lat" using lat by auto
  show ?thesis
  proof (rule that [of "round_time t xs (Suc i + j) + l"])
    show "arrives t xs fates (round_time t xs (Suc i + j) + l)" using ij l by (auto simp: arrives_def)
    have "round_time t xs (Suc i) \<le> round_time t xs (Suc i + j)"
      using round_time_spread(1) [OF late(1), of "Suc i" j t] ij by simp
    then show "start < round_time t xs (Suc i + j) + l" using after l2 by linarith
    have "round_time t xs (i + Suc j) \<le> round_time t xs i + int (Suc j) * ?D"
      using ij by (intro round_time_spread(2) [OF late(1)]) simp
    moreover have "int (Suc j) * ?D \<le> int (Suc k) * ?D" using j(1) by (intro mono) simp
    ultimately show "round_time t xs (Suc i + j) + l \<le> start + int (Suc k) * ?D + lat"
      using i(2) l2(2) by simp
  qed
qed

section \<open>Live and silent peers\<close>

fun event_time :: "net_event \<Rightarrow> int" where
  "event_time (Net_Datagram e) = ev_t2 e"
| "event_time (Net_Reap now) = now"

definition comes_from :: "string \<Rightarrow> net_event \<Rightarrow> bool" where
  "comes_from ip e = (case e of Net_Datagram ev \<Rightarrow> inet_ntop (ev_src ev) = ip | Net_Reap _ \<Rightarrow> False)"

definition carries_hello :: "net_event \<Rightarrow> bool" where
  "carries_hello e = (case e of Net_Datagram ev \<Rightarrow> is_hello (ev_data ev) | Net_Reap _ \<Rightarrow> False)"

text \<open>In events ordered by time, a round of the reaper is covered when a HELLO came shortly before it.\<close>

lemma alive_covered:
  "sorted (map event_time es) \<Longrightarrow> \<forall>e \<in> set es. seen \<le> event_time e \<Longrightarrow>
   \<forall>e \<in> set es. comes_from ip e \<longrightarrow> carries_hello e \<Longrightarrow>
   \<forall>now. Net_Reap now \<in> set es \<longrightarrow> now - seen \<le> PEER_TIMEOUT_SECS \<or>
     (\<exists>h \<in> set es. comes_from ip h \<and> event_time h < now \<and> now - event_time h \<le> PEER_TIMEOUT_SECS) \<Longrightarrow>
   alive ip seen es"
proof (induction es arbitrary: seen)
  case (Cons e es)
  have srt: "sorted (map event_time es)" "\<forall>x \<in> set es. event_time e \<le> event_time x" using Cons.prems(1) by auto
  show ?case
  proof (cases e)
    case (Net_Reap now)
    then have "now - seen \<le> PEER_TIMEOUT_SECS"
      using Cons.prems(4) srt(2) by (force simp: comes_from_def)
    moreover have "alive ip seen es"
      using Cons.prems srt Net_Reap by (intro Cons.IH) (auto simp: comes_from_def)
    ultimately show ?thesis using Net_Reap by simp
  next
    case (Net_Datagram ev)
    show ?thesis
    proof (cases "inet_ntop (ev_src ev) = ip")
      case True
      have "seen \<le> ev_t2 ev" using Cons.prems(2) Net_Datagram by simp
      then have "alive ip (ev_t2 ev) es"
        using Cons.prems srt Net_Datagram by (intro Cons.IH) fastforce+
      moreover have "is_hello (ev_data ev)"
        using Cons.prems(3) Net_Datagram True by (simp add: comes_from_def carries_hello_def)
      ultimately show ?thesis using Net_Datagram True by simp
    next
      case False
      then have "alive ip seen es"
        using Cons.prems srt Net_Datagram by (intro Cons.IH) (auto simp: comes_from_def)
      then show ?thesis using Net_Datagram False by simp
    qed
  qed
qed simp

lemma alive_take: "alive ip seen es \<Longrightarrow> alive ip seen (take n es)"
proof (induction es arbitrary: seen n)
  case (Cons e es)
  then show ?case by (cases n; cases e) auto
qed simp

lemma reaper_gap:
  assumes "\<forall>y \<in> set ys. 0 \<le> y \<and> y \<le> late" "start \<le> deadline" "\<exists>r \<in> set (reaper_rounds start ys). deadline < r"
  shows "\<exists>r \<in> set (reaper_rounds start ys). deadline < r \<and> r \<le> deadline + REAPER_PERIOD + late"
  using assms
proof (induction ys arbitrary: start)
  case (Cons y ys)
  show ?case
  proof (cases "deadline < start + REAPER_PERIOD + y")
    case True
    then show ?thesis using Cons.prems by auto
  next
    case False
    then have "\<exists>r \<in> set (reaper_rounds (start + REAPER_PERIOD + y) ys). deadline < r \<and>
        r \<le> deadline + REAPER_PERIOD + late"
      using Cons.prems by (intro Cons.IH) auto
    then show ?thesis by auto
  qed
qed simp

lemma silent_stays_unknown:
  "ip \<notin> set (senders es) \<Longrightarrow> peers_ok g \<Longrightarrow> lookup g ip = None \<Longrightarrow> lookup (net_run d es g) ip = None"
  using silent_entry [of ip es g zero_peer d] silent_entry [of ip es g "zero_peer\<lparr>p_valid := True\<rparr>" d]
  by (auto simp: zero_peer_def)

lemma senders_set: "ip \<in> set (senders es) \<longleftrightarrow> (\<exists>ev. Net_Datagram ev \<in> set es \<and> inet_ntop (ev_src ev) = ip)"
  by (induction es rule: senders.induct) auto

lemma senders_append: "senders (xs @ ys) = senders xs @ senders ys"
  by (induction xs rule: senders.induct) auto

section \<open>Properties\<close>

text \<open>
  What the network does with the HELLOs of \<^verbatim>\<open>ip\<close>, in the events \<open>es\<close> of another node after
  \<open>since\<close>: every datagram from that address is one the announcer sent, and what arrives before a
  round of the reaper is among the events.
\<close>

definition hears :: "string \<Rightarrow> string \<Rightarrow> disc \<Rightarrow> int \<Rightarrow> int list \<Rightarrow> int option list \<Rightarrow> int \<Rightarrow> net_event list \<Rightarrow> bool" where
  "hears ip host db t xs fates since es \<longleftrightarrow>
     (\<forall>ev. Net_Datagram ev \<in> set es \<longrightarrow> inet_ntop (ev_src ev) = ip \<longrightarrow>
        (\<exists>i < length xs. \<exists>dg \<in> set (snd (announcer_thread host db t xs ! i)). ev_data ev = Some (dg_data dg))) \<and>
     (\<forall>a now. arrives t xs fates a \<longrightarrow> since < a \<longrightarrow> Net_Reap now \<in> set es \<longrightarrow> a < now \<longrightarrow>
        (\<exists>ev. Net_Datagram ev \<in> set es \<and> inet_ntop (ev_src ev) = ip \<and> ev_t2 ev = a))"

lemma announced_hello: "dg \<in> set (announcer_round host db) \<Longrightarrow> is_hello (Some (dg_data dg))"
  by (auto simp: announcer_round_def send_broadcast_def hello_packet_is_hello split: if_splits)

text \<open>C11: a node whose announcer runs stays in another node's table although its
  rounds are up to \<open>late\<close> seconds late, its HELLOs take up to \<open>lat\<close> seconds and up to \<open>k\<close>
  of them in a row are lost, whenever \<open>(k + 1) * (DISCOVERY_INTERVAL + late) + lat\<close> is within
  \<^verbatim>\<open>PEER_TIMEOUT_SECS\<close>: without delays the timeout tolerates five losses in a row.\<close>

theorem losses_tolerated:
  assumes "\<forall>x \<in> set xs. 0 \<le> x \<and> x \<le> late" "xs \<noteq> []" "0 \<le> late" "length fates = length xs"
    and "\<forall>l. Some l \<in> set fates \<longrightarrow> 0 \<le> l \<and> l \<le> lat" "losses_within k fates"
    and "int (Suc k) * (DISCOVERY_INTERVAL + late) + lat \<le> PEER_TIMEOUT_SECS"
    and "peers_ok g" "lookup g ip = Some p" "ip \<noteq> g_local_ip d" "t \<le> p_last_seen p"
    and "hears ip host db t xs fates (p_last_seen p) es"
    and "sorted (map event_time es)" "\<forall>e \<in> set es. p_last_seen p \<le> event_time e"
    and "\<forall>now. Net_Reap now \<in> set es \<longrightarrow> now \<le> round_time t xs (length xs - 1) + lat"
  shows "\<exists>q. lookup (net_run d (take n es) g) ip = Some q"
proof -
  let ?seen = "p_last_seen p"
  have hello: "\<forall>e \<in> set es. comes_from ip e \<longrightarrow> carries_hello e"
  proof (intro ballI impI)
    fix e assume e: "e \<in> set es" "comes_from ip e"
    from e(2) obtain ev where ev: "e = Net_Datagram ev" "inet_ntop (ev_src ev) = ip"
      by (cases e) (auto simp: comes_from_def)
    from e(1) [unfolded ev(1)] ev(2) assms(12) obtain i dg where "i < length xs" "dg \<in> set (snd (announcer_thread host db t xs ! i))"
      "ev_data ev = Some (dg_data dg)" unfolding hears_def by blast
    then show "carries_hello e" using announced_hello ev by (simp add: announcer_nth carries_hello_def)
  qed
  have "now - ?seen \<le> PEER_TIMEOUT_SECS \<or>
      (\<exists>h \<in> set es. comes_from ip h \<and> event_time h < now \<and> now - event_time h \<le> PEER_TIMEOUT_SECS)"
    if now: "Net_Reap now \<in> set es" for now
  proof -
    have "now \<le> round_time t xs (length xs - 1) + lat" using assms(15) now by blast
    from hello_in_window [OF assms(1,4,5,6,7) this assms(2,3)]
    consider "now \<le> t + PEER_TIMEOUT_SECS" | a where "arrives t xs fates a" "a < now" "now \<le> a + PEER_TIMEOUT_SECS"
      by blast
    then show ?thesis
    proof cases
      case 1
      then show ?thesis using assms(11) by simp
    next
      case (2 a)
      show ?thesis
      proof (cases "?seen < a")
        case True
        with 2 now assms(12) obtain ev where "Net_Datagram ev \<in> set es" "inet_ntop (ev_src ev) = ip" "ev_t2 ev = a"
          unfolding hears_def by blast
        then show ?thesis using 2 by (intro disjI2 bexI [of _ "Net_Datagram ev"]) (simp_all add: comes_from_def)
      qed (use 2 in simp)
    qed
  qed
  then have "alive ip ?seen es" using alive_covered [OF assms(13,14) hello] by blast
  then show ?thesis using alive_known [OF alive_take assms(8,9,10)] by blast
qed

text \<open>Rounds at 10, 15, ..., 50; only the HELLOs of 10 and, a second late, of 35 arrive.\<close>

theorem losses_tolerated_witness:
  "\<exists>q. lookup (net_run node_a (take 3 [Net_Reap 30, Net_Datagram \<lparr>ev_t1 = 36, ev_t2 = 36, ev_src = 0x0200000A,
       ev_data = Some (hello_packet ''bob'' node_b MSG_HELLO)\<rparr>, Net_Reap 45])
     (peer_list_add 10 peer_list_init ''10.0.0.2'' 7777)) ''10.0.0.2'' = Some q"
proof -
  let ?ev = "\<lparr>ev_t1 = 36, ev_t2 = 36, ev_src = 0x0200000A, ev_data = Some (hello_packet ''bob'' node_b MSG_HELLO)\<rparr>"
  let ?xs = "replicate 9 (0::int)"
  let ?fates = "[Some 0, None, None, None, None, Some 1, None, None, None] :: int option list"
  have l: "lookup (peer_list_add 10 peer_list_init ''10.0.0.2'' 7777) ''10.0.0.2'' = Some (new_entry 10 ''10.0.0.2'' 7777)"
    "''10.0.0.2'' \<noteq> g_local_ip node_a" "p_last_seen (new_entry 10 ''10.0.0.2'' 7777) = 10"
    by (simp_all add: table_of_one_at(2) node_a_def new_entry_def)
  have rt: "round_time 10 ?xs i = 10 + 5 * int (min i 9)" for i
    by (simp add: round_time_def DISCOVERY_INTERVAL_def take_replicate sum_list_replicate)
  have ar: "arrives 10 ?xs ?fates a \<longleftrightarrow> a = 10 \<or> a = 36" for a
    unfolding arrives_def rt by (simp add: numeral_eq_Suc Ex_less_Suc2)
  have loss: "losses_within 4 ?fates"
    by (simp add: losses_within_def numeral_eq_Suc All_less_Suc2 Ex_less_Suc2 less_Suc_eq_le [symmetric])
  have h: "hears ''10.0.0.2'' ''bob'' node_b 10 ?xs ?fates 10 [Net_Reap 30, Net_Datagram ?ev, Net_Reap 45]"
    unfolding hears_def ar
    by (auto simp: announcer_nth announcer_round_def send_broadcast_def node_b_def ip_10_0_0_2 intro!: exI [of _ 0])
  show ?thesis
    by (rule losses_tolerated [OF _ _ _ _ _ loss _ table_of_one_at(1) l(1,2), where late = 0 and lat = 1 and
          host = "''bob''" and db = node_b and t = 10 and xs = ?xs])
      (use h in \<open>simp_all add: l(3) rt DISCOVERY_INTERVAL_def PEER_TIMEOUT_SECS_def\<close>)
qed

text \<open>C13: a node that falls silent is forgotten at the latest
  \<^verbatim>\<open>PEER_TIMEOUT_SECS\<close> and one period of the reaper after it was last seen, that is 45 seconds,
  plus what a round of the reaper is late.\<close>

theorem silent_forgotten:
  assumes "peers_ok g" "lookup g ip = Some p" "ip \<notin> set (senders es)"
    and "\<forall>y \<in> set ys. 0 \<le> y \<and> y \<le> late" "start \<le> p_last_seen p + PEER_TIMEOUT_SECS"
    and "\<exists>r \<in> set (reaper_rounds start ys). p_last_seen p + PEER_TIMEOUT_SECS < r"
    and "\<forall>r \<in> set (reaper_rounds start ys). r \<le> until \<longrightarrow> Net_Reap r \<in> set es"
    and "p_last_seen p + 45 + late \<le> until"
  shows "lookup (net_run d es g) ip = None"
proof -
  from reaper_gap [OF assms(4-6)] obtain r where r: "r \<in> set (reaper_rounds start ys)"
    "p_last_seen p + PEER_TIMEOUT_SECS < r" "r \<le> p_last_seen p + PEER_TIMEOUT_SECS + REAPER_PERIOD + late" by blast
  then have "r \<le> until" using assms(8) by (simp add: PEER_TIMEOUT_SECS_def REAPER_PERIOD_def)
  then obtain before after where es: "es = before @ Net_Reap r # after" using assms(7) r(1) by (meson split_list)
  have ok: "peers_ok (net_run d before g)" using net_run_table [OF assms(1)] by blast
  moreover have "lookup (net_run d before g) ip = None \<or> lookup (net_run d before g) ip = Some p"
    using silent_entry [of ip before g p d] assms(1-3) by (simp add: es senders_append)
  ultimately have "lookup (reaper_round r (net_run d before g)) ip = None"
    using r(2) by (auto simp: reaper_round_def reg.look_reap stale_def)
  moreover have "peers_ok (reaper_round r (net_run d before g))" using ok by (simp add: reaper_round_def reg.ok_reap)
  moreover have "ip \<notin> set (senders after)" using assms(3) by (simp add: es senders_append)
  ultimately show ?thesis using silent_stays_unknown by (simp add: es net_run_append)
qed

theorem silent_forgotten_witness:
  "lookup (net_run node_a [Net_Reap 15, Net_Reap 31, Net_Reap 47] (peer_list_add 10 peer_list_init ''10.0.0.2'' 7777))
     ''10.0.0.2'' = None"
proof -
  have l: "lookup (peer_list_add 10 peer_list_init ''10.0.0.2'' 7777) ''10.0.0.2'' = Some (new_entry 10 ''10.0.0.2'' 7777)"
    "p_last_seen (new_entry 10 ''10.0.0.2'' 7777) = 10"
    by (simp_all add: table_of_one_at(2) new_entry_def)
  show ?thesis
    by (rule silent_forgotten [OF table_of_one_at(1) l(1), where ys = "[0, 1, 1]" and late = 1 and start = 0 and until = 56])
      (simp_all add: l(2) REAPER_PERIOD_def PEER_TIMEOUT_SECS_def)
qed

text \<open>C12: a node whose announcer runs is in the table of a node that starts later within
  \<open>k + 1\<close> of its announcements and the delay of the last, when no more than \<open>k\<close> HELLOs in a row are
  lost and the table has a free slot: it appears with the port it announces and the time of arrival.\<close>

theorem joins_within:
  assumes "\<forall>x \<in> set xs. 0 \<le> x \<and> x \<le> late" "0 \<le> late" "length fates = length xs" "xs \<noteq> []"
    and "\<forall>l. Some l \<in> set fates \<longrightarrow> 0 \<le> l \<and> l \<le> lat" "losses_within k fates"
    and "t \<le> start" "start + int k * (DISCOVERY_INTERVAL + late) < round_time t xs (length xs - 1)"
    and "until = start + int (Suc k) * (DISCOVERY_INTERVAL + late) + lat"
    and "\<forall>a. arrives t xs fates a \<longrightarrow> start < a \<longrightarrow> a \<le> until \<longrightarrow>
      (\<exists>ev. Net_Datagram ev \<in> set es \<and> inet_ntop (ev_src ev) = ip \<and> ev_t2 ev = a \<and>
        (\<exists>i < length xs. \<exists>dg \<in> set (snd (announcer_thread host db t xs ! i)). ev_data ev = Some (dg_data dg)))"
    and "peers_ok g" "ip \<noteq> g_local_ip d"
    and "\<forall>m. lookup (net_run d (take m es) g) ip \<noteq> None \<or> peer_count (net_run d (take m es) g) < MAX_PEERS"
  shows "\<exists>m < length es. start < event_time (es ! m) \<and> event_time (es ! m) \<le> until \<and>
    (\<exists>q. lookup (net_run d (take (Suc m) es) g) ip = Some q \<and> p_port q = g_own_port db \<and>
       p_last_seen q = event_time (es ! m))"
proof -
  from arrival_soon [OF assms(1-8)] obtain a where a: "arrives t xs fates a" "start < a" "a \<le> until"
    unfolding assms(9) .
  with assms(10) obtain ev i dg where ev: "Net_Datagram ev \<in> set es" "inet_ntop (ev_src ev) = ip" "ev_t2 ev = a"
    and dg: "i < length xs" "dg \<in> set (snd (announcer_thread host db t xs ! i))" "ev_data ev = Some (dg_data dg)"
    by blast
  have hello: "ev_data ev = Some (hello_packet host db MSG_HELLO)"
    using dg by (auto simp: announcer_nth announcer_round_def send_broadcast_def split: if_splits)
  from ev(1) obtain m where m: "m < length es" "es ! m = Net_Datagram ev" by (auto simp: in_set_conv_nth)
  let ?h = "net_run d (take m es) g"
  have ok: "peers_ok ?h" using net_run_table [OF assms(11)] by blast
  have "length ip < INET_ADDRSTRLEN" using length_inet_ntop ev(2) by blast
  from reg.hello_known [OF ok this, of "ev_t2 ev" "ev_t1 ev" "g_own_port db"] assms(13)
  obtain q where "lookup (peer_list_touch (ev_t2 ev) (peer_list_add (ev_t1 ev) ?h ip (g_own_port db)) ip) ip = Some q"
    "p_port q = g_own_port db" "p_last_seen q = ev_t2 ev" by blast
  then have "lookup (net_run d (take (Suc m) es) g) ip = Some q \<and> p_port q = g_own_port db \<and>
      p_last_seen q = event_time (es ! m)"
    using ev(2) assms(12) m by (simp add: take_Suc_conv_app_nth net_run_append hello listener_hello_packet)
  then show ?thesis using a ev(3) m by auto
qed

text \<open>Rounds at 10, 15, ..., 50, every second HELLO lost: a node that starts at 12 knows the peer by 22.\<close>

theorem joins_within_witness:
  "\<exists>q. lookup (net_run node_a [Net_Datagram \<lparr>ev_t1 = 20, ev_t2 = 20, ev_src = 0x0200000A,
     ev_data = Some (hello_packet ''bob'' node_b MSG_HELLO)\<rparr>] peer_list_init) ''10.0.0.2'' = Some q \<and> p_last_seen q = 20"
proof -
  let ?ev = "\<lparr>ev_t1 = 20, ev_t2 = 20, ev_src = 0x0200000A, ev_data = Some (hello_packet ''bob'' node_b MSG_HELLO)\<rparr>"
  let ?es = "[Net_Datagram ?ev]"
  let ?xs = "replicate 9 (0::int)"
  let ?fates = "[Some 0, None, Some 0, None, Some 0, None, Some 0, None, Some 0] :: int option list"
  have rt: "round_time 10 ?xs i = 10 + 5 * int (min i 9)" for i
    by (simp add: round_time_def DISCOVERY_INTERVAL_def take_replicate sum_list_replicate)
  have loss: "losses_within 1 ?fates"
    by (simp add: losses_within_def numeral_eq_Suc All_less_Suc2 Ex_less_Suc2 less_Suc_eq_le [symmetric])
  have ar: "arrives 10 ?xs ?fates a \<Longrightarrow> 12 < a \<Longrightarrow> a \<le> 22 \<Longrightarrow> a = 20" for a
    unfolding arrives_def rt by (auto simp add: numeral_eq_Suc less_Suc_eq)
  have heard: "\<exists>i < length ?xs. \<exists>dg \<in> set (snd (announcer_thread ''bob'' node_b 10 ?xs ! i)). ev_data ?ev = Some (dg_data dg)"
    by (intro exI [of _ 0]) (simp add: announcer_nth announcer_round_def send_broadcast_def node_b_def)
  have free: "lookup peer_list_init ''10.0.0.2'' \<noteq> None \<or> peer_count peer_list_init < MAX_PEERS"
    by (simp add: empty_table MAX_PEERS_def)
  have ip: "length ''10.0.0.2'' < INET_ADDRSTRLEN" by (simp add: INET_ADDRSTRLEN_def)
  from reg.hello_known [OF peers_ok_init ip free, of 20 20 "g_own_port node_b"]
  have known: "lookup (net_run node_a ?es peer_list_init) ''10.0.0.2'' \<noteq> None"
    by (auto simp: listener_hello_packet ip_10_0_0_2 node_a_def node_b_def)
  have room: "lookup (net_run node_a (take m ?es) peer_list_init) ''10.0.0.2'' \<noteq> None \<or>
      peer_count (net_run node_a (take m ?es) peer_list_init) < MAX_PEERS" for m
    using free known by (cases m) auto
  have "\<exists>m < length ?es. 12 < event_time (?es ! m) \<and> event_time (?es ! m) \<le> 22 \<and>
      (\<exists>q. lookup (net_run node_a (take (Suc m) ?es) peer_list_init) ''10.0.0.2'' = Some q \<and>
         p_port q = g_own_port node_b \<and> p_last_seen q = event_time (?es ! m))"
    by (rule joins_within [OF _ _ _ _ _ loss, where late = 0 and lat = 0 and t = 10 and xs = ?xs and host = "''bob''"])
      (use heard room in \<open>auto simp: rt DISCOVERY_INTERVAL_def ip_10_0_0_2 peers_ok_init node_a_def dest!: ar\<close>)
  then show ?thesis by auto
qed

text \<open>C24: the pause before the shell starts is shorter than a period of the announcer: even
  when no HELLO is lost or late, a node that starts between two rounds of its only peer, more than
  \<^verbatim>\<open>START_PAUSE\<close> before the next, shows its prompt with an empty table, and a task submitted at
  once stays on the node, whatever the loads are.\<close>

theorem pause_too_short:
  assumes "\<forall>x \<in> set xs. 0 \<le> x" "Suc i < length xs" "fates = replicate (length xs) (Some 0)"
    and "round_time t xs i < start" "start + START_PAUSE < round_time t xs i + DISCOVERY_INTERVAL"
    and "\<forall>ev. Net_Datagram ev \<in> set es \<longrightarrow> inet_ntop (ev_src ev) = g_local_ip d \<or> arrives t xs fates (ev_t2 ev)"
    and "\<forall>e \<in> set es. start < event_time e \<and> event_time e \<le> start + START_PAUSE"
    and "ds_peers s = net_run d es peer_list_init"
  shows "lookup (ds_peers s) = Map.empty \<and>
    (\<exists>s'. choose_target e local_ip own_port s = (True, local_ip, own_port, s'))"
proof -
  define late where "late = Max (insert 0 (set xs))"
  have late: "\<forall>x \<in> set xs. 0 \<le> x \<and> x \<le> late" using assms(1) by (simp add: late_def)
  have none: "\<not> arrives t xs fates a" if a: "start < a" "a \<le> start + START_PAUSE" for a
  proof
    assume "arrives t xs fates a"
    then obtain j where j: "j < length xs" "a = round_time t xs j" by (auto simp: arrives_def assms(3))
    show False
    proof (cases "j \<le> i")
      case True
      then show False using round_time_spread(1) [OF late, of j "i - j" t] j a(1) assms(2,4) by simp
    next
      case False
      then have "round_time t xs (Suc i) \<le> a"
        using round_time_spread(1) [OF late, of "Suc i" "j - Suc i" t] j by simp
      moreover have "round_time t xs i + DISCOVERY_INTERVAL \<le> round_time t xs (Suc i)"
        using round_time_Suc [of i xs t] assms(1,2) by simp
      ultimately show False using a(2) assms(5) by linarith
    qed
  qed
  have own: "inet_ntop (ev_src ev) = g_local_ip d" if "Net_Datagram ev \<in> set es" for ev
    using none [of "ev_t2 ev"] assms(6,7) that by force
  have ok: "peers_ok (ds_peers s)" using net_run_table [OF peers_ok_init] by (simp add: assms(8))
  have empty: "lookup (ds_peers s) ip = None" for ip
  proof (cases "ip = g_local_ip d")
    case True
    then show ?thesis using net_run_table [OF peers_ok_init, of d es] by (simp add: assms(8) lookup_init)
  next
    case False
    then have "ip \<notin> set (senders es)" using own by (auto simp: senders_set)
    then show ?thesis using silent_stays_unknown [OF _ peers_ok_init] by (simp add: assms(8) lookup_init)
  qed
  then have "peer_list_get_all (ds_peers s) MAX_PEERS = []"
    using get_all_lookup [OF ok] by (metis last_in_set option.distinct(1))
  then show ?thesis using empty by (auto simp: choose_target_def Let_def fun_eq_iff split: prod.splits)
qed

text \<open>The peer announces at 10 and 15; a node that starts at 11 asks for commands at 13 and is alone.\<close>

theorem pause_too_short_witness:
  "\<exists>s'. choose_target demo_env ''10.0.0.1'' 7777 \<lparr>ds_peers = peer_list_init, ds_kern = ws_kern idle_worker,
     ds_sent = [], ds_out = []\<rparr> = (True, ''10.0.0.1'', 7777, s')"
proof -
  have "round_time 10 [0, 0] 0 < 11" "11 + START_PAUSE < round_time 10 [0, 0] 0 + DISCOVERY_INTERVAL"
    by (simp_all add: START_PAUSE_def DISCOVERY_INTERVAL_def)
  from pause_too_short [OF _ _ refl this, where es = "[]" and d = node_a] show ?thesis by simp
qed

end
