(* ===== verification/Cluster.thy ===== *)
theory Cluster
  imports Node_System
begin

text \<open>
  Several nodes together: the port that listener and responder of a node share, the choice of the
  least loaded node of a network, a \<^verbatim>\<open>submit\<close> from the file to the printed exit code, the
  dispatcher's queries while the discovery threads change the table, and many tasks served by one worker.
\<close>

section \<open>Two readers of one port\<close>

text \<open>
  The discovery listener and the load responder of a node both bind UDP port
  \<^verbatim>\<open>DISCOVERY_PORT\<close> with \<^verbatim>\<open>SO_REUSEPORT\<close>. The kernel gives a unicast datagram to one
  of the two sockets, picked from its source address in a way the program does not control: the choice is
  the parameter \<open>ho_pick\<close>.
\<close>

datatype reader = To_Listener | To_Responder

record host =
  ho_disc :: disc
  ho_peers :: peers
  ho_load :: loadavg
  ho_ncores :: int
  ho_tasks :: load_state
  ho_pick :: "sockaddr_in \<Rightarrow> reader"

definition unicast :: "host \<Rightarrow> int \<Rightarrow> sockaddr_in \<Rightarrow> byte list \<Rightarrow> datagram option \<times> peers" where
  "unicast h now src pkt =
     (case ho_pick h src of
        To_Listener \<Rightarrow> (None, listener_step (ho_disc h) now now (sin_addr src) (Some pkt) (ho_peers h))
      | To_Responder \<Rightarrow> (responder_step (ho_load h) (ho_ncores h) (ho_tasks h) (ho_tasks h) src (Some pkt), ho_peers h))"

text \<open>A query over a network that loses nothing: \<^verbatim>\<open>select\<close> reports the answer if there is one.\<close>

definition query_meets :: "query_env \<Rightarrow> host \<Rightarrow> sockaddr_in \<Rightarrow> bool" where
  "query_meets qe h src \<longleftrightarrow> se_socket (qe_sock qe) \<and>
     (case fst (unicast h (qe_now qe) src load_req_packet) of
        None \<Rightarrow> qe_select qe = 0
      | Some dg \<Rightarrow> qe_select qe = 1 \<and> qe_recv qe = Some (dg_data dg))"

definition host_score :: "host \<Rightarrow> f32" where
  "host_score h = load_score_local (ho_load h) (ho_ncores h) (ho_tasks h)"

lemma listener_ignores_query: "listener_step d t1 t2 src (Some load_req_packet) g = g"
proof -
  have "length load_req_packet = HDR_SIZE" "h_type (rd_header load_req_packet) = msg_code MSG_LOAD_REQ"
    by (simp_all add: load_req_packet_def HDR_SIZE_def)
  then show ?thesis by (simp add: listener_step_def Let_def LISTEN_BUF_def)
qed

lemma responder_ignores_hello: "ty = MSG_HELLO \<or> ty = MSG_BYE \<Longrightarrow>
    responder_step la n l1 l2 src (Some (hello_packet host d ty)) = None"
  by (auto simp: responder_step_def hello_packet_def Let_def RESPONDER_BUF_def HDR_SIZE_def)

lemma query_reaches:
  "fst (unicast h now src load_req_packet) =
     (case ho_pick h src of To_Listener \<Rightarrow> None
      | To_Responder \<Rightarrow> Some \<lparr>dg_dst = src, dg_data = load_resp_packet (ho_load h) (ho_ncores h) (ho_tasks h) (ho_tasks h)\<rparr>)"
  "snd (unicast h now src load_req_packet) = ho_peers h"
  by (simp_all add: unicast_def responder_answers listener_ignores_query split: reader.split)

text \<open>What the querying node makes of the answer, or of none.\<close>

lemma answer_resp:
  assumes "se_socket (qe_sock qe)" "0 < qe_select qe" "qe_recv qe = Some (load_resp_packet la n l l)"
  shows "\<exists>q. answer qe ip port = (load_score_local la n l, Some q) \<and> q_port q = port"
  using assms by (simp add: answer_def load_resp_wire Let_def load_score_local_def)

lemma answer_meets:
  assumes "query_meets qe h src"
  shows "ho_pick h src = To_Responder \<Longrightarrow> \<exists>q. answer qe ip port = (host_score h, Some q) \<and> q_port q = port"
    "ho_pick h src = To_Listener \<Longrightarrow> answer qe ip port = (NO_ANSWER, None)"
proof -
  assume "ho_pick h src = To_Responder"
  then show "\<exists>q. answer qe ip port = (host_score h, Some q) \<and> q_port q = port"
    using assms answer_resp [of qe "ho_load h" "ho_ncores h" "ho_tasks h" ip port]
    by (simp add: query_meets_def query_reaches host_score_def)
next
  assume "ho_pick h src = To_Listener"
  then show "answer qe ip port = (NO_ANSWER, None)"
    using assms by (simp add: query_meets_def query_reaches answer_def)
qed

section \<open>Queries while the discovery threads run\<close>

text \<open>
  The query loop with the other threads in between: before each query the listener and the reaper
  have done what \<open>env i\<close> lists. The loop itself goes over the copy of the table made at the start.
\<close>

fun query_loop_among ::
  "disc \<Rightarrow> (nat \<Rightarrow> net_event list) \<Rightarrow> (nat \<Rightarrow> query_env) \<Rightarrow> nat \<Rightarrow> peers \<Rightarrow> best \<Rightarrow> dstate \<Rightarrow> best \<times> dstate" where
  "query_loop_among d env qs i [] b s = (b, s)"
| "query_loop_among d env qs i (p # ps) b s =
     (let s0 = s\<lparr>ds_peers := net_run d (env i) (ds_peers s)\<rparr>;
          (b1, s1) = query_loop qs i [p] b s0
      in query_loop_among d env qs (Suc i) ps b1 s1)"

definition same_but_table :: "dstate \<Rightarrow> dstate \<Rightarrow> bool" where
  "same_but_table s s' \<longleftrightarrow> ds_kern s' = ds_kern s \<and> ds_sent s' = ds_sent s \<and> ds_out s' = ds_out s"

lemma query_peer_load_same:
  assumes "same_but_table s s'" "query_peer_load qe ip port s = (score, res, t)"
  shows "\<exists>t'. query_peer_load qe ip port s' = (score, res, t') \<and> same_but_table t t'"
  using assms
  by (auto simp: query_peer_load_def same_but_table_def udp_0 sys_socket_def Let_def split: option.splits if_splits)

lemma query_loop_Cons:
  "query_loop qs i (p # ps) b s = (let (b1, s1) = query_loop qs i [p] b s in query_loop qs (Suc i) ps b1 s1)"
  by (simp split: prod.split)

lemma query_loop_one_same:
  assumes "same_but_table s s'"
  shows "fst (query_loop qs i [p] b s') = fst (query_loop qs i [p] b s)"
    "same_but_table (snd (query_loop qs i [p] b s)) (snd (query_loop qs i [p] b s'))"
proof -
  obtain score res t where q: "query_peer_load (qs i) (p_ip p) (p_port p) s = (score, res, t)"
    by (cases "query_peer_load (qs i) (p_ip p) (p_port p) s") auto
  from query_peer_load_same [OF assms q] obtain t' where
    q': "query_peer_load (qs i) (p_ip p) (p_port p) s' = (score, res, t')" "same_but_table t t'" by blast
  show "fst (query_loop qs i [p] b s') = fst (query_loop qs i [p] b s)"
    "same_but_table (snd (query_loop qs i [p] b s)) (snd (query_loop qs i [p] b s'))"
    using q q' by (simp_all add: same_but_table_def)
qed

lemma query_loop_among_same:
  "same_but_table s s' \<Longrightarrow> fst (query_loop_among d env qs i ps b s') = fst (query_loop qs i ps b s) \<and>
     same_but_table (snd (query_loop qs i ps b s)) (snd (query_loop_among d env qs i ps b s'))"
proof (induction ps arbitrary: i b s s')
  case (Cons p ps)
  let ?s0 = "s'\<lparr>ds_peers := net_run d (env i) (ds_peers s')\<rparr>"
  have "same_but_table s ?s0" using Cons.prems by (simp add: same_but_table_def)
  note one = query_loop_one_same [OF this, of qs i p b]
  from Cons.IH [OF one(2), of "Suc i" "fst (query_loop qs i [p] b s)"] one(1)
  show ?case unfolding query_loop_Cons [of qs i p ps b s] query_loop_among.simps(2)
    by (simp only: Let_def split_beta)
qed simp

lemma query_loop_among_steps:
  "rtranclp (table_step d) (ds_peers s) (ds_peers (snd (query_loop_among d env qs i ps b s)))"
proof (induction ps arbitrary: i b s)
  case (Cons p ps)
  let ?s0 = "s\<lparr>ds_peers := net_run d (env i) (ds_peers s)\<rparr>"
  have "rtranclp (table_step d) (ds_peers s) (ds_peers ?s0)" using net_run_steps by simp
  also have "rtranclp (table_step d) (ds_peers ?s0) (ds_peers (snd (query_loop qs i [p] b ?s0)))"
    by (rule query_loop_steps)
  also note Cons [where i = "Suc i" and b = "fst (query_loop qs i [p] b ?s0)" and s = "snd (query_loop qs i [p] b ?s0)"]
  finally show ?case unfolding query_loop_among.simps(2) by (simp only: Let_def split_beta)
qed simp

section \<open>Tasks one after another\<close>

text \<open>
  Handlers that do not overlap: each connection is served to its end before the next one. A compiler
  that succeeds writes the binary.
\<close>

fun serve_all :: "(nat \<Rightarrow> bool) \<Rightarrow> work_env \<Rightarrow> (int \<times> conn) list \<Rightarrow> wstate \<Rightarrow> (conn list \<times> wstate) option" where
  "serve_all mw we [] s = Some ([], s)"
| "serve_all mw we ((fd, c) # cs) s =
     (case handle_connection mw we fd c s of
        None \<Rightarrow> None
      | Some (c1, s1) \<Rightarrow> map_option (\<lambda>(rs, s2). (c1 # rs, s2)) (serve_all mw we cs s1))"

definition compiler_writes :: "work_env \<Rightarrow> bool" where
  "compiler_writes we \<longleftrightarrow>
     (\<forall>data. child_exit (ch_status (fst (exec_gcc we (Some data))) False) = 0 \<longrightarrow> snd (exec_gcc we (Some data)) \<noteq> None)"

text \<open>A client's connection, for the task it sends, and what it is sent back.\<close>

definition client_sends :: "(nat \<Rightarrow> bool) \<Rightarrow> work_env \<Rightarrow> byte list \<Rightarrow> byte list \<Rightarrow> conn \<Rightarrow> bool" where
  "client_sends mw we fn data c \<longleftrightarrow>
     stream c = frame MSG_TASK_FILE (task_bytes fn data) \<and> length fn < MAX_FILENAME_LEN \<and> length data \<le> MAX_FILE_SIZE \<and>
     mw (length (task_bytes fn data) + 1) \<and> task_ends we data None \<and>
     room_for c (9 * length (fst (task_reply we data None)) + 12)"

definition client_gets :: "work_env \<Rightarrow> byte list \<Rightarrow> conn \<Rightarrow> conn \<Rightarrow> bool" where
  "client_gets we data c c' \<longleftrightarrow>
     (\<exists>chunks. chunks_of chunks (fst (task_reply we data None)) \<and> outp c' = outp c @ frames chunks @
        frame MSG_TASK_DONE (done_payload (word_of_int (snd (task_reply we data None)))))"

lemma reply_no_stale:
  assumes "compiler_writes we"
  shows "task_reply we data old = task_reply we data None"
proof -
  obtain g bin where g: "exec_gcc we (Some data) = (g, bin)" by fastforce
  have "child_exit (ch_status g False) = 0 \<Longrightarrow> bin \<noteq> None" using assms g unfolding compiler_writes_def by (metis fst_conv snd_conv)
  then show ?thesis by (cases "child_exit (ch_status g False) = 0") (auto simp: task_reply_def g)
qed

lemma serve_one:
  assumes "compiler_writes we" "env_ok we data"
    and "client_sends mw we fn data c" "task_ends we data (ws_fs s (bin_path (we_pid we)))"
  obtains c' s' where "handle_connection mw we fd c s = Some (c', s')" "client_gets we data c c'"
    "ws_load s' = (ws_load s)\<lparr>g_total_tasks := g_total_tasks (ws_load s) + 1\<rparr>"
proof -
  obtain out code where r: "task_reply we data None = (out, code)" by fastforce
  then have r': "task_reply we data (ws_fs s (bin_path (we_pid we))) = (out, code)"
    using reply_no_stale [OF assms(1)] by metis
  have str: "stream c = frame MSG_TASK_FILE (task_bytes fn data) @ []" "length fn < MAX_FILENAME_LEN"
    "length data \<le> MAX_FILE_SIZE" "mw (length (task_bytes fn data) + 1)" "room_for c (9 * length out + 12)"
    using assms(3) r by (simp_all add: client_sends_def)
  from handle_task [of c fn data "[]" mw we s out code fd, OF str(1-4) assms(2,4) r' str(5)]
  show ?thesis using that r unfolding client_gets_def by (metis fst_conv snd_conv)
qed

section \<open>Properties\<close>

text \<open>C26: a load query is answered if and only if the kernel hands it to the
  responder. Handed to the listener of the same node it is dropped without a trace, and the querying
  node, which waits in vain, scores a reachable peer like a dead one. The other way round, a copy of
  another node's HELLO enters its sender in the table when the listener gets it, if there is a slot, and
  is without any effect when the responder does.\<close>

theorem query_port_shared:
  assumes "query_meets qe h src" "peers_ok (ho_peers h)" "sender = inet_ntop (sin_addr hsrc)"
    and "sender \<noteq> g_local_ip (ho_disc h)" "lookup (ho_peers h) sender \<noteq> None \<or> peer_count (ho_peers h) < MAX_PEERS"
  shows "unicast h now src load_req_packet =
      (case ho_pick h src of
         To_Listener \<Rightarrow> None
       | To_Responder \<Rightarrow>
           Some \<lparr>dg_dst = src, dg_data = load_resp_packet (ho_load h) (ho_ncores h) (ho_tasks h) (ho_tasks h)\<rparr>,
       ho_peers h) \<and>
    (case ho_pick h hsrc of
       To_Listener \<Rightarrow> \<exists>q. lookup (snd (unicast h now hsrc (hello_packet name d MSG_HELLO))) sender = Some q \<and>
         p_port q = g_own_port d \<and> p_last_seen q = now
     | To_Responder \<Rightarrow> unicast h now hsrc (hello_packet name d MSG_HELLO) = (None, ho_peers h)) \<and>
    (\<exists>res s'. query_peer_load qe ip port s =
       (case ho_pick h src of To_Listener \<Rightarrow> NO_ANSWER | To_Responder \<Rightarrow> host_score h, res, s') \<and>
       (ho_pick h src = To_Listener \<longrightarrow> res = None \<and> ds_peers s' = ds_peers s))"
proof (intro conjI impI)
  show "unicast h now src load_req_packet =
      (case ho_pick h src of
         To_Listener \<Rightarrow> None
       | To_Responder \<Rightarrow>
           Some \<lparr>dg_dst = src, dg_data = load_resp_packet (ho_load h) (ho_ncores h) (ho_tasks h) (ho_tasks h)\<rparr>,
       ho_peers h)"
    using query_reaches [of h now src] by (simp add: prod_eq_iff split: reader.split)
  have "length sender < INET_ADDRSTRLEN" using assms(3) length_inet_ntop by simp
  from reg.hello_known [OF assms(2) this assms(5), of now now "g_own_port d"]
  show "case ho_pick h hsrc of
       To_Listener \<Rightarrow> \<exists>q. lookup (snd (unicast h now hsrc (hello_packet name d MSG_HELLO))) sender = Some q \<and>
         p_port q = g_own_port d \<and> p_last_seen q = now
     | To_Responder \<Rightarrow> unicast h now hsrc (hello_packet name d MSG_HELLO) = (None, ho_peers h)"
    using assms(3,4) by (simp add: unicast_def listener_hello_packet responder_ignores_hello split: reader.split)
  obtain score res s' where q: "query_peer_load qe ip port s = (score, res, s')"
    by (cases "query_peer_load qe ip port s") auto
  note a = query_answer [OF q]
  show "\<exists>res s'. query_peer_load qe ip port s =
       (case ho_pick h src of To_Listener \<Rightarrow> NO_ANSWER | To_Responder \<Rightarrow> host_score h, res, s') \<and>
       (ho_pick h src = To_Listener \<longrightarrow> res = None \<and> ds_peers s' = ds_peers s)"
  proof (cases "ho_pick h src")
    case To_Listener
    then have "score = NO_ANSWER" "res = None" using answer_meets(2) [OF assms(1)] a by auto
    moreover have "qe_select qe \<le> 0" using assms(1) To_Listener by (simp add: query_meets_def query_reaches)
    then have "ds_peers s' = ds_peers s" using q
      by (auto simp: query_peer_load_def Let_def split: if_splits prod.splits)
    ultimately show ?thesis using q To_Listener by simp
  next
    case To_Responder
    then have "score = host_score h" using answer_meets(1) [OF assms(1), of ip port] a by auto
    then show ?thesis using q To_Responder by simp
  qed
qed

definition lost_host :: host where
  "lost_host = \<lparr>ho_disc = node_a, ho_peers = peer_list_init, ho_load = Fopen_Failed, ho_ncores = 4,
     ho_tasks = load_init, ho_pick = (\<lambda>a. if sin_port a = 1 then To_Responder else To_Listener)\<rparr>"

theorem query_port_shared_witness:
  "\<exists>s'. query_peer_load \<lparr>qe_sock = all_ok, qe_select = 0, qe_recv = None, qe_now = 9\<rparr> ''10.0.0.2'' 7777 demo_state =
     (NO_ANSWER, None, s') \<and> ds_peers s' = ds_peers demo_state \<and>
   (\<exists>q. lookup (snd (unicast lost_host 9 \<lparr>sin_port = 2, sin_addr = 0x0200000A\<rparr> (hello_packet ''b'' node_b MSG_HELLO))) ''10.0.0.2'' = Some q)"
proof -
  let ?qe = "\<lparr>qe_sock = all_ok, qe_select = 0, qe_recv = None, qe_now = 9\<rparr>"
  let ?h = "lost_host" and ?src = "\<lparr>sin_port = 2, sin_addr = 0x0200000A\<rparr>"
  have h: "query_meets ?qe ?h ?src" "peers_ok (ho_peers ?h)" "''10.0.0.2'' = inet_ntop (sin_addr ?src)"
    "''10.0.0.2'' \<noteq> g_local_ip (ho_disc ?h)" "lookup (ho_peers ?h) ''10.0.0.2'' \<noteq> None \<or> peer_count (ho_peers ?h) < MAX_PEERS"
    "ho_pick ?h ?src = To_Listener"
    by (simp_all add: query_meets_def query_reaches lost_host_def all_ok_def peers_ok_init ip_10_0_0_2 node_a_def
        empty_table MAX_PEERS_def)
  from query_port_shared [OF h(1-5), of 9 "''b''" node_b "''10.0.0.2''" 7777 demo_state] h(6) show ?thesis by auto
qed

text \<open>C33: whatever the listener and the reaper do to the table while a dispatch
  asks its peers, the dispatch sends the same queries, prints the same lines and finds the same best
  peer, since it works on the copy made at its start; the table meanwhile moves by whole steps only.\<close>

theorem queries_undisturbed:
  "fst (query_loop_among d env qs i ps b s) = fst (query_loop qs i ps b s) \<and>
   same_but_table (snd (query_loop qs i ps b s)) (snd (query_loop_among d env qs i ps b s)) \<and>
   rtranclp (table_step d) (ds_peers s) (ds_peers (snd (query_loop_among d env qs i ps b s)))"
  using query_loop_among_same [of s s d env qs i ps b] query_loop_among_steps [of d s env qs i ps b]
  by (simp add: same_but_table_def)

text \<open>C3: on a network that loses nothing, with a measured own load, the dispatcher
  runs the task on the node with the least load: it keeps the task only when none of the peers whose
  responder was reached computes for itself a smaller score than this node, and otherwise sends it, at
  the announced port, to such a peer that no other one undercuts.\<close>

theorem least_loaded_node:
  assumes "choose_target e local_ip own_port s = (use_local, ip, port, s')" "peers_ok (ds_peers s)" "measured e"
    and "ps = peer_list_get_all (ds_peers s) MAX_PEERS"
    and "\<forall>j < length ps. query_meets (de_query e j) (h j) (src j)"
  shows "let own = load_score_local (de_load1 e) (de_ncores e) (de_tasks e);
      asked = {j. j < length ps \<and> ho_pick (h j) (src j) = To_Responder}
    in if use_local then ip = local_ip \<and> port = own_port \<and> (\<forall>j \<in> asked. \<not> host_score (h j) < own)
       else \<exists>j \<in> asked. ip = p_ip (ps ! j) \<and> port = p_port (ps ! j) \<and> \<not> own \<le> host_score (h j) \<and>
              (\<forall>k \<in> asked. \<not> host_score (h k) < host_score (h j))"
proof -
  let ?own = "load_score_local (de_load1 e) (de_ncores e) (de_tasks e)"
  let ?asked = "{j. j < length ps \<and> ho_pick (h j) (src j) = To_Responder}"
  have pa: "fst (peer_answer (de_query e) ps j) = host_score (h j)" if "j \<in> ?asked" for j
    using answer_meets(1) [of "de_query e j" "h j" "src j" "p_ip (ps ! j)" "p_port (ps ! j)"] that assms(5)
    by (auto simp: peer_answer_def)
  have pn: "j \<in> ?asked" if "j < length ps" "snd (peer_answer (de_query e) ps j) \<noteq> None" for j
    using answer_meets(2) [of "de_query e j" "h j" "src j" "p_ip (ps ! j)" "p_port (ps ! j)"] that assms(5)
    by (cases "ho_pick (h j) (src j)") (auto simp: peer_answer_def)
  show ?thesis
  proof (cases use_local)
    case True
    then have c: "choose_target e local_ip own_port s = (True, ip, port, s')" using assms(1) by simp
    have "ip = local_ip \<and> port = own_port \<and> (\<forall>j < length ps. \<not> fst (peer_answer (de_query e) ps j) < ?own)"
      using keep_local [OF c] unfolding assms(4) by blast
    then show ?thesis using True pa by (auto simp: Let_def)
  next
    case False
    then have "choose_target e local_ip own_port s = (False, ip, port, s')" using assms(1) by simp
    from choose_remote [OF this assms(2,3), folded assms(4)] obtain j q where
      j: "j < length ps" "snd (peer_answer (de_query e) ps j) = Some q" "ip = p_ip (ps ! j)" "port = p_port (ps ! j)"
        "\<not> ?own \<le> fst (peer_answer (de_query e) ps j)"
      and min: "\<And>k. k < length ps \<Longrightarrow> \<not> fst (peer_answer (de_query e) ps k) < fst (peer_answer (de_query e) ps j)"
      by metis
    have "j \<in> ?asked" using j pn by simp
    moreover have "\<not> host_score (h k) < host_score (h j)" if "k \<in> ?asked" for k
      using min [of k] pa [OF that] pa [OF \<open>j \<in> ?asked\<close>] that by simp
    ultimately show ?thesis using False j pa [of j] unfolding Let_def
      by (simp only: if_False not_False_eq_True) (intro bexI [of _ j]; simp)
  qed
qed

definition idle_host :: host where
  "idle_host = lost_host\<lparr>ho_pick := (\<lambda>_. To_Responder)\<rparr>"

definition idle_query :: query_env where
  "idle_query = \<lparr>qe_sock = all_ok, qe_select = 1,
     qe_recv = Some (load_resp_packet Fopen_Failed 4 load_init load_init), qe_now = 9\<rparr>"

theorem least_loaded_node_witness:
  "\<exists>s'. choose_target (demo_env\<lparr>de_query := (\<lambda>_. idle_query)\<rparr>) ''10.0.0.1'' 7777 demo_state =
     (False, ''10.0.0.2'', 7777, s')"
proof -
  let ?e = "demo_env\<lparr>de_query := (\<lambda>_. idle_query)\<rparr>"
  have own: "load_score_local (de_load1 ?e) (de_ncores ?e) (de_tasks ?e) = f32_of_nat 100" using demo_self by simp
  obtain use_local ip port s' where c: "choose_target ?e ''10.0.0.1'' 7777 demo_state = (use_local, ip, port, s')"
    by (metis prod_cases4)
  have m: "measured ?e" unfolding measured_def own by (simp add: NO_ANSWER_def f32_of_nat_mono)
  have score: "host_score idle_host = f32_of_nat 0"
    by (simp add: host_score_def idle_host_def lost_host_def load_score_local_def load_get_percentage_def load_get_def
        load_get_active_tasks_def load_init_def load_score_def f32_eval Let_def)
  have less: "f32_of_nat 0 < f32_of_nat 100" by (simp add: f32_eval less_f32_def)
  have q: "query_meets (de_query ?e 0) idle_host \<lparr>sin_port = 2, sin_addr = 3\<rparr>"
    by (simp add: query_meets_def query_reaches idle_host_def lost_host_def idle_query_def all_ok_def)
  show ?thesis
    using least_loaded_node [OF c demo_ok(1) m refl, of "\<lambda>_. idle_host" "\<lambda>_. \<lparr>sin_port = 2, sin_addr = 3\<rparr>"] c q
      score less own
    by (cases use_local) (auto simp: demo_peers Let_def idle_host_def)
qed

text \<open>C1: the whole way of a \<^verbatim>\<open>submit\<close>. Whichever node the dispatcher chose
  and connected to, what it sends is the file; a worker that reads this runs it; and when that
  worker's answer comes back, in whatever segments, the shell prints exactly what compiling and running
  the file printed there, and its exit code.\<close>

theorem submit_shows_task:
  assumes "rd_files e path = Some \<lparr>f_size = int (length data), f_data = data\<rparr>" "rd_malloc e (length data)"
    and "0 < length data" "length data \<le> MAX_FILE_SIZE"
    and "task = make_task path data (word_of_nat (length data))"
    and "choose_target (rd_disp e) local_ip own_port
           \<lparr>ds_peers = nd_peers n, ds_kern = nd_kern n, ds_sent = [], ds_out = []\<rparr> = (use_local, ip, port, s1)"
    and "connect_target (rd_disp e) local_ip own_port use_local ip port s1 = (fd, ip', port', s2)" "0 \<le> fd"
    and "c = de_conn (rd_disp e) ip' port'" "room_for c (8 + length (task_payload task))"
    and "\<forall>k \<le> 6 + MAX_FILENAME_LEN + MAX_FILE_SIZE. de_malloc (rd_disp e) k"
    and "stream cw = frame MSG_TASK_FILE (task_payload task)" "outp cw = []" "mw (length (task_payload task) + 1)"
    and "env_ok we data"
    and "task_ends we data (ws_fs s (bin_path (we_pid we)))"
    and "task_reply we data (ws_fs s (bin_path (we_pid we))) = (out, code)" "room_for cw (9 * length out + 12)"
  shows "(\<exists>c1. send_task_file (de_malloc (rd_disp e)) c task = Some (0, c1) \<and> outp c1 = outp c @ stream cw) \<and>
    (\<exists>cw' s'. handle_connection mw we cfd cw s = Some (cw', s') \<and>
       (stream c = outp cw' \<longrightarrow>
          (\<exists>n'. run_submit e local_ip own_port path n = Some n' \<and>
             nd_out n' = nd_out n @ [Out_Begin, Out_Dispatch (ds_out s2 @ [Out_Bytes out]), Out_Exit_Code code])))"
proof -
  let ?md = "de_malloc (rd_disp e)"
  have t: "t_file_size task = word_of_nat (length (t_file_data task))"
    "length (t_filename task) < MAX_FILENAME_LEN" "length (t_file_data task) \<le> MAX_FILE_SIZE"
    "t_file_data task = data"
    using assms(4) by (simp_all add: assms(5) make_task_def MAX_FILENAME_LEN_def)
  note sp = send_task_file_payload [OF t(1-3)]
  have lim: "length (task_payload task) < 2 ^ 32" using sp(1) t(2,3) by (simp add: limit_defs)
  have "room_for c (length (frame MSG_TASK_FILE (task_payload task)) + 0)" using assms(10) by simp
  from send_msg_room [OF this lim] obtain c1 where
    m: "send_msg c MSG_TASK_FILE (Some (task_payload task)) (word_of_nat (length (task_payload task))) = Some (0, c1)"
      "rx c1 = rx c" by blast
  have "?md (length (task_payload task))" using assms(11) sp(1) t(2,3) by simp
  then have sent: "send_task_file ?md c task = Some (0, c1)" using sp(2) m(1) by simp
  have "outp c1 = outp c @ stream cw" using send_msg_frame(3) [OF m(1) lim] assms(12) by simp
  moreover have md: "\<forall>k \<le> OUTPUT_BUF_SIZE + 1. ?md k" using assms(11) by (simp add: limit_defs)
  obtain cw' s' where h: "handle_connection mw we cfd cw s = Some (cw', s')"
    "\<And>reply. stream reply = outp cw' \<Longrightarrow> \<exists>c2. receive_output ?md reply [] = Some (code, out, c2)"
    by (rule served_reply [of task cw ?md mw we s out code cfd])
      (use t md assms(12-18) in \<open>simp_all\<close>)
  moreover have "\<exists>n'. run_submit e local_ip own_port path n = Some n' \<and>
      nd_out n' = nd_out n @ [Out_Begin, Out_Dispatch (ds_out s2 @ [Out_Bytes out]), Out_Exit_Code code]"
    if answered: "stream c = outp cw'"
  proof -
    obtain c2 where r: "receive_output ?md c1 [] = Some (code, out, c2)" using h(2) [of c1] answered m(2) by auto
    have "read_file (rd_files e) (rd_malloc e) path (nd_kern n) = (Read_Ok data (word_of_nat (length data)), nd_kern n)"
      using assms(1-4) stdio_close_open [of "nd_kern n"] by (simp add: read_file_def Let_def MAX_FILE_SIZE_def split: prod.split)
    then show ?thesis
      using assms(6-8) sent r
      by (simp add: run_submit_def dispatch_def close_fd_def flip: assms(5,9))
  qed
  ultimately show ?thesis using sent by blast
qed

definition shell_node :: node where
  "shell_node = \<lparr>nd_running = True, nd_stdin = [], nd_peers = ds_peers demo_state, nd_kern = ds_kern demo_state,
     nd_out = []\<rparr>"

definition shell_round :: "conn \<Rightarrow> round_env" where
  "shell_round c = \<lparr>rd_sigint = False, rd_sigint_read = False, rd_events = [], rd_files = (\<lambda>_. Some \<lparr>f_size = 2, f_data = [72, 105]\<rparr>),
     rd_malloc = (\<lambda>_. True), rd_load = f32_of_nat 0, rd_total = 0, rd_disp = demo_env\<lparr>de_conn := (\<lambda>_ _. c)\<rparr>\<rparr>"

text \<open>A connection to a worker that reads the task \<open>demo_job\<close> and answers.\<close>

lemma worked_example:
  obtains cw s where "handle_connection (\<lambda>_. True) demo_we 4 (task_conn [97] [72, 105]) idle_worker = Some (cw, s)"
proof -
  have "env_ok demo_we [72, 105]" by (rule demo_pid) simp
  then show ?thesis
    by (rule handle_task [of "task_conn [97] [72, 105]" "[97]" "[72, 105]" "[]" "\<lambda>_. True" demo_we idle_worker "[72, 105]" 3 4,
          rotated 4]) (use that in \<open>simp_all add: task_conn_stream demo_task_reply demo_pid limit_defs\<close>)
qed

theorem submit_shows_task_witness:
  "\<exists>c n' items. run_submit (shell_round c) ''10.0.0.1'' 7777 ''a'' shell_node = Some n' \<and>
     nd_out n' = [Out_Begin, Out_Dispatch (items @ [Out_Bytes [72, 105]]), Out_Exit_Code 3]"
proof -
  obtain s1 where ch: "choose_target demo_env ''10.0.0.1'' 7777 demo_state = (False, ''10.0.0.2'', 7777, s1)"
    using demo_choice by blast
  have pt: "inet_pton ''10.0.0.2'' \<noteq> None"
    by (simp add: inet_pton_def octet_def is_digit_def dec_val_def digit_val_def)
  obtain fd k where tc: "tcp_connect all_ok ''10.0.0.2'' 7777 (ds_kern s1) = (fd, k)" by fastforce
  then have fd: "0 \<le> fd" using pt by (auto simp: tcp_connect_def sys_socket_def all_ok_def Let_def)
  have job: "make_task ''a'' [72, 105] 2 = demo_job"
    by (simp add: make_task_def demo_job_def basename_def MAX_FILENAME_LEN_def)
  obtain cw s where h: "handle_connection (\<lambda>_. True) demo_we 4 (task_conn [97] [72, 105]) idle_worker = Some (cw, s)"
    by (rule worked_example)
  let ?c = "\<lparr>rx = [RxData (outp cw), RxEof], tx = replicate 40 (TxTake 9), outp = []\<rparr>"
  let ?s2 = "s1\<lparr>ds_kern := k\<rparr>"
  have "\<lparr>ds_peers = nd_peers shell_node, ds_kern = nd_kern shell_node, ds_sent = [], ds_out = []\<rparr> = demo_state"
    by (simp add: shell_node_def demo_state_def)
  then have "choose_target (rd_disp (shell_round ?c)) ''10.0.0.1'' 7777
      \<lparr>ds_peers = nd_peers shell_node, ds_kern = nd_kern shell_node, ds_sent = [], ds_out = []\<rparr> =
      (False, ''10.0.0.2'', 7777, s1)"
    using ch by (simp add: choose_target_def shell_round_def cong: option.case_cong)
  note ch' = this
  have ct: "connect_target (rd_disp (shell_round ?c)) ''10.0.0.1'' 7777 False ''10.0.0.2'' 7777 s1 =
      (fd, ''10.0.0.2'', 7777, ?s2)"
    using tc fd by (simp add: connect_target_def shell_round_def demo_env_def)
  have "(\<exists>c1. send_task_file (de_malloc (rd_disp (shell_round ?c))) ?c demo_job = Some (0, c1) \<and>
         outp c1 = outp ?c @ stream (task_conn [97] [72, 105])) \<and>
    (\<exists>cw' s'. handle_connection (\<lambda>_. True) demo_we 4 (task_conn [97] [72, 105]) idle_worker = Some (cw', s') \<and>
       (stream ?c = outp cw' \<longrightarrow>
          (\<exists>n'. run_submit (shell_round ?c) ''10.0.0.1'' 7777 ''a'' shell_node = Some n' \<and>
             nd_out n' = nd_out shell_node @
               [Out_Begin, Out_Dispatch (ds_out ?s2 @ [Out_Bytes [72, 105]]), Out_Exit_Code 3])))"
    by (rule submit_shows_task [where data = "[72, 105]", OF _ _ _ _ _ ch' ct fd])
      (simp_all add: demo_job_payload task_conn_stream demo_pid demo_task_reply,
       simp_all add: shell_round_def demo_env_def job limit_defs demo_we_def task_conn_def room_for_def
         tx_ok_def tx_takes_def list_all_iff)
  moreover have "stream ?c = outp cw" by simp
  ultimately obtain n' where n': "run_submit (shell_round ?c) ''10.0.0.1'' 7777 ''a'' shell_node = Some n'"
    "nd_out n' = nd_out shell_node @ [Out_Begin, Out_Dispatch (ds_out ?s2 @ [Out_Bytes [72, 105]]), Out_Exit_Code 3]"
    using h by (elim conjE exE) (simp only: option.inject prod.inject, metis)
  show ?thesis
    by (intro exI [of _ ?c] exI [of _ n'] exI [of _ "ds_out ?s2"] conjI, rule n'(1))
      (simp add: n'(2), simp add: shell_node_def)
qed

text \<open>Tasks that a worker serves one after another do not disturb each other, although
  they use the same temporary files: with a compiler that writes a binary when it succeeds, every client
  is sent the output and the exit code of its own task, whatever earlier tasks left behind; the counter of
  active tasks is back where it was and the total has grown by their number.\<close>

theorem serial_tasks:
  assumes "compiler_writes we" "length jobs = length conns"
    and "\<forall>i < length conns. client_sends mw we (fst (jobs ! i)) (snd (jobs ! i)) (snd (conns ! i))"
    and "\<forall>job \<in> set jobs. env_ok we (snd job) \<and> (\<forall>old. task_ends we (snd job) old)"
  shows "\<exists>rs s'. serve_all mw we conns s = Some (rs, s') \<and> length rs = length conns \<and>
    (\<forall>i < length conns. client_gets we (snd (jobs ! i)) (snd (conns ! i)) (rs ! i)) \<and>
    ws_load s' = (ws_load s)\<lparr>g_total_tasks := g_total_tasks (ws_load s) + word_of_nat (length conns)\<rparr>"
  using assms(2-4)
proof (induction conns arbitrary: jobs s)
  case Nil
  then show ?case by simp
next
  case (Cons cn conns)
  obtain fd c where cn: "cn = (fd, c)" by (cases cn)
  obtain fn data rest where jobs: "jobs = (fn, data) # rest"
    using Cons.prems(1) by (metis length_Suc_conv prod.collapse length_Cons)
  have "env_ok we data" "client_sends mw we fn data c" "task_ends we data (ws_fs s (bin_path (we_pid we)))"
    using Cons.prems(2,3) by (force simp: jobs cn)+
  from serve_one [OF assms(1) this, of fd] obtain c1 s1 where one:
    "handle_connection mw we fd c s = Some (c1, s1)" "client_gets we data c c1"
    "ws_load s1 = (ws_load s)\<lparr>g_total_tasks := g_total_tasks (ws_load s) + 1\<rparr>" by blast
  have "length rest = length conns"
    "\<forall>i < length conns. client_sends mw we (fst (rest ! i)) (snd (rest ! i)) (snd (conns ! i))"
    "\<forall>job \<in> set rest. env_ok we (snd job) \<and> (\<forall>old. task_ends we (snd job) old)"
    using Cons.prems by (force simp: jobs)+
  from Cons.IH [OF this, of s1] obtain rs s' where all: "serve_all mw we conns s1 = Some (rs, s')"
    "length rs = length conns" "\<forall>i < length conns. client_gets we (snd (rest ! i)) (snd (conns ! i)) (rs ! i)"
    "ws_load s' = (ws_load s1)\<lparr>g_total_tasks := g_total_tasks (ws_load s1) + word_of_nat (length conns)\<rparr>" by blast
  show ?case
    using one all by (intro exI [of _ "c1 # rs"] exI [of _ s']) (auto simp: cn jobs nth_Cons' less_Suc_eq_0_disj)
qed

theorem serial_tasks_witness:
  "\<exists>rs s'. serve_all (\<lambda>_. True) demo_we [(5, task_conn [97] [72, 105]), (6, task_conn [98] [33])] idle_worker = Some (rs, s') \<and>
     client_gets demo_we [72, 105] (task_conn [97] [72, 105]) (rs ! 0) \<and>
     client_gets demo_we [33] (task_conn [98] [33]) (rs ! 1) \<and>
     ws_load s' = \<lparr>g_active_tasks = 0, g_total_tasks = 2\<rparr>"
proof -
  have w: "compiler_writes demo_we"
    by (simp add: compiler_writes_def demo_exec finished_def demo_child_exit)
  have c: "client_sends (\<lambda>_. True) demo_we [97] [72, 105] (task_conn [97] [72, 105])"
    "client_sends (\<lambda>_. True) demo_we [98] [33] (task_conn [98] [33])"
    by (simp_all add: client_sends_def task_conn_stream demo_task_reply limit_defs)
  show ?thesis
    using serial_tasks [OF w, of "[([97], [72, 105]), ([98], [33])]"
        "[(5, task_conn [97] [72, 105]), (6, task_conn [98] [33])]" "\<lambda>_. True" idle_worker] c
    by (auto simp: demo_pid demo_task_reply less_Suc_eq idle_worker_def load_init_def)
qed

end
