(* ===== verification/Handlers.thy ===== *)
theory Handlers
  imports Cluster
begin

text \<open>
  The handler threads of one worker process, interleaved: each handler as a machine that does one
  action at a time on the state all of them share, the counters, the files under \<^verbatim>\<open>/tmp\<close> and the
  descriptors. Run alone it is \<open>handle_connection\<close>; all of them together implement the pool of
  \<open>Node_System\<close>; and what a client is sent depends on what the others do in between.
\<close>

section \<open>One handler\<close>

text \<open>
  Where a handler is: its connection, and what it has in its hands. The constructors follow the order
  of \<^verbatim>\<open>handle_connection\<close> and \<^verbatim>\<open>compile_and_stream\<close>.
\<close>

datatype handler =
    H_New int conn
  | H_Task int conn "byte list"
  | H_Started int conn "byte list"
  | H_Written int conn
  | H_Compiling int conn child
  | H_Compiled int conn
  | H_Running int conn child
  | H_Failed int conn
  | H_Replied int conn
  | H_Cleaned int conn
  | H_Closing int conn
  | H_Closed conn

text \<open>What the handler does with the message it has received, or with none.\<close>

definition after_recv :: "int \<Rightarrow> conn \<Rightarrow> recvd option \<Rightarrow> handler" where
  "after_recv fd c1 msg =
     (case msg of
        None \<Rightarrow> H_Closing fd c1
      | Some m \<Rightarrow>
          if rm_type m = msg_code MSG_TASK_FILE then
            (case parse_task (case rm_payload m of Some p \<Rightarrow> p | None \<Rightarrow> []) (unat (rm_len m)) of
               None \<Rightarrow> H_Closing fd c1
             | Some (filename, data) \<Rightarrow> H_Task fd c1 data)
          else H_Closing fd c1)"

text \<open>One action of a handler; \<open>None\<close> when it blocks for ever.\<close>

fun handler_step ::
  "(nat \<Rightarrow> bool) \<Rightarrow> work_env \<Rightarrow> handler \<Rightarrow> wstate \<Rightarrow> (handler \<times> wstate) option" where
  "handler_step mw we (H_New fd c) s = do { (msg, c1) \<leftarrow> recv_msg mw c; Some (after_recv fd c1 msg, s) }"
| "handler_step mw we (H_Task fd c data) s =
     Some (H_Started fd c data, s\<lparr>ws_load := load_task_start (ws_load s)\<rparr>)"
| "handler_step mw we (H_Started fd c data) s =
     Some (if we_fopen we
           then (H_Written fd c, s\<lparr>ws_fs := write_source (we_pid we) (take (we_disk we) data) (ws_fs s)\<rparr>)
           else (H_Cleaned fd c, s))"
| "handler_step mw we (H_Written fd c) s =
     Some (if we_pipe we
           then (let (ch, fs) = run_gcc we (ws_fs s) in (H_Compiling fd c ch, s\<lparr>ws_fs := fs\<rparr>))
           else (H_Compiled fd c, s))"
| "handler_step mw we (H_Compiling fd c ch) s =
     do { (compile_exit, c1) \<leftarrow> stream_and_wait c ch;
          if compile_exit \<noteq> 0 then
            do { (r, c2) \<leftarrow> send_done c1 compile_exit; Some (H_Failed fd c2, s) }
          else Some (H_Compiled fd c1, s) }"
| "handler_step mw we (H_Compiled fd c) s = Some (H_Running fd c (run_binary we (ws_fs s)), s)"
| "handler_step mw we (H_Running fd c ch) s =
     do { (run_exit, c1) \<leftarrow> stream_and_wait c ch;
          (r, c2) \<leftarrow> send_done c1 run_exit;
          Some (H_Replied fd c2, s) }"
| "handler_step mw we (H_Failed fd c) s =
     Some (H_Cleaned fd c, s\<lparr>ws_fs := unlink (src_path (we_pid we)) (ws_fs s)\<rparr>)"
| "handler_step mw we (H_Replied fd c) s =
     Some (H_Cleaned fd c,
       s\<lparr>ws_fs := unlink (bin_path (we_pid we)) (unlink (src_path (we_pid we)) (ws_fs s))\<rparr>)"
| "handler_step mw we (H_Cleaned fd c) s =
     Some (H_Closing fd c, s\<lparr>ws_load := load_task_done (ws_load s)\<rparr>)"
| "handler_step mw we (H_Closing fd c) s =
     Some (H_Closed c, s\<lparr>ws_kern := sys_close fd (ws_kern s)\<rparr>)"
| "handler_step mw we (H_Closed c) s = Some (H_Closed c, s)"

primrec handler_run ::
  "nat \<Rightarrow> (nat \<Rightarrow> bool) \<Rightarrow> work_env \<Rightarrow> handler \<Rightarrow> wstate \<Rightarrow> (handler \<times> wstate) option" where
  "handler_run 0 mw we h s = Some (h, s)"
| "handler_run (Suc n) mw we h s =
     (case handler_step mw we h s of None \<Rightarrow> None | Some (h1, s1) \<Rightarrow> handler_run n mw we h1 s1)"

lemma handler_run_step:
  "handler_step mw we h s = Some (h1, s1) \<Longrightarrow> handler_run (Suc n) mw we h s = handler_run n mw we h1 s1"
  by simp

lemma handler_run_closed [simp]: "handler_run n mw we (H_Closed c) s = Some (H_Closed c, s)"
  by (induction n) auto

lemma handler_run_closing [simp]:
  "handler_run (Suc n) mw we (H_Closing fd c) s = Some (H_Closed c, s\<lparr>ws_kern := sys_close fd (ws_kern s)\<rparr>)"
  by simp

text \<open>The rest of a handler from some of its states, as the functions of the code have it.\<close>

definition closed_after :: "int \<Rightarrow> (conn \<times> wstate) option \<Rightarrow> (handler \<times> wstate) option" where
  "closed_after fd r = map_option (\<lambda>(c, s). (H_Closed c, s\<lparr>ws_kern := sys_close fd (ws_kern s)\<rparr>)) r"

lemma handler_run_compiled:
  "handler_run (Suc (Suc (Suc (Suc (Suc n))))) mw we (H_Compiled fd c) s = closed_after fd (run_step we c s)"
  by (cases "stream_and_wait c (run_binary we (ws_fs s))")
    (auto simp: run_step_def closed_after_def split: Option.bind_split prod.split)

lemma handler_run_written:
  "handler_run (Suc (Suc (Suc (Suc (Suc (Suc (Suc n))))))) mw we (H_Written fd c) s = closed_after fd (finish_task we c s)"
proof (cases "we_pipe we")
  case False
  have "handler_run (Suc (Suc (Suc (Suc (Suc (Suc (Suc n))))))) mw we (H_Written fd c) s =
      handler_run (Suc (Suc (Suc (Suc (Suc (Suc n)))))) mw we (H_Compiled fd c) s"
    using False by (subst handler_run.simps(2)) simp
  then show ?thesis using False handler_run_compiled [of "Suc n"] by (simp add: finish_task_def compile_step_def)
next
  case True
  obtain ch fs where g: "run_gcc we (ws_fs s) = (ch, fs)" by fastforce
  let ?s1 = "s\<lparr>ws_fs := fs\<rparr>"
  have "handler_run (Suc (Suc (Suc (Suc (Suc (Suc (Suc n))))))) mw we (H_Written fd c) s =
      handler_run (Suc (Suc (Suc (Suc (Suc (Suc n)))))) mw we (H_Compiling fd c ch) ?s1"
    using True g by (subst handler_run.simps(2)) simp
  also have "\<dots> = closed_after fd (finish_task we c s)"
  proof (cases "stream_and_wait c ch")
    case None
    then show ?thesis using True g by (simp add: finish_task_def compile_step_def closed_after_def)
  next
    case (Some x)
    obtain e c1 where x: "x = (e, c1)" by (cases x)
    show ?thesis
    proof (cases "e = 0")
      case True
      have "handler_run (Suc (Suc (Suc (Suc (Suc (Suc n)))))) mw we (H_Compiling fd c ch) ?s1 =
          handler_run (Suc (Suc (Suc (Suc (Suc n))))) mw we (H_Compiled fd c1) ?s1"
        using True Some x by (subst handler_run.simps(2)) simp
      then show ?thesis using True Some x g \<open>we_pipe we\<close> handler_run_compiled [of n mw we fd c1 ?s1]
        by (simp add: finish_task_def compile_step_def)
    next
      case False
      then show ?thesis using Some x g \<open>we_pipe we\<close>
        by (auto simp: finish_task_def compile_step_def closed_after_def split: Option.bind_split prod.split)
    qed
  qed
  finally show ?thesis .
qed

text \<open>A handler that nobody interrupts is \<open>handle_connection\<close>.\<close>

lemma handler_run_task:
  "handler_run (Suc (Suc (Suc (Suc (Suc (Suc (Suc (Suc (Suc n))))))))) mw we (H_Task fd c data) s =
     closed_after fd (compile_and_stream we c data s)"
proof (cases "we_fopen we")
  case True
  let ?s1 = "s\<lparr>ws_load := load_task_start (ws_load s)\<rparr>"
  let ?s2 = "?s1\<lparr>ws_fs := write_source (we_pid we) (take (we_disk we) data) (ws_fs ?s1)\<rparr>"
  have "handler_run (Suc (Suc (Suc (Suc (Suc (Suc (Suc (Suc (Suc n))))))))) mw we (H_Task fd c data) s =
      handler_run (Suc (Suc (Suc (Suc (Suc (Suc (Suc n))))))) mw we (H_Written fd c) ?s2"
    using handler_run_step [of mw we "H_Task fd c data" s] handler_run_step [of mw we "H_Started fd c data" ?s1] True
    by (simp del: handler_run.simps)
  also have "\<dots> = closed_after fd (finish_task we c ?s2)" by (rule handler_run_written)
  finally show ?thesis using True by (simp add: compile_and_stream_def)
next
  case False
  then show ?thesis by (simp add: compile_and_stream_def closed_after_def)
qed

lemma handler_run_new:
  "handler_run (10 + n) mw we (H_New fd c) s =
     map_option (\<lambda>(c', s'). (H_Closed c', s')) (handle_connection mw we fd c s)"
proof (cases "recv_msg mw c")
  case None
  then show ?thesis by (simp add: handle_connection_def numeral_eq_Suc)
next
  case (Some x)
  obtain msg c1 where x: "x = (msg, c1)" by (cases x)
  define task where "task = (case msg of None \<Rightarrow> None
    | Some m \<Rightarrow> if rm_type m = msg_code MSG_TASK_FILE
        then parse_task (case rm_payload m of Some p \<Rightarrow> p | None \<Rightarrow> []) (unat (rm_len m)) else None)"
  have step: "handler_step mw we (H_New fd c) s =
      Some (case task of None \<Rightarrow> H_Closing fd c1 | Some (fn, data) \<Rightarrow> H_Task fd c1 data, s)"
    using Some x by (auto simp: task_def after_recv_def split: option.split)
  have big: "handle_connection mw we fd c s =
      map_option (\<lambda>(c2, s2). (c2, s2\<lparr>ws_kern := sys_close fd (ws_kern s2)\<rparr>))
        (case task of None \<Rightarrow> Some (c1, s) | Some (fn, data) \<Rightarrow> compile_and_stream we c1 data s)"
    using Some x by (auto simp: handle_connection_def task_def split: option.split Option.bind_split)
  have ten: "10 + n = Suc (Suc (Suc (Suc (Suc (Suc (Suc (Suc (Suc (Suc n)))))))))" by simp
  show ?thesis
  proof (cases task)
    case None
    then show ?thesis unfolding ten big handler_run.simps(2) [of _ mw we "H_New fd c"] step by simp
  next
    case (Some t)
    obtain fn data where t: "t = (fn, data)" by (cases t)
    have "handler_run (10 + n) mw we (H_New fd c) s =
        handler_run (Suc (Suc (Suc (Suc (Suc (Suc (Suc (Suc (Suc n))))))))) mw we (H_Task fd c1 data) s"
      unfolding ten handler_run.simps(2) [of _ mw we "H_New fd c"] step by (simp add: Some t)
    then show ?thesis unfolding handler_run_task big
      by (cases "compile_and_stream we c1 data s") (simp_all add: Some t closed_after_def split_beta)
  qed
qed

section \<open>All handlers of a process\<close>

text \<open>
  What the accept loop has done with a connection it has taken from the queue of the listening socket:
  handed it to the handler of that number, closed it because of the limit, or lost it without a thread.
\<close>

datatype fate = Served nat | Turned_Away | Left_Open

record hsys =
  hs_ws :: wstate
  hs_threads :: "handler list"
  hs_orphans :: "int list"
  hs_taken :: "fate list"
  hs_accepting :: bool

definition hsys_start :: "wstate \<Rightarrow> hsys" where
  "hsys_start s = \<lparr>hs_ws = s, hs_threads = [], hs_orphans = [], hs_taken = [], hs_accepting = True\<rparr>"

text \<open>
  The accept loop starts a handler for the connection it has accepted; \<open>cn i\<close> is what happens on it.
  Connections whose thread could not be created are kept in \<open>hs_orphans\<close>; an error ends the loop.
\<close>

definition hsys_accept :: "(nat \<Rightarrow> conn) \<Rightarrow> accept_event \<Rightarrow> hsys \<Rightarrow> hsys" where
  "hsys_accept cn ev y =
     (if \<not> hs_accepting y then y
      else case accept_iteration (ws_load (hs_ws y)) ev (ws_kern (hs_ws y)) of
        (Acc_Spawn fd ip, k) \<Rightarrow>
          y\<lparr>hs_ws := (hs_ws y)\<lparr>ws_kern := k\<rparr>,
            hs_threads := hs_threads y @ [H_New fd (cn (length (hs_threads y)))],
            hs_taken := hs_taken y @ [Served (length (hs_threads y))]\<rparr>
      | (Acc_Unserved fd, k) \<Rightarrow>
          y\<lparr>hs_ws := (hs_ws y)\<lparr>ws_kern := k\<rparr>, hs_orphans := fd # hs_orphans y, hs_taken := hs_taken y @ [Left_Open]\<rparr>
      | (Acc_Rejected, k) \<Rightarrow> y\<lparr>hs_ws := (hs_ws y)\<lparr>ws_kern := k\<rparr>, hs_taken := hs_taken y @ [Turned_Away]\<rparr>
      | (Acc_Break, k) \<Rightarrow> y\<lparr>hs_ws := (hs_ws y)\<lparr>ws_kern := k\<rparr>, hs_accepting := False\<rparr>
      | (_, k) \<Rightarrow> y\<lparr>hs_ws := (hs_ws y)\<lparr>ws_kern := k\<rparr>\<rparr>)"

definition hsys_put :: "nat \<Rightarrow> handler \<Rightarrow> wstate \<Rightarrow> hsys \<Rightarrow> hsys" where
  "hsys_put i h s y = y\<lparr>hs_ws := s, hs_threads := (hs_threads y)[i := h]\<rparr>"

text \<open>
  What the \<open>k\<close>-th connection that was made to the listening socket carries back to its client: the bytes
  sent on it, and whether the process has closed it. The kernel completes connections before they are
  accepted; one that is still in the queue carries nothing.
\<close>

fun handler_conn :: "handler \<Rightarrow> conn" where
  "handler_conn (H_New fd c) = c"
| "handler_conn (H_Task fd c data) = c"
| "handler_conn (H_Started fd c data) = c"
| "handler_conn (H_Written fd c) = c"
| "handler_conn (H_Compiling fd c ch) = c"
| "handler_conn (H_Compiled fd c) = c"
| "handler_conn (H_Running fd c ch) = c"
| "handler_conn (H_Failed fd c) = c"
| "handler_conn (H_Replied fd c) = c"
| "handler_conn (H_Cleaned fd c) = c"
| "handler_conn (H_Closing fd c) = c"
| "handler_conn (H_Closed c) = c"

definition sent_back :: "(nat \<Rightarrow> conn) \<Rightarrow> hsys \<Rightarrow> nat \<Rightarrow> byte list \<times> bool" where
  "sent_back cn y k =
     (if k < length (hs_taken y)
      then (case hs_taken y ! k of
              Served i \<Rightarrow>
                let h = hs_threads y ! i; c = handler_conn h in
                (drop (length (outp (cn i))) (outp c), h = H_Closed c)
            | Turned_Away \<Rightarrow> ([], True)
            | Left_Open \<Rightarrow> ([], False))
      else ([], False))"

inductive hsys_step :: "(nat \<Rightarrow> bool) \<Rightarrow> work_env \<Rightarrow> (nat \<Rightarrow> conn) \<Rightarrow> hsys \<Rightarrow> hsys \<Rightarrow> bool" for mw we cn where
  Accept: "hsys_step mw we cn y (hsys_accept cn ev y)"
| Act: "hsys_step mw we cn y (hsys_put i h s y)"
    if "i < length (hs_threads y)" "handler_step mw we (hs_threads y ! i) (hs_ws y) = Some (h, s)"

text \<open>
  The window in which a handler relies on the files it shares with the others: from writing its source
  to removing its files.
\<close>

fun in_tmp :: "handler \<Rightarrow> bool" where
  "in_tmp (H_Written fd c) = True"
| "in_tmp (H_Compiling fd c ch) = True"
| "in_tmp (H_Compiled fd c) = True"
| "in_tmp (H_Running fd c ch) = True"
| "in_tmp (H_Failed fd c) = True"
| "in_tmp (H_Replied fd c) = True"
| "in_tmp h = False"

fun about_to_write :: "handler \<Rightarrow> bool" where
  "about_to_write (H_Started fd c data) = True"
| "about_to_write h = False"

text \<open>The schedules in which no handler enters that window while another one is in it.\<close>

inductive excl_step :: "(nat \<Rightarrow> bool) \<Rightarrow> work_env \<Rightarrow> (nat \<Rightarrow> conn) \<Rightarrow> hsys \<Rightarrow> hsys \<Rightarrow> bool" for mw we cn where
  Excl_Accept: "excl_step mw we cn y (hsys_accept cn ev y)"
| Excl_Act: "excl_step mw we cn y (hsys_put i h s y)"
    if "i < length (hs_threads y)" "handler_step mw we (hs_threads y ! i) (hs_ws y) = Some (h, s)"
      "about_to_write (hs_threads y ! i) \<longrightarrow> list_all (\<lambda>x. \<not> in_tmp x) (hs_threads y)"

inductive_cases hsys_stepE: "hsys_step mw we cn y y'"
inductive_cases excl_stepE: "excl_step mw we cn y y'"

lemma excl_is_step: "excl_step mw we cn y y' \<Longrightarrow> hsys_step mw we cn y y'"
  by (erule excl_stepE) (auto intro: hsys_step.intros)

lemma hsys_put_simps [simp]: "hs_ws (hsys_put i h s y) = s" "hs_threads (hsys_put i h s y) = (hs_threads y)[i := h]"
  "hs_orphans (hsys_put i h s y) = hs_orphans y" "hs_taken (hsys_put i h s y) = hs_taken y" "hs_accepting (hsys_put i h s y) = hs_accepting y"
  by (simp_all add: hsys_put_def)

lemma hsys_put_put [simp]: "hsys_put i h' s' (hsys_put i h s y) = hsys_put i h' s' y"
  by (simp add: hsys_put_def)

text \<open>A handler that acts several times in a row.\<close>

lemma hsys_run:
  "handler_run n mw we (hs_threads y ! i) (hs_ws y) = Some (h, s) \<Longrightarrow> i < length (hs_threads y) \<Longrightarrow>
     rtranclp (hsys_step mw we cn) y (hsys_put i h s y)"
proof (induction n arbitrary: y)
  case 0
  then have "hsys_put i h s y = y" by (cases y) (auto simp: hsys_put_def)
  then show ?case by simp
next
  case (Suc n)
  then obtain h1 s1 where st: "handler_step mw we (hs_threads y ! i) (hs_ws y) = Some (h1, s1)"
    "handler_run n mw we h1 s1 = Some (h, s)" by (auto split: option.splits)
  have "hsys_step mw we cn y (hsys_put i h1 s1 y)" using Suc.prems(2) st(1) by (rule hsys_step.Act)
  moreover have "rtranclp (hsys_step mw we cn) (hsys_put i h1 s1 y) (hsys_put i h s (hsys_put i h1 s1 y))"
    using Suc.prems(2) st(2) by (intro Suc.IH) simp_all
  ultimately show ?case by (simp add: converse_rtranclp_into_rtranclp)
qed

interpretation excl: restricts "excl_step mw we cn" "hsys_step mw we cn" for mw we cn
  by unfold_locales (rule excl_is_step)

text \<open>While only one handler moves and no other one uses the files, the schedule is exclusive.\<close>

lemma excl_run:
  "handler_run n mw we (hs_threads y ! i) (hs_ws y) = Some (h, s) \<Longrightarrow> i < length (hs_threads y) \<Longrightarrow>
     \<forall>j < length (hs_threads y). j \<noteq> i \<longrightarrow> \<not> in_tmp (hs_threads y ! j) \<Longrightarrow>
     rtranclp (excl_step mw we cn) y (hsys_put i h s y)"
proof (induction n arbitrary: y)
  case 0
  then have "hsys_put i h s y = y" by (cases y) (auto simp: hsys_put_def)
  then show ?case by simp
next
  case (Suc n)
  then obtain h1 s1 where st: "handler_step mw we (hs_threads y ! i) (hs_ws y) = Some (h1, s1)"
    "handler_run n mw we h1 s1 = Some (h, s)" by (auto split: option.splits)
  have "about_to_write x \<Longrightarrow> \<not> in_tmp x" for x by (cases x) simp_all
  then have "about_to_write (hs_threads y ! i) \<longrightarrow> list_all (\<lambda>x. \<not> in_tmp x) (hs_threads y)"
    using Suc.prems(2,3) by (metis list_all_length)
  with Suc.prems(2) st(1) have "excl_step mw we cn y (hsys_put i h1 s1 y)" by (rule excl_step.Excl_Act)
  moreover have "rtranclp (excl_step mw we cn) (hsys_put i h1 s1 y) (hsys_put i h s (hsys_put i h1 s1 y))"
    using Suc.prems(2,3) st(2) by (intro Suc.IH) simp_all
  ultimately show ?case by (simp add: converse_rtranclp_into_rtranclp)
qed

section \<open>A handler on track\<close>

text \<open>
  A handler serves \<open>data\<close> of the client on \<open>c0\<close>: what it has sent so far, what it holds, and what the
  files it still needs must contain.
\<close>

definition gcc_child :: "work_env \<Rightarrow> byte list \<Rightarrow> child" where
  "gcc_child we data = fst (exec_gcc we (Some data))"

definition gcc_binary :: "work_env \<Rightarrow> byte list \<Rightarrow> byte list option" where
  "gcc_binary we data = snd (exec_gcc we (Some data))"

definition compiles :: "work_env \<Rightarrow> byte list \<Rightarrow> bool" where
  "compiles we data \<longleftrightarrow> child_exit (ch_status (gcc_child we data) False) = 0"

definition unsent :: "work_env \<Rightarrow> byte list \<Rightarrow> conn \<Rightarrow> conn \<Rightarrow> bool" where
  "unsent we data c0 c \<longleftrightarrow> outp c = outp c0 \<and> room_for c (9 * length (fst (task_reply we data None)) + 12)"

definition gcc_sent :: "work_env \<Rightarrow> byte list \<Rightarrow> conn \<Rightarrow> conn \<Rightarrow> bool" where
  "gcc_sent we data c0 c \<longleftrightarrow>
     (\<exists>chunks. chunks_of chunks (rx_stream (ch_output (gcc_child we data))) \<and> outp c = outp c0 @ frames chunks) \<and>
     room_for c (9 * length (rx_stream (ch_output (exec_binary we (gcc_binary we data)))) + 12)"

fun tracks ::
  "(nat \<Rightarrow> bool) \<Rightarrow> work_env \<Rightarrow> byte list \<Rightarrow> byte list \<Rightarrow> conn \<Rightarrow> files \<Rightarrow> handler \<Rightarrow> bool" where
  "tracks mw we fn data c0 fs (H_New fd c) = (c = c0 \<and> client_sends mw we fn data c0)"
| "tracks mw we fn data c0 fs (H_Task fd c d) = (d = data \<and> unsent we data c0 c)"
| "tracks mw we fn data c0 fs (H_Started fd c d) = (d = data \<and> unsent we data c0 c)"
| "tracks mw we fn data c0 fs (H_Written fd c) = (fs (src_path (we_pid we)) = Some data \<and> unsent we data c0 c)"
| "tracks mw we fn data c0 fs (H_Compiling fd c ch) =
     (ch = gcc_child we data \<and> unsent we data c0 c \<and>
      (compiles we data \<longrightarrow> fs (bin_path (we_pid we)) = gcc_binary we data))"
| "tracks mw we fn data c0 fs (H_Compiled fd c) =
     (compiles we data \<and> fs (bin_path (we_pid we)) = gcc_binary we data \<and> gcc_sent we data c0 c)"
| "tracks mw we fn data c0 fs (H_Running fd c ch) =
     (compiles we data \<and> ch = exec_binary we (gcc_binary we data) \<and> gcc_sent we data c0 c)"
| "tracks mw we fn data c0 fs (H_Failed fd c) = (\<not> compiles we data \<and> client_gets we data c0 c)"
| "tracks mw we fn data c0 fs (H_Replied fd c) = client_gets we data c0 c"
| "tracks mw we fn data c0 fs (H_Cleaned fd c) = client_gets we data c0 c"
| "tracks mw we fn data c0 fs (H_Closing fd c) = client_gets we data c0 c"
| "tracks mw we fn data c0 fs (H_Closed c) = client_gets we data c0 c"

lemma reply_parts:
  "task_reply we data None =
     (if compiles we data
      then (rx_stream (ch_output (gcc_child we data)) @ rx_stream (ch_output (exec_binary we (gcc_binary we data))),
            child_exit (ch_status (exec_binary we (gcc_binary we data)) False))
      else (rx_stream (ch_output (gcc_child we data)), child_exit (ch_status (gcc_child we data) False)))"
  by (auto simp: task_reply_def compiles_def gcc_child_def gcc_binary_def Let_def split: prod.splits option.splits)

lemma ends_parts:
  assumes "task_ends we data None"
  shows "rx_closed (ch_output (gcc_child we data))" "rx_closed (ch_output (exec_binary we (gcc_binary we data)))"
  using assms
  by (auto simp: task_ends_def gcc_child_def gcc_binary_def split: prod.splits option.splits)

text \<open>Every action of a handler on track succeeds and keeps it on track.\<close>

lemma step_new:
  assumes "client_sends mw we fn data c"
  obtains c1 where "\<And>w fd s. handler_step mw w (H_New fd c) s = Some (H_Task fd c1 data, s)" "same_tx c c1"
    "unsent we data c c1"
proof -
  let ?p = "task_bytes fn data"
  note cs = assms [unfolded client_sends_def]
  have lim: "length ?p \<le> RECV_LIMIT" using cs by (simp add: RECV_LIMIT_def)
  obtain c1 where c1: "recv_msg mw c = Some (Some (got_frame MSG_TASK_FILE ?p), c1)" "same_tx c c1"
    using recv_msg_frame [of c MSG_TASK_FILE ?p "[]" mw] cs lim by auto
  have ne: "?p \<noteq> []" by (metis length_task_bytes list.size(3) add_is_0 zero_neq_numeral)
  have "unat (word_of_nat (length ?p) :: u32) = length ?p"
    using lim by (intro unat_of_nat_u32 RECV_LIMIT_lt)
  then have "parse_task (?p @ [0]) (unat (word_of_nat (length ?p) :: u32)) = Some (fn, data)"
    using parse_task_bytes [of fn data] cs by simp
  then have "after_recv fd c1 (Some (got_frame MSG_TASK_FILE ?p)) = H_Task fd c1 data" for fd
    using ne by (simp add: after_recv_def got_frame_def)
  then show ?thesis using that [of c1] c1 cs by (simp add: unsent_def room_for_def same_tx_def)
qed

lemma tracks_step:
  assumes "compiler_writes we" "env_ok we data" "task_ends we data None" "tracks mw we fn data c0 (ws_fs s) h"
  obtains h' s' where "handler_step mw we h s = Some (h', s')" "tracks mw we fn data c0 (ws_fs s') h'"
proof (cases h)
  case (H_New fd c)
  then have c: "client_sends mw we fn data c" "c = c0" using assms(4) by simp_all
  obtain c1 where "\<And>fd s. handler_step mw we (H_New fd c) s = Some (H_Task fd c1 data, s)" "unsent we data c c1"
    using step_new [OF c(1)] by metis
  then show ?thesis using H_New c(2) by (intro that [of "H_Task fd c1 data" s]) simp_all
next
  case (H_Task fd c d)
  then show ?thesis using assms(4) that by simp
next
  case (H_Started fd c d)
  then show ?thesis using assms(4) env_okD [OF assms(2)] that by (simp add: write_source_def)
next
  case (H_Written fd c)
  obtain g bin where g: "exec_gcc we (Some data) = (g, bin)" by fastforce
  have "compiles we data \<Longrightarrow> bin \<noteq> None"
    using assms(1) g unfolding compiles_def compiler_writes_def gcc_child_def by (metis snd_conv)
  then show ?thesis using assms(4) H_Written env_okD(2) [OF assms(2)] that
    by (cases bin) (auto simp: run_gcc_def g gcc_child_def gcc_binary_def)
next
  case (H_Compiling fd c ch)
  then have ch: "ch = gcc_child we data" "outp c = outp c0"
    "room_for c (9 * length (fst (task_reply we data None)) + 12)" using assms(4) by (simp_all add: unsent_def)
  define k where "k = (if compiles we data
    then 9 * length (rx_stream (ch_output (exec_binary we (gcc_binary we data)))) + 12 else 12 + 0)"
  have "room_for c (9 * length (rx_stream (ch_output ch)) + k)"
    using ch(1,3) by (simp add: reply_parts k_def algebra_simps split: if_splits)
  from stream_and_wait_room [OF _ this] ends_parts(1) [OF assms(3)] ch(1) obtain c1 chunks where
    c1: "stream_and_wait c ch = Some (child_exit (ch_status ch False), c1)"
      "chunks_of chunks (rx_stream (ch_output ch))" "outp c1 = outp c @ frames chunks" "room_for c1 k" by metis
  show ?thesis
  proof (cases "compiles we data")
    case True
    then show ?thesis using H_Compiling c1 ch assms(4) that [of "H_Compiled fd c1" s]
      by (auto simp: compiles_def gcc_sent_def k_def)
  next
    case False
    from send_done_room [of c1 0] c1(4) False obtain c2 where
      "send_done c1 (child_exit (ch_status ch False)) = Some (0, c2)"
      "outp c2 = outp c1 @ frame MSG_TASK_DONE (done_payload (word_of_int (child_exit (ch_status ch False))))"
      by (auto simp: k_def)
    then show ?thesis using H_Compiling c1 ch False that [of "H_Failed fd c2" s]
      by (auto simp: client_gets_def reply_parts) (auto simp: compiles_def)
  qed
next
  case (H_Compiled fd c)
  then show ?thesis using assms(4) that by (simp add: run_binary_def)
next
  case (H_Running fd c ch)
  then have r: "ch = exec_binary we (gcc_binary we data)" "compiles we data" "gcc_sent we data c0 c" using assms(4) by simp_all
  then obtain ch1 where ch1: "chunks_of ch1 (rx_stream (ch_output (gcc_child we data)))" "outp c = outp c0 @ frames ch1"
    "room_for c (9 * length (rx_stream (ch_output ch)) + (12 + 0))" by (auto simp: gcc_sent_def)
  from stream_and_wait_room [OF _ ch1(3)] ends_parts(2) [OF assms(3)] r(1) obtain c1 ch2 where
    c1: "stream_and_wait c ch = Some (child_exit (ch_status ch False), c1)"
      "chunks_of ch2 (rx_stream (ch_output ch))" "outp c1 = outp c @ frames ch2" "room_for c1 (12 + 0)" by metis
  from send_done_room [OF c1(4)] obtain c2 where c2: "send_done c1 (child_exit (ch_status ch False)) = Some (0, c2)"
    "outp c2 = outp c1 @ frame MSG_TASK_DONE (done_payload (word_of_int (child_exit (ch_status ch False))))" by blast
  have "client_gets we data c0 c2"
    using c1 c2 ch1 r(1,2) chunks_of_append [OF ch1(1) c1(2)]
    by (auto simp: client_gets_def reply_parts intro!: exI [of _ "ch1 @ ch2"])
  then show ?thesis using H_Running c1 c2 that [of "H_Replied fd c2" s] by simp
qed (use assms(4) that in simp_all)

text \<open>What the others do to the files matters only inside the window.\<close>

lemma tracks_frame:
  assumes "tracks mw we fn data c0 fs h"
    and "in_tmp h \<Longrightarrow> fs' (src_path (we_pid we)) = fs (src_path (we_pid we)) \<and>
      fs' (bin_path (we_pid we)) = fs (bin_path (we_pid we))"
  shows "tracks mw we fn data c0 fs' h"
  using assms by (cases h) auto

lemma after_recv_tmp: "\<not> in_tmp (after_recv fd c msg)"
  by (auto simp: after_recv_def split: option.split)

lemma step_files:
  assumes "handler_step mw we h s = Some (h', s')" "\<not> in_tmp h" "\<not> about_to_write h"
  shows "ws_fs s' = ws_fs s"
  using assms by (cases h) (auto simp: bind_eq_Some_conv)

lemma step_enters:
  assumes "handler_step mw we h s = Some (h', s')" "in_tmp h'"
  shows "in_tmp h \<or> about_to_write h"
  using assms by (cases h) (auto simp: bind_eq_Some_conv after_recv_tmp split: if_splits)

section \<open>Exclusive schedules\<close>

definition on_tracks ::
  "(nat \<Rightarrow> bool) \<Rightarrow> work_env \<Rightarrow> (nat \<Rightarrow> conn) \<Rightarrow> (nat \<Rightarrow> byte list) \<Rightarrow> (nat \<Rightarrow> byte list) \<Rightarrow> hsys \<Rightarrow> bool" where
  "on_tracks mw we cn fn dat y \<longleftrightarrow>
     (\<forall>i < length (hs_threads y). tracks mw we (fn i) (dat i) (cn i) (ws_fs (hs_ws y)) (hs_threads y ! i)) \<and>
     (\<forall>i < length (hs_threads y). \<forall>j < length (hs_threads y).
        in_tmp (hs_threads y ! i) \<longrightarrow> in_tmp (hs_threads y ! j) \<longrightarrow> i = j)"

definition clients_ok ::
  "(nat \<Rightarrow> bool) \<Rightarrow> work_env \<Rightarrow> (nat \<Rightarrow> conn) \<Rightarrow> (nat \<Rightarrow> byte list) \<Rightarrow> (nat \<Rightarrow> byte list) \<Rightarrow> bool" where
  "clients_ok mw we cn fn dat \<longleftrightarrow> compiler_writes we \<and>
     (\<forall>i. env_ok we (dat i) \<and> client_sends mw we (fn i) (dat i) (cn i))"

lemma on_tracks_accept:
  assumes "clients_ok mw we cn fn dat" "on_tracks mw we cn fn dat y"
  shows "on_tracks mw we cn fn dat (hsys_accept cn ev y)"
proof -
  have keep: "on_tracks mw we cn fn dat (y\<lparr>hs_ws := (hs_ws y)\<lparr>ws_kern := k\<rparr>\<rparr>)"
    "on_tracks mw we cn fn dat (y\<lparr>hs_ws := (hs_ws y)\<lparr>ws_kern := k\<rparr>, hs_taken := fs\<rparr>)"
    "on_tracks mw we cn fn dat (y\<lparr>hs_ws := (hs_ws y)\<lparr>ws_kern := k\<rparr>, hs_orphans := os, hs_taken := fs\<rparr>)"
    "on_tracks mw we cn fn dat (y\<lparr>hs_ws := (hs_ws y)\<lparr>ws_kern := k\<rparr>, hs_accepting := b\<rparr>)" for k os b fs
    using assms(2) by (simp_all add: on_tracks_def)
  have "on_tracks mw we cn fn dat (y\<lparr>hs_ws := (hs_ws y)\<lparr>ws_kern := k\<rparr>,
      hs_threads := hs_threads y @ [H_New fd (cn (length (hs_threads y)))], hs_taken := fs\<rparr>)" for k fd fs
    using assms unfolding on_tracks_def clients_ok_def
    by (auto simp: nth_append less_Suc_eq)
  with keep assms(2) show ?thesis
    by (auto simp: hsys_accept_def split: accept_result.split prod.split)
qed

lemma on_tracks_act:
  assumes "clients_ok mw we cn fn dat" "on_tracks mw we cn fn dat y" "i < length (hs_threads y)"
    and "handler_step mw we (hs_threads y ! i) (hs_ws y) = Some (h, s)"
    and "about_to_write (hs_threads y ! i) \<longrightarrow> list_all (\<lambda>x. \<not> in_tmp x) (hs_threads y)"
  shows "on_tracks mw we cn fn dat (hsys_put i h s y)"
proof -
  let ?ts = "hs_threads y"
  have env: "compiler_writes we" "env_ok we (dat i)" "task_ends we (dat i) None" for i
    using assms(1) by (auto simp: clients_ok_def client_sends_def)
  have tr: "\<And>j. j < length ?ts \<Longrightarrow> tracks mw we (fn j) (dat j) (cn j) (ws_fs (hs_ws y)) (?ts ! j)"
    and one: "\<And>j k. j < length ?ts \<Longrightarrow> k < length ?ts \<Longrightarrow> in_tmp (?ts ! j) \<Longrightarrow> in_tmp (?ts ! k) \<Longrightarrow> j = k"
    using assms(2) unfolding on_tracks_def by blast+
  have quiet: "\<not> in_tmp (?ts ! j) \<or> ws_fs s = ws_fs (hs_ws y)" if j: "j < length ?ts" "j \<noteq> i" for j
  proof (cases "in_tmp (?ts ! i) \<or> about_to_write (?ts ! i)")
    case True
    then show ?thesis using one [OF assms(3) j(1)] j assms(5) by (auto simp: list_all_length)
  next
    case False
    then show ?thesis using step_files [OF assms(4)] by blast
  qed
  have own: "tracks mw we (fn i) (dat i) (cn i) (ws_fs s) h"
    using tracks_step [OF env(1) env(2,3) [of i] tr [OF assms(3)]] assms(4) by (metis option.inject prod.inject)
  have others: "tracks mw we (fn j) (dat j) (cn j) (ws_fs s) (?ts ! j)" if j: "j < length ?ts" "j \<noteq> i" for j
    using tracks_frame [OF tr [OF j(1)], of "ws_fs s"] quiet [OF j] by metis
  have alone: "\<not> in_tmp (?ts ! j)" if "in_tmp h" "j < length ?ts" "j \<noteq> i" for j
    using step_enters [OF assms(4) that(1)] one [OF assms(3) that(2)] that assms(5) by (auto simp: list_all_length)
  show ?thesis
    using own others alone one assms(3) unfolding on_tracks_def by (auto simp: nth_list_update)
qed

interpretation tracks_kept: kept "excl_step mw we cn" "\<lambda>y. clients_ok mw we cn fn dat \<and> on_tracks mw we cn fn dat y" for mw we cn fn dat
  by unfold_locales (auto elim!: excl_stepE intro: on_tracks_accept on_tracks_act)

lemma on_tracks_start: "on_tracks mw we cn fn dat (hsys_start s)"
  by (simp add: on_tracks_def hsys_start_def)

section \<open>A handler comes to its end\<close>

fun actions_left :: "handler \<Rightarrow> nat" where
  "actions_left (H_New fd c) = 10"
| "actions_left (H_Task fd c d) = 9"
| "actions_left (H_Started fd c d) = 8"
| "actions_left (H_Written fd c) = 7"
| "actions_left (H_Compiling fd c ch) = 6"
| "actions_left (H_Compiled fd c) = 5"
| "actions_left (H_Running fd c ch) = 4"
| "actions_left (H_Failed fd c) = 3"
| "actions_left (H_Replied fd c) = 3"
| "actions_left (H_Cleaned fd c) = 2"
| "actions_left (H_Closing fd c) = 1"
| "actions_left (H_Closed c) = 0"

lemma after_recv_left: "actions_left (after_recv fd c msg) < 10"
  by (auto simp: after_recv_def split: option.split)

lemma step_left:
  "handler_step mw we h s = Some (h', s') \<Longrightarrow> actions_left h' < actions_left h \<or> actions_left h = 0"
  by (cases h) (auto simp: bind_eq_Some_conv after_recv_left split: if_splits prod.splits)

lemma left_0: "actions_left h = 0 \<longleftrightarrow> (\<exists>c. h = H_Closed c)"
  by (cases h) auto

text \<open>A successful task leaves no binary.\<close>

definition no_binary :: "work_env \<Rightarrow> handler \<Rightarrow> files \<Rightarrow> bool" where
  "no_binary we h fs \<longleftrightarrow> (actions_left h \<le> 2 \<longrightarrow> fs (bin_path (we_pid we)) = None)"

lemma no_binary_step:
  assumes "handler_step mw we h s = Some (h', s')" "tracks mw we fn data c0 (ws_fs s) h"
    and "compiles we data" "env_ok we data" "no_binary we h (ws_fs s)"
  shows "no_binary we h' (ws_fs s')"
proof (cases h)
  case (H_New fd c)
  then have "client_sends mw we fn data c" using assms(2) by simp
  then obtain c1 where "\<And>w fd s. handler_step mw w (H_New fd c) s = Some (H_Task fd c1 data, s)"
    using step_new by metis
  then have "h' = H_Task fd c1 data" using assms(1) H_New by simp
  then show ?thesis by (simp add: no_binary_def)
qed (use assms env_okD [OF assms(4)] in
     \<open>auto simp: no_binary_def bind_eq_Some_conv unlink_def split: if_splits prod.splits\<close>)

lemma run_to_end:
  assumes "compiler_writes we" "env_ok we data" "task_ends we data None"
  shows "actions_left h \<le> n \<Longrightarrow> tracks mw we fn data c0 (ws_fs s) h \<Longrightarrow>
    \<exists>c s'. handler_run n mw we h s = Some (H_Closed c, s') \<and> client_gets we data c0 c \<and>
      (compiles we data \<longrightarrow> no_binary we h (ws_fs s) \<longrightarrow> ws_fs s' (bin_path (we_pid we)) = None)"
proof (induction n arbitrary: h s)
  case 0
  then obtain c where "h = H_Closed c" using left_0 by auto
  then show ?case using 0 by (simp add: no_binary_def)
next
  case (Suc n)
  show ?case
  proof (cases "actions_left h = 0")
    case True
    then obtain c where "h = H_Closed c" using left_0 by auto
    then show ?thesis using Suc.prems by (simp add: no_binary_def)
  next
    case False
    from tracks_step [OF assms Suc.prems(2)] obtain h' s' where st: "handler_step mw we h s = Some (h', s')"
      "tracks mw we fn data c0 (ws_fs s') h'" .
    have "actions_left h' \<le> n" using step_left [OF st(1)] False Suc.prems(1) by simp
    from Suc.IH [OF this st(2)] obtain c t where fin: "handler_run n mw we h' s' = Some (H_Closed c, t)"
      "client_gets we data c0 c"
      "compiles we data \<longrightarrow> no_binary we h' (ws_fs s') \<longrightarrow> ws_fs t (bin_path (we_pid we)) = None" by blast
    show ?thesis using fin st(1) no_binary_step [OF st(1) Suc.prems(2) _ assms(2)] by auto
  qed
qed

section \<open>The pool as an abstraction\<close>

text \<open>In which list of the pool a handler is, if it still has its connection.\<close>

datatype place = In_Waiting | In_Running | In_Closing | Gone

fun place_of :: "handler \<Rightarrow> place" where
  "place_of (H_New fd c) = In_Waiting"
| "place_of (H_Task fd c d) = In_Waiting"
| "place_of (H_Closing fd c) = In_Closing"
| "place_of (H_Closed c) = Gone"
| "place_of h = In_Running"

fun handler_fd :: "handler \<Rightarrow> int" where
  "handler_fd (H_New fd c) = fd"
| "handler_fd (H_Task fd c d) = fd"
| "handler_fd (H_Started fd c d) = fd"
| "handler_fd (H_Written fd c) = fd"
| "handler_fd (H_Compiling fd c ch) = fd"
| "handler_fd (H_Compiled fd c) = fd"
| "handler_fd (H_Running fd c ch) = fd"
| "handler_fd (H_Failed fd c) = fd"
| "handler_fd (H_Replied fd c) = fd"
| "handler_fd (H_Cleaned fd c) = fd"
| "handler_fd (H_Closing fd c) = fd"
| "handler_fd (H_Closed c) = -1"

definition fds_in :: "place \<Rightarrow> handler list \<Rightarrow> int multiset" where
  "fds_in k ts = image_mset handler_fd (filter_mset (\<lambda>h. place_of h = k) (mset ts))"

definition pool_view :: "hsys \<Rightarrow> pool \<Rightarrow> bool" where
  "pool_view y p \<longleftrightarrow> pl_load p = ws_load (hs_ws y) \<and> pl_kern p = ws_kern (hs_ws y) \<and>
     mset (pl_waiting p) = fds_in In_Waiting (hs_threads y) \<and>
     mset (pl_running p) = fds_in In_Running (hs_threads y) \<and>
     mset (pl_closing p) = fds_in In_Closing (hs_threads y) \<and>
     pl_orphans p = hs_orphans y \<and> pl_accepting p = hs_accepting y"

lemma fds_in_append: "fds_in k (ts @ [h]) = (if place_of h = k then add_mset (handler_fd h) (fds_in k ts) else fds_in k ts)"
  by (simp add: fds_in_def)

lemma fds_in_update:
  assumes "i < length ts"
  obtains M where "\<And>k. fds_in k ts = (if place_of (ts ! i) = k then add_mset (handler_fd (ts ! i)) (M k) else M k)"
    "\<And>k h. fds_in k (ts[i := h]) = (if place_of h = k then add_mset (handler_fd h) (M k) else M k)"
proof -
  obtain R where R: "mset ts = add_mset (ts ! i) R" using assms by (metis nth_mem_mset mset_add)
  then have "mset (ts[i := h]) = add_mset h R" for h using assms by (simp add: mset_update)
  with R show ?thesis
    by (intro that [of "\<lambda>k. image_mset handler_fd (filter_mset (\<lambda>h. place_of h = k) R)"]) (simp_all add: fds_in_def)
qed

text \<open>What an action of a handler does in the view of the pool.\<close>

lemma step_view:
  assumes "handler_step mw we h s = Some (h', s')"
  shows "(place_of h' = place_of h \<and> (place_of h = Gone \<or> handler_fd h' = handler_fd h) \<and>
      ws_load s' = ws_load s \<and> ws_kern s' = ws_kern s) \<or>
    (place_of h = In_Waiting \<and> place_of h' = In_Running \<and> handler_fd h' = handler_fd h \<and>
      ws_load s' = load_task_start (ws_load s) \<and> ws_kern s' = ws_kern s) \<or>
    (place_of h = In_Waiting \<and> place_of h' = In_Closing \<and> handler_fd h' = handler_fd h \<and>
      ws_load s' = ws_load s \<and> ws_kern s' = ws_kern s) \<or>
    (place_of h = In_Running \<and> place_of h' = In_Closing \<and> handler_fd h' = handler_fd h \<and>
      ws_load s' = load_task_done (ws_load s) \<and> ws_kern s' = ws_kern s) \<or>
    (place_of h = In_Closing \<and> place_of h' = Gone \<and>
      ws_load s' = ws_load s \<and> ws_kern s' = sys_close (handler_fd h) (ws_kern s))"
proof (cases h)
  case (H_New fd c)
  have "place_of (after_recv fd c1 msg) \<in> {In_Waiting, In_Closing} \<and> handler_fd (after_recv fd c1 msg) = fd" for c1 msg
    by (auto simp: after_recv_def split: option.split)
  then show ?thesis using assms H_New by (auto simp: bind_eq_Some_conv)
qed (use assms in \<open>auto simp: bind_eq_Some_conv Let_def split: if_splits prod.splits\<close>)

lemma pool_view_act:
  assumes "pool_view y p" "i < length (hs_threads y)" "handler_step mw we (hs_threads y ! i) (hs_ws y) = Some (h, s)"
  shows "\<exists>q. rtranclp pool_step p q \<and> pool_view (hsys_put i h s y) q"
proof -
  let ?h = "hs_threads y ! i" and ?fd = "handler_fd (hs_threads y ! i)"
  from fds_in_update [OF assms(2)] obtain M where
    M: "\<And>k. fds_in k (hs_threads y) = (if place_of ?h = k then add_mset ?fd (M k) else M k)"
      "\<And>k h. fds_in k ((hs_threads y)[i := h]) = (if place_of h = k then add_mset (handler_fd h) (M k) else M k)" by blast
  note v = assms(1) [unfolded pool_view_def M]
  from step_view [OF assms(3)] show ?thesis
  proof (elim disjE conjE)
    assume "place_of h = place_of ?h" "ws_load s = ws_load (hs_ws y)" "ws_kern s = ws_kern (hs_ws y)" "handler_fd h = ?fd"
    then show ?thesis using v by (intro exI [of _ p]) (simp add: pool_view_def M)
  next
    assume "place_of h = place_of ?h" "ws_load s = ws_load (hs_ws y)" "ws_kern s = ws_kern (hs_ws y)" "place_of ?h = Gone"
    then show ?thesis using v by (intro exI [of _ p]) (simp add: pool_view_def M)
  next
    assume h: "place_of ?h = In_Waiting" "place_of h = In_Running" "handler_fd h = ?fd"
      "ws_load s = load_task_start (ws_load (hs_ws y))" "ws_kern s = ws_kern (hs_ws y)"
    then have "?fd \<in># mset (pl_waiting p)" using v by simp
    then have "pool_step p (pool_begin ?fd p)" by (intro pool_step.Begin) simp
    then show ?thesis using v h by (intro exI [of _ "pool_begin ?fd p"]) (auto simp: pool_view_def M pool_begin_def)
  next
    assume h: "place_of ?h = In_Waiting" "place_of h = In_Closing" "handler_fd h = ?fd"
      "ws_load s = ws_load (hs_ws y)" "ws_kern s = ws_kern (hs_ws y)"
    then have "?fd \<in># mset (pl_waiting p)" using v by simp
    then have "pool_step p (pool_refuse ?fd p)" by (intro pool_step.Refuse) simp
    then show ?thesis using v h by (intro exI [of _ "pool_refuse ?fd p"]) (auto simp: pool_view_def M pool_refuse_def)
  next
    assume h: "place_of ?h = In_Running" "place_of h = In_Closing" "handler_fd h = ?fd"
      "ws_load s = load_task_done (ws_load (hs_ws y))" "ws_kern s = ws_kern (hs_ws y)"
    then have "?fd \<in># mset (pl_running p)" using v by simp
    then have "pool_step p (pool_finish ?fd p)" by (intro pool_step.Finish) simp
    then show ?thesis using v h by (intro exI [of _ "pool_finish ?fd p"]) (auto simp: pool_view_def M pool_finish_def)
  next
    assume h: "place_of ?h = In_Closing" "place_of h = Gone"
      "ws_load s = ws_load (hs_ws y)" "ws_kern s = sys_close ?fd (ws_kern (hs_ws y))"
    then have "?fd \<in># mset (pl_closing p)" using v by simp
    then have "pool_step p (pool_close ?fd p)" by (intro pool_step.Close) simp
    then show ?thesis using v h by (intro exI [of _ "pool_close ?fd p"]) (auto simp: pool_view_def M pool_close_def)
  qed
qed

lemma pool_view_accept:
  "pool_view y p \<Longrightarrow> pool_view (hsys_accept cn ev y) (pool_accept ev p)"
  by (cases "accept_iteration (ws_load (hs_ws y)) ev (ws_kern (hs_ws y))")
    (auto simp: pool_view_def hsys_accept_def pool_accept_def fds_in_append split: accept_result.split)

lemma pool_view_step:
  "hsys_step mw we cn y y' \<Longrightarrow> pool_view y p \<Longrightarrow> \<exists>q. rtranclp pool_step p q \<and> pool_view y' q"
  by (erule hsys_stepE)
    (blast intro: pool_view_accept r_into_rtranclp pool_step.Accept, blast intro: pool_view_act)

lemma pool_view_reach:
  "rtranclp (hsys_step mw we cn) y y' \<Longrightarrow> pool_view y p \<Longrightarrow> \<exists>q. rtranclp pool_step p q \<and> pool_view y' q"
  by (induction rule: rtranclp_induct) (blast, meson pool_view_step rtranclp_trans)


lemma pool_reached:
  assumes "rtranclp (hsys_step mw we cn) (hsys_start s) y" "kern_ok (ws_kern s)" "ws_load s = load_init"
  obtains p where "rtranclp pool_step (pool_start (ws_kern s)) p" "pool_inv (ws_kern s) p" "pool_view y p"
proof -
  have "pool_view (hsys_start s) (pool_start (ws_kern s))"
    using assms(3) by (simp add: pool_view_def hsys_start_def pool_start_def fds_in_def)
  from pool_view_reach [OF assms(1) this] obtain p where p: "rtranclp pool_step (pool_start (ws_kern s)) p"
    "pool_view y p" by blast
  have "pool_inv (ws_kern s) p" using pool_kept.reach [OF p(1)] pool_inv_start [OF assms(2)] by blast
  then show ?thesis using p that by blast
qed

section \<open>The files\<close>

text \<open>The source is there only while a handler that will remove it is at work; other files are as at the start.\<close>

definition files_inv :: "work_env \<Rightarrow> files \<Rightarrow> hsys \<Rightarrow> bool" where
  "files_inv we fs0 y \<longleftrightarrow>
     (ws_fs (hs_ws y) (src_path (we_pid we)) \<noteq> None \<longrightarrow> (\<exists>h \<in> set (hs_threads y). in_tmp h)) \<and>
     (\<forall>p. p \<noteq> src_path (we_pid we) \<longrightarrow> p \<noteq> bin_path (we_pid we) \<longrightarrow> ws_fs (hs_ws y) p = fs0 p)"

lemma step_source:
  assumes "handler_step mw we h s = Some (h', s')" "pid_ok (we_pid we)"
  shows "(in_tmp h' \<or> ws_fs s' (src_path (we_pid we)) = None \<or> \<not> in_tmp h \<and> ws_fs s' = ws_fs s) \<and>
    (\<forall>p. p \<noteq> src_path (we_pid we) \<longrightarrow> p \<noteq> bin_path (we_pid we) \<longrightarrow> ws_fs s' p = ws_fs s p)"
  using assms paths_differ [OF assms(2)]
  by (cases h) (auto simp: bind_eq_Some_conv write_source_def run_gcc_def unlink_def Let_def split: if_splits option.splits prod.splits)

lemma files_inv_act:
  assumes "files_inv we fs0 y" "pid_ok (we_pid we)" "i < length (hs_threads y)"
    and "handler_step mw we (hs_threads y ! i) (hs_ws y) = Some (h, s)"
  shows "files_inv we fs0 (hsys_put i h s y)"
proof -
  note st = step_source [OF assms(4,2)]
  have "\<exists>g \<in> set ((hs_threads y)[i := h]). in_tmp g" if src: "ws_fs s (src_path (we_pid we)) \<noteq> None"
  proof (cases "in_tmp h")
    case True
    then show ?thesis using set_update_memI [OF assms(3)] by blast
  next
    case False
    then have "\<not> in_tmp (hs_threads y ! i)" "ws_fs s = ws_fs (hs_ws y)" using st src by auto
    moreover from this obtain j where j: "j < length (hs_threads y)" "in_tmp (hs_threads y ! j)"
      using assms(1) src unfolding files_inv_def by (metis in_set_conv_nth)
    ultimately have "(hs_threads y)[i := h] ! j = hs_threads y ! j" by (cases "j = i") auto
    then show ?thesis using j by (metis length_list_update nth_mem)
  qed
  then show ?thesis using st assms(1) by (simp add: files_inv_def)
qed

lemma files_inv_step:
  "hsys_step mw we cn y y' \<Longrightarrow> files_inv we fs0 y \<and> pid_ok (we_pid we) \<Longrightarrow> files_inv we fs0 y' \<and> pid_ok (we_pid we)"
proof (erule hsys_stepE)
  fix ev assume "y' = hsys_accept cn ev y" "files_inv we fs0 y \<and> pid_ok (we_pid we)"
  then show "files_inv we fs0 y' \<and> pid_ok (we_pid we)"
    by (auto simp: files_inv_def hsys_accept_def split: accept_result.split prod.split)
next
  fix i h s assume "y' = hsys_put i h s y" "i < length (hs_threads y)"
    "handler_step mw we (hs_threads y ! i) (hs_ws y) = Some (h, s)" "files_inv we fs0 y \<and> pid_ok (we_pid we)"
  then show "files_inv we fs0 y' \<and> pid_ok (we_pid we)" using files_inv_act by blast
qed

interpretation files_kept: kept "hsys_step mw we cn" "\<lambda>y. files_inv we fs0 y \<and> pid_ok (we_pid we)" for mw we cn fs0
  by unfold_locales (rule files_inv_step)

section \<open>After the accept loop has ended\<close>

lemma accept_stopped:
  "hsys_step mw we cn y y' \<Longrightarrow> \<not> hs_accepting y \<and> hs_taken y = ts \<Longrightarrow> \<not> hs_accepting y' \<and> hs_taken y' = ts"
  by (erule hsys_stepE) (auto simp: hsys_accept_def)

interpretation stopped: kept "hsys_step mw we cn" "\<lambda>y. \<not> hs_accepting y \<and> hs_taken y = ts" for mw we cn ts
  by unfold_locales (rule accept_stopped)

section \<open>Two clients\<close>

lemma accept_new:
  assumes "unat (load_get_active_tasks (ws_load (hs_ws y))) < MAX_CONCURRENT_TASKS" "hs_accepting y"
  obtains fd y' where "excl_step mw we cn y y'" "hs_threads y' = hs_threads y @ [H_New fd (cn (length (hs_threads y)))]"
    "ws_load (hs_ws y') = ws_load (hs_ws y)" "ws_fs (hs_ws y') = ws_fs (hs_ws y)" "hs_accepting y'"
  using assms excl_step.Excl_Accept [of mw we cn y "Acc_Conn 0 True"]
  by (simp add: hsys_accept_def accept_iteration_def Let_def)

text \<open>Two connections accepted before either handler does anything.\<close>

lemma accept_two:
  assumes "unat (load_get_active_tasks (ws_load s)) < MAX_CONCURRENT_TASKS"
  obtains y fd0 fd1 where "rtranclp (excl_step mw we cn) (hsys_start s) y"
    "hs_threads y = [H_New fd0 (cn 0), H_New fd1 (cn 1)]" "ws_load (hs_ws y) = ws_load s" "ws_fs (hs_ws y) = ws_fs s"
proof -
  have start: "hs_ws (hsys_start s) = s" "hs_threads (hsys_start s) = []" "hs_accepting (hsys_start s)" by (simp_all add: hsys_start_def)
  obtain fd0 y1 where a: "excl_step mw we cn (hsys_start s) y1" "hs_threads y1 = [H_New fd0 (cn 0)]"
    "ws_load (hs_ws y1) = ws_load s" "ws_fs (hs_ws y1) = ws_fs s" "hs_accepting y1"
    using accept_new [of "hsys_start s" mw we cn, unfolded start(1,2), OF _ start(3)] assms by (metis append_Nil list.size(3))
  obtain fd1 y2 where b: "excl_step mw we cn y1 y2" "hs_threads y2 = [H_New fd0 (cn 0), H_New fd1 (cn 1)]"
    "ws_load (hs_ws y2) = ws_load s" "ws_fs (hs_ws y2) = ws_fs s"
    using accept_new [of y1 mw we cn, unfolded a(2-4), OF _ a(5)] assms by (metis append_Cons append_Nil One_nat_def length_Cons list.size(3))
  have "rtranclp (excl_step mw we cn) (hsys_start s) y2" using a(1) b(1) by (meson r_into_rtranclp rtranclp_trans)
  then show ?thesis using b(2-4) by (rule that)
qed

text \<open>A handler comes as far as its source being written.\<close>

lemma run_to_written:
  assumes "env_ok we data" "client_sends mw we fn data c"
  obtains c1 s' where "handler_run 3 mw we (H_New fd c) s = Some (H_Written fd c1, s')" "same_tx c c1"
    "ws_fs s' = write_source (we_pid we) data (ws_fs s)"
proof -
  obtain c1 where c1: "\<And>s. handler_step mw we (H_New fd c) s = Some (H_Task fd c1 data, s)" "same_tx c c1"
    using step_new [OF assms(2)] by metis
  show ?thesis
    by (rule that [OF _ c1(2), of "s\<lparr>ws_load := load_task_start (ws_load s), ws_fs := write_source (we_pid we) data (ws_fs s)\<rparr>"])
      (simp_all add: numeral_eq_Suc c1(1) env_okD [OF assms(1)] del: handler_step.simps(1))
qed

lemma two_written:
  assumes "clients_ok mw we cn fn dat" "unat (load_get_active_tasks (ws_load s)) < MAX_CONCURRENT_TASKS"
  obtains y fd0 fd1 c0 c1 where "rtranclp (hsys_step mw we cn) (hsys_start s) y"
    "hs_threads y = [H_Written fd0 c0, H_Written fd1 c1]" "same_tx (cn 0) c0" "same_tx (cn 1) c1"
    "ws_fs (hs_ws y) (src_path (we_pid we)) = Some (dat 1)"
proof -
  have ok: "env_ok we (dat i)" "client_sends mw we (fn i) (dat i) (cn i)" for i
    using assms(1) by (simp_all add: clients_ok_def)
  obtain y fd0 fd1 where y: "rtranclp (hsys_step mw we cn) (hsys_start s) y"
    "hs_threads y = [H_New fd0 (cn 0), H_New fd1 (cn 1)]" using accept_two [OF assms(2)] excl.reach by metis
  obtain c0 s0 where r0: "handler_run 3 mw we (H_New fd0 (cn 0)) (hs_ws y) = Some (H_Written fd0 c0, s0)"
    "same_tx (cn 0) c0" using run_to_written [OF ok] by metis
  let ?y1 = "hsys_put 0 (H_Written fd0 c0) s0 y"
  obtain c1 s1 where r1: "handler_run 3 mw we (H_New fd1 (cn 1)) s0 = Some (H_Written fd1 c1, s1)"
    "same_tx (cn 1) c1" "ws_fs s1 = write_source (we_pid we) (dat 1) (ws_fs s0)"
    using run_to_written [OF ok] by metis
  let ?y2 = "hsys_put 1 (H_Written fd1 c1) s1 ?y1"
  have "rtranclp (hsys_step mw we cn) y ?y1" by (rule hsys_run [where n = 3]) (simp_all add: y(2) r0(1))
  moreover have "rtranclp (hsys_step mw we cn) ?y1 ?y2" by (rule hsys_run [where n = 3]) (use r1(1) in \<open>simp_all add: y(2)\<close>)
  ultimately have "rtranclp (hsys_step mw we cn) (hsys_start s) ?y2" using y(1) by (meson rtranclp_trans)
  then show ?thesis
    by (rule that [of ?y2 fd0 c0 fd1 c1]) (use r0(2) r1(2,3) in \<open>simp_all add: y(2) write_source_def\<close>)
qed

text \<open>A handler comes as far as its binary being there.\<close>

lemma handler_run_add:
  "handler_run (m + n) mw we h s = (case handler_run m mw we h s of None \<Rightarrow> None | Some (h1, s1) \<Rightarrow> handler_run n mw we h1 s1)"
  by (induction m arbitrary: h s) (auto split: option.split)

lemma run_to_compiled:
  assumes "compiler_writes we" "env_ok we data" "client_sends mw we fn data c" "compiles we data"
  obtains c1 s' where "handler_run 5 mw we (H_New fd c) s = Some (H_Compiled fd c1, s')" "gcc_sent we data c c1"
proof -
  have ends: "task_ends we data None" using assms(3) by (simp add: client_sends_def)
  obtain c1 s1 where w: "handler_run 3 mw we (H_New fd c) s = Some (H_Written fd c1, s1)" "same_tx c c1"
    "ws_fs s1 = write_source (we_pid we) data (ws_fs s)" using run_to_written [OF assms(2,3)] by metis
  have "tracks mw we fn data c (ws_fs s1) (H_Written fd c1)"
    using w(2,3) assms(3) by (simp add: write_source_def unsent_def client_sends_def same_tx_def room_for_def)
  from tracks_step [OF assms(1,2) ends this] obtain h2 s2 where
    g: "handler_step mw we (H_Written fd c1) s1 = Some (h2, s2)" "tracks mw we fn data c (ws_fs s2) h2" .
  obtain ch where h2: "h2 = H_Compiling fd c1 ch"
    using g(1) env_okD(2) [OF assms(2)] by (auto split: prod.splits)
  from tracks_step [OF assms(1,2) ends g(2)] obtain h3 s3 where
    r: "handler_step mw we h2 s2 = Some (h3, s3)" "tracks mw we fn data c (ws_fs s3) h3" .
  obtain c3 where h3: "h3 = H_Compiled fd c3"
    using r assms(4) by (auto simp: h2 bind_eq_Some_conv split: if_splits)
  have "handler_run (3 + Suc (Suc 0)) mw we (H_New fd c) s = Some (H_Compiled fd c3, s3)"
    using handler_run_add [of 3 "Suc (Suc 0)" mw we "H_New fd c" s] w(1) g(1) r(1) h3
    by (simp del: handler_step.simps)
  moreover have "3 + Suc (Suc 0) = 5" by simp
  ultimately show ?thesis using r(2) that [of c3 s3] by (metis h3 tracks.simps(6))
qed

lemma chunks_of_empty: "chunks_of chunks [] \<longleftrightarrow> chunks = []"
  by (cases chunks) (auto simp: chunks_of_def)

section \<open>Clients for the witnesses\<close>

definition demo_data :: "nat \<Rightarrow> byte list" where
  "demo_data i = (if i = 0 then [33] else [72, 105])"

definition demo_clients :: "nat \<Rightarrow> conn" where
  "demo_clients i = task_conn [97] (demo_data i)"

lemma demo_clients_ok: "clients_ok (\<lambda>_. True) demo_we demo_clients (\<lambda>_. [97]) demo_data"
proof -
  have "compiler_writes demo_we" by (simp add: compiler_writes_def demo_exec finished_def demo_child_exit)
  then show ?thesis
    by (simp add: clients_ok_def client_sends_def demo_clients_def demo_data_def task_conn_stream demo_task_reply
        demo_pid limit_defs)
qed

lemma demo_worker: "kern_ok (ws_kern idle_worker)" "ws_load idle_worker = load_init"
  "unat (load_get_active_tasks (ws_load idle_worker)) < MAX_CONCURRENT_TASKS"
  by (auto simp: idle_worker_def kern_ok_def load_init_def load_get_active_tasks_def MAX_CONCURRENT_TASKS_def)

section \<open>Properties\<close>

text \<open>A handler that runs without being interrupted is \<^verbatim>\<open>handle_connection\<close>: at most
  ten actions take it from the accepted connection to the closed one, with the same bytes sent and the
  same state left behind, and it blocks exactly when \<^verbatim>\<open>handle_connection\<close> blocks. Whatever the others do in
  between, every action that returns brings a handler nearer to its end.\<close>

theorem handler_sequential:
  "handler_run 10 mw we (H_New fd c) s =
     map_option (\<lambda>(c', s'). (H_Closed c', s')) (handle_connection mw we fd c s) \<and>
   (case handler_step mw we h t of
      None \<Rightarrow> True
    | Some (h', t') \<Rightarrow> actions_left h' < actions_left h \<or> actions_left h = 0)"
  using handler_run_new [of 0 mw we fd c s] step_left [of mw we h t] by (auto split: option.split)

text \<open>C9: in every state that the accept loop and the handlers can reach together, in
  any order of their actions, the process is a reachable state of the pool: with the same counters and
  descriptors and with the handlers sorted into its lists by how far they are. So the counter of active
  tasks is the number of handlers between start and end of their task, and the open descriptors are those
  of the start, one for every handler that has not closed its connection, and one for every connection
  that got no handler because its thread could not be created.\<close>

theorem handlers_refine_pool:
  assumes "rtranclp (hsys_step mw we cn) (hsys_start s) y" "kern_ok (ws_kern s)" "ws_load s = load_init"
  shows "\<exists>p. rtranclp pool_step (pool_start (ws_kern s)) p \<and> pool_view y p \<and>
    load_get_active_tasks (ws_load (hs_ws y)) = word_of_nat (size (fds_in In_Running (hs_threads y))) \<and>
    set (k_fds (ws_kern (hs_ws y))) = set (k_fds (ws_kern s)) \<union>
      nat ` set_mset (fds_in In_Waiting (hs_threads y) + fds_in In_Running (hs_threads y) + fds_in In_Closing (hs_threads y) +
        mset (hs_orphans y))"
proof -
  obtain p where "rtranclp pool_step (pool_start (ws_kern s)) p" "pool_inv (ws_kern s) p" "pool_view y p"
    using pool_reached [OF assms] .
  then show ?thesis
    by (intro exI [of _ p]) (auto simp: pool_inv_def pool_view_def pool_fds_def Un_assoc simp flip: size_mset set_mset_mset)
qed

theorem handlers_refine_pool_witness:
  "\<exists>y. length (hs_threads y) = 2 \<and> (\<exists>p. rtranclp pool_step (pool_start (ws_kern idle_worker)) p \<and> pool_view y p)"
proof -
  obtain y fd0 fd1 c0 c1 where y: "rtranclp (hsys_step (\<lambda>_. True) demo_we demo_clients) (hsys_start idle_worker) y"
    "hs_threads y = [H_Written fd0 c0, H_Written fd1 c1]"
    using two_written [OF demo_clients_ok demo_worker(3)] by metis
  then show ?thesis using handlers_refine_pool [OF y(1) demo_worker(1,2)] by (intro exI [of _ y]) auto
qed

text \<open>C15: whatever the accept loop and the handlers have done in whatever order, when all
  handlers have come to their end, after a reply, a failed compilation, a bad message or a source that
  could not be written, the counter of active tasks is back at 0, the only descriptors left are those of
  the start and of the connections that got no thread, no source file is left in \<^verbatim>\<open>/tmp\<close>, and no
  file but the source and the binary of the process has been touched.\<close>

theorem nothing_left_behind:
  assumes "rtranclp (hsys_step mw we cn) (hsys_start s) y" "kern_ok (ws_kern s)" "ws_load s = load_init"
    and "pid_ok (we_pid we)" "ws_fs s (src_path (we_pid we)) = None"
    and "\<forall>h \<in> set (hs_threads y). place_of h = Gone"
  shows "load_get_active_tasks (ws_load (hs_ws y)) = 0 \<and>
    set (k_fds (ws_kern (hs_ws y))) = set (k_fds (ws_kern s)) \<union> nat ` set (hs_orphans y) \<and>
    ws_fs (hs_ws y) (src_path (we_pid we)) = None \<and>
    (\<forall>p. p \<noteq> src_path (we_pid we) \<longrightarrow> p \<noteq> bin_path (we_pid we) \<longrightarrow> ws_fs (hs_ws y) p = ws_fs s p)"
proof -
  obtain p where p: "pool_inv (ws_kern s) p" "pool_view y p" using pool_reached [OF assms(1-3)] .
  have "fds_in k (hs_threads y) = {#}" if "k \<noteq> Gone" for k
    using assms(6) that by (auto simp: fds_in_def)
  then have lists: "pl_waiting p = []" "pl_running p = []" "pl_closing p = []" "pl_orphans p = hs_orphans y"
    using p(2) by (simp_all add: pool_view_def)
  have "files_inv we (ws_fs s) (hsys_start s)" using assms(5) by (simp add: files_inv_def hsys_start_def)
  with files_kept.reach [OF assms(1)] assms(4) have "files_inv we (ws_fs s) y" by blast
  moreover have "\<not> in_tmp h" if "h \<in> set (hs_threads y)" for h
    using assms(6) that by (cases h) auto
  ultimately have files: "ws_fs (hs_ws y) (src_path (we_pid we)) = None"
    "\<forall>p. p \<noteq> src_path (we_pid we) \<longrightarrow> p \<noteq> bin_path (we_pid we) \<longrightarrow> ws_fs (hs_ws y) p = ws_fs s p"
    unfolding files_inv_def by blast+
  have "load_get_active_tasks (pl_load p) = 0" "set (k_fds (pl_kern p)) = set (k_fds (ws_kern s)) \<union> nat ` set (hs_orphans y)"
    using p(1) lists by (simp_all add: pool_inv_def pool_fds_def)
  then show ?thesis using p(2) files by (simp add: pool_view_def)
qed

theorem nothing_left_behind_witness:
  "\<exists>y c0 c1. rtranclp (hsys_step (\<lambda>_. True) demo_we demo_clients) (hsys_start idle_worker) y \<and>
     hs_threads y = [H_Closed c0, H_Closed c1] \<and> ws_fs (hs_ws y) (src_path 4321) = None"
proof -
  note ok = demo_clients_ok [unfolded clients_ok_def]
  obtain y fd0 fd1 where y: "rtranclp (hsys_step (\<lambda>_. True) demo_we demo_clients) (hsys_start idle_worker) y"
    "hs_threads y = [H_New fd0 (demo_clients 0), H_New fd1 (demo_clients 1)]"
    using accept_two [OF demo_worker(3)] excl.reach by metis
  have run: "\<exists>c s'. handler_run 10 (\<lambda>_. True) demo_we (H_New fd (demo_clients i)) s = Some (H_Closed c, s')" for i fd s
  proof -
    have "tracks (\<lambda>_. True) demo_we [97] (demo_data i) (demo_clients i) (ws_fs s) (H_New fd (demo_clients i))"
      using ok by simp
    from run_to_end [OF _ _ _ _ this, of 10] ok demo_task_reply(3) show ?thesis by auto
  qed
  obtain c0 s0 where r0: "handler_run 10 (\<lambda>_. True) demo_we (H_New fd0 (demo_clients 0)) (hs_ws y) = Some (H_Closed c0, s0)"
    using run by blast
  obtain c1 s1 where r1: "handler_run 10 (\<lambda>_. True) demo_we (H_New fd1 (demo_clients 1)) s0 = Some (H_Closed c1, s1)"
    using run by blast
  let ?y1 = "hsys_put 0 (H_Closed c0) s0 y"
  let ?y2 = "hsys_put 1 (H_Closed c1) s1 ?y1"
  have "rtranclp (hsys_step (\<lambda>_. True) demo_we demo_clients) y ?y1"
    by (rule hsys_run [where n = 10]) (simp_all add: y(2) r0)
  moreover have "rtranclp (hsys_step (\<lambda>_. True) demo_we demo_clients) ?y1 ?y2"
    by (rule hsys_run [where n = 10]) (use r1 in \<open>simp_all add: y(2)\<close>)
  ultimately have r: "rtranclp (hsys_step (\<lambda>_. True) demo_we demo_clients) (hsys_start idle_worker) ?y2"
    using y(1) by (meson rtranclp_trans)
  have t: "hs_threads ?y2 = [H_Closed c0, H_Closed c1]" by (simp add: y(2))
  have "we_pid demo_we = 4321" "pid_ok (we_pid demo_we)" "ws_fs idle_worker = Map.empty"
    by (simp_all add: demo_we_def pid_ok_def idle_worker_def)
  then show ?thesis using nothing_left_behind [OF r demo_worker(1,2)] r t by (intro exI [of _ ?y2]) simp
qed

text \<open>C25: an error of \<^verbatim>\<open>accept\<close> ends the accept loop for good: from then on no
  connection is taken from the queue of the listening socket, whatever the handlers at work do. The
  kernel still completes connections to it, so a \<^verbatim>\<open>dispatch\<close> of another node can connect and send its
  task; but what comes back on a connection that was not taken before is nothing, and it is not closed:
  the \<^verbatim>\<open>dispatch\<close> never returns.\<close>

theorem accept_error_hangs:
  assumes "rtranclp (hsys_step mw we cn) (hsys_accept cn Acc_Err y) y'" "length (hs_taken y) \<le> k"
    and "choose_target e local_ip own_port s = (use_local, ip, port, s1)"
    and "connect_target e local_ip own_port use_local ip port s1 = (fd, ip', port', s2)" "0 \<le> fd"
    and "stream (de_conn e ip' port') = fst (sent_back cn y' k)"
    and "closed (de_conn e ip' port') \<longrightarrow> snd (sent_back cn y' k)"
    and "room_for (de_conn e ip' port') (8 + length (task_payload task))" "de_malloc e (length (task_payload task))"
    and "t_file_size task = word_of_nat (length (t_file_data task))"
    and "length (t_filename task) < MAX_FILENAME_LEN" "length (t_file_data task) \<le> MAX_FILE_SIZE"
  shows "hs_taken y' = hs_taken y \<and> dispatch e task local_ip own_port s = None"
proof -
  have "\<not> hs_accepting (hsys_accept cn Acc_Err y) \<and> hs_taken (hsys_accept cn Acc_Err y) = hs_taken y"
    by (simp add: hsys_accept_def accept_iteration_def)
  with stopped.reach [OF assms(1)] have taken: "hs_taken y' = hs_taken y" by blast
  then have "sent_back cn y' k = ([], False)" using assms(2) by (simp add: sent_back_def)
  then have "stream (de_conn e ip' port') = []" "\<not> closed (de_conn e ip' port')" using assms(6,7) by simp_all
  from dispatch_waits [OF assms(3-5) this assms(8-12)] taken show ?thesis by simp
qed

text \<open>The accept loop of an idle worker has met an error before the first connection.\<close>

theorem accept_error_hangs_witness:
  "dispatch (demo_env\<lparr>de_conn := (\<lambda>_ _. \<lparr>rx = [], tx = replicate 40 (TxTake 9), outp = []\<rparr>)\<rparr>) demo_task
     ''10.0.0.1'' 7777 demo_state = None"
proof -
  let ?c = "\<lparr>rx = [], tx = replicate 40 (TxTake 9), outp = []\<rparr> :: conn"
  let ?e = "demo_env\<lparr>de_conn := (\<lambda>_ _. ?c)\<rparr>"
  obtain s1 where ch: "choose_target demo_env ''10.0.0.1'' 7777 demo_state = (False, ''10.0.0.2'', 7777, s1)"
    using demo_choice by blast
  then have c: "choose_target ?e ''10.0.0.1'' 7777 demo_state = (False, ''10.0.0.2'', 7777, s1)"
    by (simp add: choose_target_def cong: option.case_cong)
  have pt: "\<exists>a. inet_pton ''10.0.0.2'' = Some a"
    by (simp add: inet_pton_def octet_def is_digit_def dec_val_def digit_val_def)
  obtain fd k where tc: "tcp_connect all_ok ''10.0.0.2'' 7777 (ds_kern s1) = (fd, k)" by fastforce
  then have fd: "0 \<le> fd" using pt by (auto simp: tcp_connect_def sys_socket_def all_ok_def Let_def)
  then have t: "connect_target ?e ''10.0.0.1'' 7777 False ''10.0.0.2'' 7777 s1 = (fd, ''10.0.0.2'', 7777, s1\<lparr>ds_kern := k\<rparr>)"
    using tc by (simp add: connect_target_def demo_env_def)
  have "room_for ?c (8 + length (task_payload demo_task))"
    by (simp add: demo_payload_length room_for_def tx_ok_def tx_takes_def list_all_iff)
  then show ?thesis
    using accept_error_hangs [OF rtranclp.rtrancl_refl _ c t fd, where cn = demo_clients and y = "hsys_start idle_worker" and k = 0]
    by (simp add: demo_task_def limit_defs demo_env_def sent_back_def hsys_accept_def accept_iteration_def hsys_start_def)
qed

text \<open>C14: as long as no handler writes its source while another one is between writing its
  source and removing its files, concurrent tasks do not disturb each other: whatever else the order of
  accepts and actions, no handler ever blocks, and every one that has come to its end has sent its client
  the output and the exit code of the client's own task.\<close>

theorem exclusive_tasks:
  assumes "clients_ok mw we cn fn dat" "rtranclp (excl_step mw we cn) (hsys_start s) y" "i < length (hs_threads y)"
  shows "handler_step mw we (hs_threads y ! i) (hs_ws y) \<noteq> None \<and>
    (\<forall>c. hs_threads y ! i = H_Closed c \<longrightarrow> client_gets we (dat i) (cn i) c)"
proof -
  have "on_tracks mw we cn fn dat y" using tracks_kept.reach [OF assms(2)] assms(1) on_tracks_start by blast
  then have tr: "tracks mw we (fn i) (dat i) (cn i) (ws_fs (hs_ws y)) (hs_threads y ! i)"
    using assms(3) by (simp add: on_tracks_def)
  have "compiler_writes we" "env_ok we (dat i)" "task_ends we (dat i) None"
    using assms(1) by (simp_all add: clients_ok_def client_sends_def)
  from tracks_step [OF this tr] obtain h' s' where "handler_step mw we (hs_threads y ! i) (hs_ws y) = Some (h', s')" .
  moreover have "client_gets we (dat i) (cn i) c" if "hs_threads y ! i = H_Closed c" for c using tr by (simp add: that)
  ultimately show ?thesis by blast
qed

theorem exclusive_tasks_witness:
  "\<exists>y c fd c'. rtranclp (excl_step (\<lambda>_. True) demo_we demo_clients) (hsys_start idle_worker) y \<and>
     hs_threads y = [H_Closed c, H_New fd c'] \<and> client_gets demo_we (demo_data 0) (demo_clients 0) c"
proof -
  note ok = demo_clients_ok [unfolded clients_ok_def]
  obtain y fd0 fd1 where y: "rtranclp (excl_step (\<lambda>_. True) demo_we demo_clients) (hsys_start idle_worker) y"
    "hs_threads y = [H_New fd0 (demo_clients 0), H_New fd1 (demo_clients 1)]"
    using accept_two [OF demo_worker(3)] by metis
  have "tracks (\<lambda>_. True) demo_we [97] (demo_data 0) (demo_clients 0) (ws_fs (hs_ws y)) (H_New fd0 (demo_clients 0))"
    using ok by simp
  from run_to_end [OF _ _ _ _ this, of 10] ok demo_task_reply(3) obtain c s' where
    r: "handler_run 10 (\<lambda>_. True) demo_we (H_New fd0 (demo_clients 0)) (hs_ws y) = Some (H_Closed c, s')" by auto
  let ?y = "hsys_put 0 (H_Closed c) s' y"
  have "rtranclp (excl_step (\<lambda>_. True) demo_we demo_clients) y ?y"
    by (rule excl_run [where n = 10]) (use r in \<open>simp_all add: y(2) nth_Cons'\<close>)
  with y(1) have e: "rtranclp (excl_step (\<lambda>_. True) demo_we demo_clients) (hsys_start idle_worker) ?y"
    by (rule rtranclp_trans)
  have "client_gets demo_we (demo_data 0) (demo_clients 0) c"
    using exclusive_tasks [OF demo_clients_ok e, of 0] by (simp add: y(2))
  then show ?thesis using e by (intro exI [of _ ?y]) (simp add: y(2))
qed

text \<open>C20: without that exclusion, which the code does not provide, they do: two
  clients connect to an idle worker and there is an order of the handlers' actions after which the first
  client has been sent, as its own, the output and the exit code of the second client's program.\<close>

theorem interleaved_tasks_collide:
  assumes "clients_ok mw we cn fn dat" "unat (load_get_active_tasks (ws_load s)) < MAX_CONCURRENT_TASKS"
    and "room_for (cn 0) (9 * length (fst (task_reply we (dat 1) None)) + 12)"
  shows "\<exists>y c. rtranclp (hsys_step mw we cn) (hsys_start s) y \<and> hs_threads y ! 0 = H_Closed c \<and>
    client_gets we (dat 1) (cn 0) c"
proof -
  obtain y fd0 fd1 c0 c1 where y: "rtranclp (hsys_step mw we cn) (hsys_start s) y"
    "hs_threads y = [H_Written fd0 c0, H_Written fd1 c1]" "same_tx (cn 0) c0"
    "ws_fs (hs_ws y) (src_path (we_pid we)) = Some (dat 1)" using two_written [OF assms(1,2)] by metis
  have ok: "compiler_writes we" "env_ok we (dat 1)" "task_ends we (dat 1) None"
    using assms(1) by (simp_all add: clients_ok_def client_sends_def)
  have "tracks mw we (fn 1) (dat 1) (cn 0) (ws_fs (hs_ws y)) (H_Written fd0 c0)"
    using y(3,4) assms(3) by (simp add: unsent_def same_tx_def room_for_def)
  from run_to_end [OF ok _ this, of 7] obtain c s' where r: "handler_run 7 mw we (H_Written fd0 c0) (hs_ws y) = Some (H_Closed c, s')"
    "client_gets we (dat 1) (cn 0) c" by auto
  have "rtranclp (hsys_step mw we cn) y (hsys_put 0 (H_Closed c) s' y)"
    by (rule hsys_run [where n = 7]) (simp_all add: y(2) r(1))
  with y(1) have "rtranclp (hsys_step mw we cn) (hsys_start s) (hsys_put 0 (H_Closed c) s' y)" by (rule rtranclp_trans)
  then show ?thesis using r(2) by (intro exI [of _ "hsys_put 0 (H_Closed c) s' y"] exI [of _ c]) (simp add: y(2))
qed

theorem interleaved_tasks_collide_witness:
  "task_reply demo_we [33] None = ([69], 1) \<and> task_reply demo_we [72, 105] None = ([72, 105], 3) \<and> demo_data 0 = [33] \<and>
   (\<exists>y c. rtranclp (hsys_step (\<lambda>_. True) demo_we demo_clients) (hsys_start idle_worker) y \<and> hs_threads y ! 0 = H_Closed c \<and>
     client_gets demo_we [72, 105] (demo_clients 0) c)"
proof -
  have d: "demo_data 1 = [72, 105]" by (simp add: demo_data_def)
  have r: "room_for (demo_clients 0) (9 * length (fst (task_reply demo_we [72, 105] None)) + 12)"
    by (simp add: demo_clients_def task_conn_stream demo_task_reply)
  from interleaved_tasks_collide [OF demo_clients_ok demo_worker(3), unfolded d, OF r]
  show ?thesis by (simp only: demo_task_reply) (simp add: demo_data_def)
qed

text \<open>C21: nor is a binary safe between being compiled and being run: there is an order of
  the actions of two handlers in which the second one comes to its end in between and removes the
  binary, so that \<^verbatim>\<open>execl\<close> fails in the child of the first. The first client, whose task has compiled
  without error, is then sent what the compiler wrote and 127 as the exit code of a program that never
  ran, while the second client gets the answer to its task.\<close>

theorem unlinked_underfoot:
  assumes "clients_ok mw we cn fn dat" "unat (load_get_active_tasks (ws_load s)) < MAX_CONCURRENT_TASKS"
    and "compiles we (dat 0)" "compiles we (dat 1)"
  shows "\<exists>y c0 c1 chunks. rtranclp (hsys_step mw we cn) (hsys_start s) y \<and> hs_threads y = [H_Closed c0, H_Closed c1] \<and>
    chunks_of chunks (rx_stream (ch_output (gcc_child we (dat 0)))) \<and>
    outp c0 = outp (cn 0) @ frames chunks @ frame MSG_TASK_DONE (done_payload 127) \<and> client_gets we (dat 1) (cn 1) c1"
proof -
  have ok: "compiler_writes we" "env_ok we (dat i)" "client_sends mw we (fn i) (dat i) (cn i)" "task_ends we (dat i) None" for i
    using assms(1) by (simp_all add: clients_ok_def client_sends_def)
  obtain y fd0 fd1 where y: "rtranclp (hsys_step mw we cn) (hsys_start s) y"
    "hs_threads y = [H_New fd0 (cn 0), H_New fd1 (cn 1)]" using accept_two [OF assms(2)] excl.reach by metis
  obtain c0 s0 where r0: "handler_run 5 mw we (H_New fd0 (cn 0)) (hs_ws y) = Some (H_Compiled fd0 c0, s0)"
    "gcc_sent we (dat 0) (cn 0) c0" using run_to_compiled [OF ok(1-3) assms(3)] by metis
  have "tracks mw we (fn 1) (dat 1) (cn 1) (ws_fs s0) (H_New fd1 (cn 1))" using ok(3) by simp
  from run_to_end [OF ok(1,2,4) _ this, of 10] obtain c1 s1 where
    r1: "handler_run 10 mw we (H_New fd1 (cn 1)) s0 = Some (H_Closed c1, s1)" "client_gets we (dat 1) (cn 1) c1"
      "ws_fs s1 (bin_path (we_pid we)) = None" using assms(4) by (auto simp: no_binary_def)
  obtain chunks where ch: "chunks_of chunks (rx_stream (ch_output (gcc_child we (dat 0))))" "outp c0 = outp (cn 0) @ frames chunks"
    "room_for c0 12" using r0(2) by (auto simp: gcc_sent_def room_for_def)
  have "run_binary we (ws_fs s1) = exec_failed" by (simp add: run_binary_def r1(3) exec_binary_def)
  with run_step_reply [of exec_failed c0 we s1] exec_failed_end ch(3) obtain c2 s2 where
    "run_step we c0 s1 = Some (c2, s2)" "outp c2 = outp c0 @ frame MSG_TASK_DONE (done_payload 127)"
    by (simp add: chunks_of_empty frames_def) metis
  then obtain s3 where r2: "handler_run 5 mw we (H_Compiled fd0 c0) s1 = Some (H_Closed c2, s3)"
    "outp c2 = outp c0 @ frame MSG_TASK_DONE (done_payload 127)"
    using handler_run_compiled [of 0 mw we fd0 c0 s1] by (simp add: closed_after_def numeral_eq_Suc del: handler_run.simps)
  let ?y1 = "hsys_put 0 (H_Compiled fd0 c0) s0 y"
  let ?y2 = "hsys_put 1 (H_Closed c1) s1 ?y1"
  let ?y3 = "hsys_put 0 (H_Closed c2) s3 ?y2"
  have "rtranclp (hsys_step mw we cn) y ?y1" by (rule hsys_run [where n = 5]) (simp_all add: y(2) r0(1))
  moreover have "rtranclp (hsys_step mw we cn) ?y1 ?y2" by (rule hsys_run [where n = 10]) (use r1(1) in \<open>simp_all add: y(2)\<close>)
  moreover have "rtranclp (hsys_step mw we cn) ?y2 ?y3" by (rule hsys_run [where n = 5]) (simp_all add: y(2) r2(1))
  ultimately have "rtranclp (hsys_step mw we cn) (hsys_start s) ?y3" using y(1) by (meson rtranclp_trans)
  then show ?thesis using ch(1,2) r1(2) r2(2)
    by (intro exI [of _ ?y3] exI [of _ c2] exI [of _ c1] exI [of _ chunks]) (simp add: y(2))
qed

theorem unlinked_underfoot_witness:
  "\<exists>y c0 c1. rtranclp (hsys_step (\<lambda>_. True) demo_we (\<lambda>_. demo_clients 1)) (hsys_start idle_worker) y \<and>
     hs_threads y = [H_Closed c0, H_Closed c1] \<and> outp c0 = frame MSG_TASK_DONE (done_payload 127) \<and>
     client_gets demo_we [72, 105] (demo_clients 1) c1"
proof -
  have c: "clients_ok (\<lambda>_. True) demo_we (\<lambda>_. demo_clients 1) (\<lambda>_. [97]) (\<lambda>_. [72, 105])"
  proof -
    have "demo_data 1 = [72, 105]" by (simp add: demo_data_def)
    then show ?thesis using demo_clients_ok unfolding clients_ok_def by metis
  qed
  have g: "gcc_child demo_we [72, 105] = finished [] 0"
    by (simp add: gcc_child_def demo_exec finished_def)
  have k: "compiles demo_we [72, 105]" by (simp add: compiles_def g finished_def demo_child_exit)
  have f: "rx_stream (ch_output (finished [] st)) = []" for st by (simp add: finished_def)
  from unlinked_underfoot [OF c demo_worker(3) k k, unfolded g f]
  obtain y c0 c1 where y: "rtranclp (hsys_step (\<lambda>_. True) demo_we (\<lambda>_. demo_clients 1)) (hsys_start idle_worker) y"
    "hs_threads y = [H_Closed c0, H_Closed c1]"
    "outp c0 = outp (demo_clients 1) @ frame MSG_TASK_DONE (done_payload 127)" "client_gets demo_we [72, 105] (demo_clients 1) c1"
    unfolding chunks_of_empty by (auto simp: frames_def)
  moreover have "outp (demo_clients 1) = []" by (simp add: demo_clients_def task_conn_def)
  ultimately show ?thesis by (intro exI [of _ y] exI [of _ c0] exI [of _ c1]) simp
qed

end
