(* ===== verification/Processes.thy ===== *)
theory Processes
  imports Worker "HOL-Library.Multiset"
begin

text \<open>
  Descriptors across \<^verbatim>\<open>fork\<close>: the pipes through which \<^verbatim>\<open>worker.c\<close> reads what the compiler and the
  programs write, the processes that hold their ends, and the connections of the handlers. The source
  sets \<^verbatim>\<open>FD_CLOEXEC\<close> nowhere, so a child inherits every descriptor that is open in the worker when it is
  forked, those of other handlers included.
\<close>

section \<open>Descriptor tables\<close>

text \<open>What a descriptor refers to. Pipes and connections are numbered; \<open>Source c\<close> is the file in \<^verbatim>\<open>/tmp\<close>
  while the handler of the connection \<open>c\<close> writes it.\<close>

datatype fobj = Socket nat | Source nat | Pipe_Read nat | Pipe_Write nat | Other nat

type_synonym fd_table = "(nat \<times> fobj) list"

definition fd_open :: "fobj \<Rightarrow> fd_table \<Rightarrow> nat \<times> fd_table" where
  "fd_open x t = (let fd = fresh_fd (map fst t) in (fd, (fd, x) # t))"

definition fd_close :: "nat \<Rightarrow> fd_table \<Rightarrow> fd_table" where
  "fd_close fd t = filter (\<lambda>(f, _). f \<noteq> fd) t"

definition sys_pipe :: "nat \<Rightarrow> fd_table \<Rightarrow> nat \<times> nat \<times> fd_table" where
  "sys_pipe q t = (let (p0, t1) = fd_open (Pipe_Read q) t; (p1, t2) = fd_open (Pipe_Write q) t1 in (p0, p1, t2))"

definition sys_dup2 :: "nat \<Rightarrow> nat \<Rightarrow> fd_table \<Rightarrow> fd_table" where
  "sys_dup2 a b t = (case map_of t a of None \<Rightarrow> t | Some x \<Rightarrow> if a = b then t else (b, x) # fd_close b t)"

text \<open>What a child does to its table before it executes the compiler or the program.\<close>

definition child_table :: "nat \<Rightarrow> nat \<Rightarrow> fd_table \<Rightarrow> fd_table" where
  "child_table p0 p1 t = fd_close p1 (sys_dup2 p1 2 (sys_dup2 p1 1 (fd_close p0 t)))"

section \<open>Processes\<close>

text \<open>
  A child, from \<^verbatim>\<open>fork\<close> to \<^verbatim>\<open>exec\<close> and then running. A process started by a child belongs to the
  family of the child, whose number is \<open>kid_root\<close>: the shell that runs the compiler starts such
  processes, and so may a program.
\<close>

datatype kid_phase = Forked_At nat nat | Started

record kid =
  kid_pid :: nat
  kid_root :: nat
  kid_phase :: kid_phase
  kid_table :: fd_table

record procs =
  ps_table :: fd_table
  ps_kids :: "kid list"
  ps_pipes :: nat
  ps_pids :: nat
  ps_zombies :: "(nat \<times> u32) list"

definition kid_exec :: "kid \<Rightarrow> kid" where
  "kid_exec k =
     (case kid_phase k of
        Forked_At p0 p1 \<Rightarrow> k\<lparr>kid_phase := Started, kid_table := child_table p0 p1 (kid_table k)\<rparr>
      | Started \<Rightarrow> k)"

definition held :: "fobj \<Rightarrow> procs \<Rightarrow> bool" where
  "held x s \<longleftrightarrow> x \<in> snd ` set (ps_table s) \<or> (\<exists>k \<in> set (ps_kids s). x \<in> snd ` set (kid_table k))"

text \<open>A read of an empty pipe returns 0 when nobody holds the other end, and blocks otherwise.\<close>

definition at_eof :: "nat \<Rightarrow> procs \<Rightarrow> bool" where
  "at_eof p0 s = (case map_of (ps_table s) p0 of Some (Pipe_Read q) \<Rightarrow> \<not> held (Pipe_Write q) s | _ \<Rightarrow> False)"

definition kid_alive :: "nat \<Rightarrow> procs \<Rightarrow> bool" where
  "kid_alive pid s \<longleftrightarrow> pid \<in> kid_pid ` set (ps_kids s)"

text \<open>
  A child of the worker that has exited stays with its status until the worker waits for it; of what the
  children have started the worker hears nothing.
\<close>

definition kid_gone :: "nat \<Rightarrow> u32 \<Rightarrow> procs \<Rightarrow> procs" where
  "kid_gone pid st s =
     s\<lparr>ps_kids := filter (\<lambda>k. kid_pid k \<noteq> pid) (ps_kids s),
       ps_zombies := ps_zombies s @
         (if list_ex (\<lambda>k. kid_pid k = pid \<and> kid_root k = pid) (ps_kids s) then [(pid, st)] else [])\<rparr>"

definition SIGKILL_STATUS :: u32 where "SIGKILL_STATUS = 9"

definition all_gone :: "u32 \<Rightarrow> procs \<Rightarrow> procs" where
  "all_gone st s =
     s\<lparr>ps_kids := [],
       ps_zombies := ps_zombies s @
         map (\<lambda>k. (kid_pid k, st)) (filter (\<lambda>k. kid_root k = kid_pid k) (ps_kids s))\<rparr>"

text \<open>\<^verbatim>\<open>kill(pid, SIGKILL)\<close>, where \<open>None\<close> stands for \<open>-1\<close>: every process the worker may signal.\<close>

definition sys_kill :: "nat option \<Rightarrow> procs \<Rightarrow> procs" where
  "sys_kill pid s = (case pid of Some p \<Rightarrow> kid_gone p SIGKILL_STATUS s | None \<Rightarrow> all_gone SIGKILL_STATUS s)"

text \<open>
  \<^verbatim>\<open>waitpid(pid, ...)\<close> where \<open>pid\<close> is a child: blocks while it runs, else its status. When somebody
  else has waited for it the call fails and leaves the variable for the status as it is.
\<close>

definition sys_waitpid :: "nat \<Rightarrow> procs \<Rightarrow> ((nat \<times> u32) option \<times> procs) option" where
  "sys_waitpid p s =
     (case map_of (ps_zombies s) p of
        Some st \<Rightarrow> Some (Some (p, st), s\<lparr>ps_zombies := filter (\<lambda>z. fst z \<noteq> p) (ps_zombies s)\<rparr>)
      | None \<Rightarrow> if kid_alive p s then None else Some (None, s))"

text \<open>\<^verbatim>\<open>waitpid(-1, ...)\<close>: takes any child that has exited, here the one at \<open>j\<close>; fails when there is no child.\<close>

definition sys_wait_any :: "nat \<Rightarrow> procs \<Rightarrow> ((nat \<times> u32) option \<times> procs) option" where
  "sys_wait_any j s =
     (if j < length (ps_zombies s)
      then Some (Some (ps_zombies s ! j), s\<lparr>ps_zombies := take j (ps_zombies s) @ drop (Suc j) (ps_zombies s)\<rparr>)
      else if ps_zombies s = [] \<and> list_all (\<lambda>k. kid_root k \<noteq> kid_pid k) (ps_kids s) then Some (None, s)
      else None)"

section \<open>The descriptors of a handler\<close>

text \<open>
  A handler with its connection \<open>c\<close> on the descriptor \<open>fd\<close>. \<open>T_New\<close> is before, \<open>T_Source\<close> after
  the source file is opened, which is then closed again. \<open>T_Open\<close> counts how many of the two blocks of
  \<^verbatim>\<open>compile_and_stream\<close> are done; the others are the steps within a block, with the pipe \<open>q\<close> on the
  descriptors \<open>p0\<close> and \<open>p1\<close> and what \<^verbatim>\<open>fork\<close> returned: the child, or \<open>None\<close> for \<open>-1\<close>. \<open>T_Reaped\<close> has what \<^verbatim>\<open>waitpid\<close> returned: the child waited for and its status,
  or \<open>None\<close> when it failed and the status is undefined.
\<close>

datatype task_fds =
    T_New nat nat
  | T_Source nat nat nat
  | T_Open nat nat nat
  | T_Piped nat nat nat nat nat nat
  | T_Forked nat nat nat nat nat nat "nat option"
  | T_Reading nat nat nat nat nat "nat option"
  | T_Waiting nat nat nat nat nat "nat option"
  | T_Reaped nat nat nat nat nat "nat option" "(nat \<times> u32) option"
  | T_Closed

text \<open>
  How the next call of a handler turns out: it succeeds, it fails, or the handler leaves: the loop after
  a failed read, the connection when it has nothing more to do for its client. \<open>Take j\<close> is a
  successful \<^verbatim>\<open>waitpid(-1, ...)\<close>. \<open>Stray a b\<close> is a failure of the second \<^verbatim>\<open>pipe\<close>, which the code does
  not look at: its array keeps the undefined values \<open>a\<close> and \<open>b\<close>.
\<close>

datatype outcome = Next | Fail | Leave | Take nat | Stray nat nat

definition wait_step :: "outcome \<Rightarrow> nat option \<Rightarrow> procs \<Rightarrow> ((nat \<times> u32) option \<times> procs) option" where
  "wait_step out pid s =
     (case (out, pid) of
        (Next, Some p) \<Rightarrow> sys_waitpid p s
      | (Take j, None) \<Rightarrow> sys_wait_any j s
      | _ \<Rightarrow> None)"

text \<open>
  One step; \<open>None\<close> when the call blocks. Neither result of \<^verbatim>\<open>fork\<close> is looked at: after a failure the
  handler reads, and kills and waits for the process \<open>-1\<close>. After a failure of the second \<^verbatim>\<open>pipe\<close> it forks,
  reads and closes whatever the undefined values happen to be descriptors of.
\<close>

fun task_step :: "outcome \<Rightarrow> task_fds \<Rightarrow> procs \<Rightarrow> (task_fds \<times> procs) option" where
  "task_step out (T_New c fd) s =
     (case out of
        Next \<Rightarrow>
          (let (sf, t) = fd_open (Source c) (ps_table s) in Some (T_Source c fd sf, s\<lparr>ps_table := t\<rparr>))
      | Fail \<Rightarrow> Some (T_Open c fd 2, s)
      | Leave \<Rightarrow> Some (T_Closed, s\<lparr>ps_table := fd_close fd (ps_table s)\<rparr>)
      | _ \<Rightarrow> None)"
| "task_step out (T_Source c fd sf) s =
     (case out of Next \<Rightarrow> Some (T_Open c fd 0, s\<lparr>ps_table := fd_close sf (ps_table s)\<rparr>) | _ \<Rightarrow> None)"
| "task_step out (T_Open c fd n) s =
     (case out of
        Next \<Rightarrow>
          if n < 2
          then (let (p0, p1, t) = sys_pipe (ps_pipes s) (ps_table s) in
                Some (T_Piped c fd n (ps_pipes s) p0 p1, s\<lparr>ps_table := t, ps_pipes := Suc (ps_pipes s)\<rparr>))
          else None
      | Fail \<Rightarrow> if n = 0 then Some (T_Open c fd 1, s) else None
      | Leave \<Rightarrow> if 0 < n then Some (T_Closed, s\<lparr>ps_table := fd_close fd (ps_table s)\<rparr>) else None
      | Stray p0 p1 \<Rightarrow>
          if n = 1 then Some (T_Piped c fd n (ps_pipes s) p0 p1, s\<lparr>ps_pipes := Suc (ps_pipes s)\<rparr>) else None
      | Take j \<Rightarrow> None)"
| "task_step out (T_Piped c fd n q p0 p1) s =
     (case out of
        Next \<Rightarrow>
          Some (T_Forked c fd n q p0 p1 (Some (ps_pids s)),
            s\<lparr>ps_kids := \<lparr>kid_pid = ps_pids s, kid_root = ps_pids s, kid_phase = Forked_At p0 p1, kid_table = ps_table s\<rparr>
                # ps_kids s,
              ps_pids := Suc (ps_pids s)\<rparr>)
      | Fail \<Rightarrow> Some (T_Forked c fd n q p0 p1 None, s)
      | _ \<Rightarrow> None)"
| "task_step out (T_Forked c fd n q p0 p1 pid) s =
     (case out of Next \<Rightarrow> Some (T_Reading c fd n q p0 pid, s\<lparr>ps_table := fd_close p1 (ps_table s)\<rparr>) | _ \<Rightarrow> None)"
| "task_step out (T_Reading c fd n q p0 pid) s =
     (case out of
        Next \<Rightarrow> if at_eof p0 s then Some (T_Waiting c fd n q p0 pid, s) else None
      | Fail \<Rightarrow> Some (T_Waiting c fd n q p0 pid, sys_kill pid s)
      | Leave \<Rightarrow> Some (T_Waiting c fd n q p0 pid, s)
      | _ \<Rightarrow> None)"
| "task_step out (T_Waiting c fd n q p0 pid) s =
     map_option (\<lambda>(w, s'). (T_Reaped c fd n q p0 pid w, s')) (wait_step out pid s)"
| "task_step out (T_Reaped c fd n q p0 pid w) s =
     (case out of Next \<Rightarrow> Some (T_Open c fd (Suc n), s\<lparr>ps_table := fd_close p0 (ps_table s)\<rparr>) | _ \<Rightarrow> None)"
| "task_step out T_Closed s = None"

lemma wait_step_same:
  "wait_step out pid s = Some (w, s') \<Longrightarrow> ps_table s' = ps_table s \<and> ps_kids s' = ps_kids s \<and>
     ps_pipes s' = ps_pipes s \<and> ps_pids s' = ps_pids s"
  by (auto simp: wait_step_def sys_waitpid_def sys_wait_any_def split: outcome.splits option.splits if_splits)

lemma sys_kill_same [simp]:
  "ps_table (sys_kill pid s) = ps_table s" "ps_pipes (sys_kill pid s) = ps_pipes s" "ps_pids (sys_kill pid s) = ps_pids s"
  by (simp_all add: sys_kill_def kid_gone_def all_gone_def split: option.split)

lemma sys_kill_kids: "set (ps_kids (sys_kill pid s)) \<subseteq> set (ps_kids s)"
  by (auto simp: sys_kill_def kid_gone_def all_gone_def split: option.split)

section \<open>All processes together\<close>

record psys =
  py_procs :: procs
  py_tasks :: "task_fds list"
  py_orphans :: "(nat \<times> fobj) list"
  py_conns :: nat
  py_accepting :: bool

definition psys_start :: "fd_table \<Rightarrow> psys" where
  "psys_start t =
     \<lparr>py_procs = \<lparr>ps_table = t, ps_kids = [], ps_pipes = 0, ps_pids = 0, ps_zombies = []\<rparr>, py_tasks = [],
      py_orphans = [], py_conns = 0, py_accepting = True\<rparr>"

text \<open>
  One round of the accept loop, as in \<open>accept_iteration\<close>: with the counters \<open>load\<close> that it finds, the
  connection is closed at once because of the limit, gets a handler, or stays open without one when no
  thread can be created; an error ends the loop. The counters are \<open>Handlers\<close>' business, here any will do.
\<close>

definition psys_accept :: "load_state \<Rightarrow> accept_event \<Rightarrow> psys \<Rightarrow> psys" where
  "psys_accept load ev y =
     (if \<not> py_accepting y then y
      else case ev of
        Acc_Eintr \<Rightarrow> y
      | Acc_Err \<Rightarrow> y\<lparr>py_accepting := False\<rparr>
      | Acc_Conn a threaded \<Rightarrow>
          let c = py_conns y; (fd, t) = fd_open (Socket c) (ps_table (py_procs y));
              opened = y\<lparr>py_procs := (py_procs y)\<lparr>ps_table := t\<rparr>, py_conns := Suc c\<rparr> in
          if MAX_CONCURRENT_TASKS \<le> unat (load_get_active_tasks load)
          then opened\<lparr>py_procs := (py_procs y)\<lparr>ps_table := fd_close fd t\<rparr>\<rparr>
          else if threaded then opened\<lparr>py_tasks := py_tasks y @ [T_New c fd]\<rparr>
          else opened\<lparr>py_orphans := (fd, Socket c) # py_orphans y\<rparr>)"

definition psys_put :: "nat \<Rightarrow> task_fds \<Rightarrow> procs \<Rightarrow> psys \<Rightarrow> psys" where
  "psys_put i h s y = y\<lparr>py_procs := s, py_tasks := (py_tasks y)[i := h]\<rparr>"

definition on_procs :: "(procs \<Rightarrow> procs) \<Rightarrow> psys \<Rightarrow> psys" where
  "on_procs f y = y\<lparr>py_procs := f (py_procs y)\<rparr>"

definition kid_at :: "nat \<Rightarrow> (kid \<Rightarrow> kid) \<Rightarrow> procs \<Rightarrow> procs" where
  "kid_at j f s = s\<lparr>ps_kids := (ps_kids s)[j := f (ps_kids s ! j)]\<rparr>"

definition kid_forks :: "nat \<Rightarrow> procs \<Rightarrow> procs" where
  "kid_forks j s =
     s\<lparr>ps_kids := (ps_kids s ! j)\<lparr>kid_pid := ps_pids s, kid_phase := Started\<rparr> # ps_kids s, ps_pids := Suc (ps_pids s)\<rparr>"

text \<open>
  What the children do: execute their program, exit, and as programs close descriptors and start
  processes of their own.
\<close>

inductive sched_step :: "(task_fds list \<Rightarrow> nat \<Rightarrow> outcome \<Rightarrow> bool) \<Rightarrow> psys \<Rightarrow> psys \<Rightarrow> bool" for allowed where
  P_Accept: "sched_step allowed y (psys_accept load ev y)"
| P_Act: "sched_step allowed y (psys_put i h s y)"
    if "i < length (py_tasks y)" "task_step out (py_tasks y ! i) (py_procs y) = Some (h, s)"
      "allowed (py_tasks y) i out"
| P_Exec: "sched_step allowed y (on_procs (kid_at j kid_exec) y)" if "j < length (ps_kids (py_procs y))"
| P_Exit: "sched_step allowed y (on_procs (kid_gone pid st) y)"
| P_Close: "sched_step allowed y (on_procs (kid_at j (kid_table_update (fd_close fd))) y)"
    if "j < length (ps_kids (py_procs y))" "kid_phase (ps_kids (py_procs y) ! j) = Started"
| P_Fork: "sched_step allowed y (on_procs (kid_forks j) y)"
    if "j < length (ps_kids (py_procs y))" "kid_phase (ps_kids (py_procs y) ! j) = Started"

inductive_cases sched_stepE: "sched_step allowed y y'"

text \<open>All schedules, those in which the second \<^verbatim>\<open>pipe\<close> never fails, of these the ones in which no handler
  forks while another one has the end of its pipe to which its child writes open in the worker, and the
  schedules in which no \<^verbatim>\<open>fork\<close> fails.\<close>

fun forks :: "task_fds \<Rightarrow> bool" where
  "forks (T_Piped c fd n q p0 p1) = True"
| "forks h = False"

fun write_open :: "task_fds \<Rightarrow> bool" where
  "write_open (T_Piped c fd n q p0 p1) = True"
| "write_open (T_Forked c fd n q p0 p1 pid) = True"
| "write_open h = False"

definition pipes_work :: "task_fds list \<Rightarrow> nat \<Rightarrow> outcome \<Rightarrow> bool" where
  "pipes_work ts i out \<longleftrightarrow> (case out of Stray a b \<Rightarrow> False | _ \<Rightarrow> True)"

definition quiet :: "task_fds list \<Rightarrow> nat \<Rightarrow> outcome \<Rightarrow> bool" where
  "quiet ts i out \<longleftrightarrow> pipes_work ts i out \<and>
     (forks (ts ! i) \<longrightarrow> (\<forall>j < length ts. j \<noteq> i \<longrightarrow> \<not> write_open (ts ! j)))"

definition forks_work :: "task_fds list \<Rightarrow> nat \<Rightarrow> outcome \<Rightarrow> bool" where
  "forks_work ts i out \<longleftrightarrow> (forks (ts ! i) \<longrightarrow> out = Next)"

abbreviation psys_step :: "psys \<Rightarrow> psys \<Rightarrow> bool" where
  "psys_step \<equiv> sched_step (\<lambda>ts i out. True)"

abbreviation piped_step :: "psys \<Rightarrow> psys \<Rightarrow> bool" where
  "piped_step \<equiv> sched_step pipes_work"

abbreviation sane_step :: "psys \<Rightarrow> psys \<Rightarrow> bool" where
  "sane_step \<equiv> sched_step (\<lambda>ts i out. pipes_work ts i out \<and> forks_work ts i out)"

abbreviation quiet_step :: "psys \<Rightarrow> psys \<Rightarrow> bool" where
  "quiet_step \<equiv> sched_step quiet"

abbreviation forked_step :: "psys \<Rightarrow> psys \<Rightarrow> bool" where
  "forked_step \<equiv> sched_step forks_work"

lemma sched_is_psys: "sched_step allowed y y' \<Longrightarrow> psys_step y y'"
  by (erule sched_stepE) (auto intro: sched_step.intros)

lemma sched_mono:
  assumes "sched_step allowed y y'" "\<And>ts i out. allowed ts i out \<Longrightarrow> wider ts i out"
  shows "sched_step wider y y'"
  using assms(1) by (rule sched_stepE) (auto intro: sched_step.intros assms(2))

lemma quiet_is_piped: "quiet_step y y' \<Longrightarrow> piped_step y y'"
  by (erule sched_mono) (simp add: quiet_def)

interpretation sched: restricts "sched_step allowed" psys_step for allowed
  by unfold_locales (rule sched_is_psys)

interpretation quiet: restricts quiet_step piped_step
  by unfold_locales (rule quiet_is_piped)

interpretation sane_is_piped: restricts sane_step piped_step
  by unfold_locales (erule sched_mono, simp)

interpretation sane_is_forked: restricts sane_step forked_step
  by unfold_locales (erule sched_mono, simp)

text \<open>What a round of the accept loop leaves alone.\<close>

lemma accept_procs [simp]:
  "ps_kids (py_procs (psys_accept load ev y)) = ps_kids (py_procs y)"
  "ps_pipes (py_procs (psys_accept load ev y)) = ps_pipes (py_procs y)"
  "ps_pids (py_procs (psys_accept load ev y)) = ps_pids (py_procs y)"
  "ps_zombies (py_procs (psys_accept load ev y)) = ps_zombies (py_procs y)"
  by (simp_all add: psys_accept_def Let_def split_beta split: accept_event.split)

lemma accept_tasks:
  "py_tasks (psys_accept load ev y) = py_tasks y \<or> (\<exists>c fd. py_tasks (psys_accept load ev y) = py_tasks y @ [T_New c fd])"
  by (auto simp: psys_accept_def Let_def split_beta split: accept_event.split)

section \<open>What the worker has open\<close>

fun owned :: "task_fds \<Rightarrow> (nat \<times> fobj) list" where
  "owned (T_New c fd) = [(fd, Socket c)]"
| "owned (T_Source c fd sf) = [(fd, Socket c), (sf, Source c)]"
| "owned (T_Open c fd n) = [(fd, Socket c)]"
| "owned (T_Piped c fd n q p0 p1) = [(fd, Socket c), (p0, Pipe_Read q), (p1, Pipe_Write q)]"
| "owned (T_Forked c fd n q p0 p1 pid) = [(fd, Socket c), (p0, Pipe_Read q), (p1, Pipe_Write q)]"
| "owned (T_Reading c fd n q p0 pid) = [(fd, Socket c), (p0, Pipe_Read q)]"
| "owned (T_Waiting c fd n q p0 pid) = [(fd, Socket c), (p0, Pipe_Read q)]"
| "owned (T_Reaped c fd n q p0 pid w) = [(fd, Socket c), (p0, Pipe_Read q)]"
| "owned T_Closed = []"

text \<open>A table without a number twice, and with these entries.\<close>

definition table_of :: "fd_table \<Rightarrow> (nat \<times> fobj) multiset \<Rightarrow> bool" where
  "table_of t M \<longleftrightarrow> distinct (map fst t) \<and> mset t = M"

lemma table_of_open: "table_of t M \<Longrightarrow> fd_open x t = (fd, t') \<Longrightarrow> table_of t' (add_mset (fd, x) M)"
  using fresh_fd_notin [of "map fst t"] by (auto simp: table_of_def fd_open_def Let_def)

lemma table_of_pipe:
  "table_of t M \<Longrightarrow> sys_pipe q t = (p0, p1, t') \<Longrightarrow> table_of t' (add_mset (p0, Pipe_Read q) (add_mset (p1, Pipe_Write q) M))"
  using fresh_fd_notin [of "map fst t"] fresh_fd_notin [of "fresh_fd (map fst t) # map fst t"]
  by (auto simp: table_of_def sys_pipe_def fd_open_def Let_def add_mset_commute)

lemma table_of_close:
  assumes "table_of t (add_mset (fd, x) M)"
  shows "table_of (fd_close fd t) M"
proof -
  have "(fd, x) \<in> set t" using assms by (metis table_of_def union_single_eq_member set_mset_mset)
  then obtain a b where t: "t = a @ (fd, x) # b" by (meson split_list)
  then have "fd \<notin> fst ` set a" "fd \<notin> fst ` set b" using assms by (auto simp: table_of_def)
  then have "filter (\<lambda>(f, _). f \<noteq> fd) a = a" "filter (\<lambda>(f, _). f \<noteq> fd) b = b" by (force simp: filter_id_conv)+
  then have "fd_close fd t = a @ b" by (simp add: t fd_close_def)
  then show ?thesis using assms t by (simp add: table_of_def)
qed

lemma table_of_mem: "table_of t M \<Longrightarrow> (fd, x) \<in># M \<Longrightarrow> map_of t fd = Some x"
  by (auto simp: table_of_def)

lemma table_of_snd: "table_of t M \<Longrightarrow> snd ` set t = snd ` set_mset M"
  by (auto simp: table_of_def)

lemma task_step_table:
  assumes "task_step out h s = Some (h', s')" "table_of (ps_table s) (mset (owned h) + M)" "pipes_work ts i out"
  shows "table_of (ps_table s') (mset (owned h') + M)"
proof (cases h)
  case (T_New c fd)
  then show ?thesis using assms(1,2)
    by (cases out) (auto simp: add_mset_commute intro: table_of_close split: prod.splits dest: table_of_open)
next
  case (T_Source c fd sf)
  have e: "add_mset (sf, Source c) (add_mset (fd, Socket c) M) = add_mset (fd, Socket c) (add_mset (sf, Source c) M)"
    by (rule add_mset_commute)
  show ?thesis using T_Source assms(1,2) table_of_close [of "ps_table s" sf "Source c" "add_mset (fd, Socket c) M", unfolded e]
    by (cases out) auto
next
  case (T_Open c fd n)
  then show ?thesis using assms
    by (cases out) (auto simp: add_mset_commute pipes_work_def intro: table_of_close split: if_splits prod.splits dest: table_of_pipe)
next
  case (T_Forked c fd n q p0 p1 pid)
  have e: "add_mset (p1, Pipe_Write q) (add_mset (fd, Socket c) (add_mset (p0, Pipe_Read q) M)) =
      add_mset (fd, Socket c) (add_mset (p0, Pipe_Read q) (add_mset (p1, Pipe_Write q) M))" by (simp add: add_mset_commute)
  show ?thesis using T_Forked assms 
      table_of_close [of "ps_table s" p1 "Pipe_Write q" "add_mset (fd, Socket c) (add_mset (p0, Pipe_Read q) M)", unfolded e]
    by (cases out) auto
next
  case (T_Reaped c fd n q p0)
  have e: "add_mset (p0, Pipe_Read q) (add_mset (fd, Socket c) M) = add_mset (fd, Socket c) (add_mset (p0, Pipe_Read q) M)"
    by (rule add_mset_commute)
  show ?thesis using T_Reaped assms
      table_of_close [of "ps_table s" p0 "Pipe_Read q" "add_mset (fd, Socket c) M", unfolded e]
    by (cases out) auto
qed (use assms in \<open>cases out; auto split: if_splits dest: wait_step_same\<close>)+

definition all_owned :: "task_fds list \<Rightarrow> (nat \<times> fobj) multiset" where
  "all_owned ts = (\<Sum>h \<in># mset ts. mset (owned h))"

lemma all_owned_update:
  assumes "i < length ts"
  obtains M where "all_owned ts = mset (owned (ts ! i)) + M" "\<And>h. all_owned (ts[i := h]) = mset (owned h) + M"
proof -
  obtain R where R: "mset ts = add_mset (ts ! i) R" using assms by (metis nth_mem_mset mset_add)
  then have "mset (ts[i := h]) = add_mset h R" for h using assms by (simp add: mset_update)
  with R show ?thesis by (intro that [of "\<Sum>h \<in># R. mset (owned h)"]) (simp_all add: all_owned_def)
qed

definition fds_inv :: "fd_table \<Rightarrow> psys \<Rightarrow> bool" where
  "fds_inv t0 y \<longleftrightarrow> table_of (ps_table (py_procs y)) (mset t0 + all_owned (py_tasks y) + mset (py_orphans y)) \<and>
     (\<forall>(fd, x) \<in> set (py_orphans y). \<exists>c. x = Socket c)"

lemma psys_simps [simp]:
  "py_procs (psys_put i h s y) = s" "py_tasks (psys_put i h s y) = (py_tasks y)[i := h]"
  "py_procs (on_procs f y) = f (py_procs y)" "py_tasks (on_procs f y) = py_tasks y"
  "py_orphans (psys_put i h s y) = py_orphans y" "py_orphans (on_procs f y) = py_orphans y"
  by (simp_all add: psys_put_def on_procs_def)

lemma kid_simps [simp]:
  "ps_table (kid_at j f s) = ps_table s" "ps_table (kid_gone pid st s) = ps_table s" "ps_table (kid_forks j s) = ps_table s"
  by (simp_all add: kid_at_def kid_gone_def kid_forks_def)

lemma all_owned_snoc: "all_owned (ts @ [h]) = all_owned ts + mset (owned h)"
  by (simp add: all_owned_def)

lemma fds_inv_accept:
  assumes "fds_inv t0 y"
  shows "fds_inv t0 (psys_accept load ev y)"
proof -
  obtain fd t where o: "fd_open (Socket (py_conns y)) (ps_table (py_procs y)) = (fd, t)" by fastforce
  have tab: "table_of (ps_table (py_procs y)) (mset t0 + all_owned (py_tasks y) + mset (py_orphans y))"
    and orph: "\<forall>(fd, x) \<in> set (py_orphans y). \<exists>c. x = Socket c" using assms by (simp_all add: fds_inv_def)
  from table_of_open [OF tab o] have new: "table_of t (add_mset (fd, Socket (py_conns y))
      (mset t0 + all_owned (py_tasks y) + mset (py_orphans y)))" .
  note shut = table_of_close [OF new]
  show ?thesis using tab orph new shut
    by (cases ev) (auto simp: fds_inv_def psys_accept_def Let_def o all_owned_snoc)
qed

lemma fds_inv_step: "piped_step y y' \<Longrightarrow> fds_inv t0 y \<Longrightarrow> fds_inv t0 y'"
proof (erule sched_stepE)
  fix load ev assume "y' = psys_accept load ev y" "fds_inv t0 y"
  then show "fds_inv t0 y'" by (simp add: fds_inv_accept)
next
  fix i out h s
  assume y': "y' = psys_put i h s y" and i: "i < length (py_tasks y)"
    and st: "task_step out (py_tasks y ! i) (py_procs y) = Some (h, s)" and inv: "fds_inv t0 y"
    and out: "pipes_work (py_tasks y) i out"
  from all_owned_update [OF i] obtain M where M: "all_owned (py_tasks y) = mset (owned (py_tasks y ! i)) + M"
    "\<And>h. all_owned ((py_tasks y)[i := h]) = mset (owned h) + M" by blast
  have "table_of (ps_table (py_procs y)) (mset (owned (py_tasks y ! i)) + (mset t0 + M + mset (py_orphans y)))"
    using inv by (simp add: fds_inv_def M algebra_simps)
  from task_step_table [OF st this out] inv show "fds_inv t0 y'" by (simp add: fds_inv_def y' M algebra_simps)
qed (simp_all add: fds_inv_def)

interpretation fds_kept: kept piped_step "fds_inv t0" for t0
  by unfold_locales (rule fds_inv_step)

lemma fds_inv_start: "distinct (map fst t0) \<Longrightarrow> fds_inv t0 (psys_start t0)"
  by (simp add: fds_inv_def psys_start_def table_of_def all_owned_def)

section \<open>What a child has open\<close>

lemma map_of_close: "map_of (fd_close fd t) f = (if f = fd then None else map_of t f)"
  by (induction t) (auto simp: fd_close_def)

lemma map_of_dup2: "map_of t a = Some x \<Longrightarrow> map_of (sys_dup2 a b t) f = (if f = b then Some x else map_of t f)"
  by (auto simp: sys_dup2_def map_of_close)

lemma map_of_child:
  assumes "map_of t p1 = Some x" "p0 \<noteq> p1" "2 < p1"
  shows "map_of (child_table p0 p1 t) f = (if f = 1 \<or> f = 2 then Some x else if f = p0 \<or> f = p1 then None else map_of t f)"
  using assms by (auto simp: child_table_def map_of_close map_of_dup2)

definition holds :: "kid \<Rightarrow> fobj set" where
  "holds k = snd ` set (kid_table k)"

lemma close_objs: "snd ` set (fd_close fd t) \<subseteq> snd ` set t"
  by (auto simp: fd_close_def)

lemma dup2_objs: "snd ` set (sys_dup2 a b t) \<subseteq> snd ` set t"
proof (cases "map_of t a")
  case (Some x)
  then have "x \<in> snd ` set t" by (metis map_of_SomeD snd_conv image_eqI)
  then show ?thesis using Some close_objs [of b t] by (auto simp: sys_dup2_def)
qed (simp add: sys_dup2_def)

lemma exec_objs: "holds (kid_exec k) \<subseteq> holds k"
proof -
  have "snd ` set (child_table p0 p1 t) \<subseteq> snd ` set t" for p0 p1 t
    unfolding child_table_def by (meson close_objs dup2_objs order_trans)
  then show ?thesis by (auto simp: kid_exec_def holds_def split: kid_phase.split)
qed

lemma exec_same [simp]: "kid_root (kid_exec k) = kid_root k" "kid_pid (kid_exec k) = kid_pid k"
  by (simp_all add: kid_exec_def split: kid_phase.split)

text \<open>Pipes have one user and are numbered in the order in which they are made; children too.\<close>

fun task_pipe :: "task_fds \<Rightarrow> nat list" where
  "task_pipe (T_Piped c fd n q p0 p1) = [q]"
| "task_pipe (T_Forked c fd n q p0 p1 pid) = [q]"
| "task_pipe (T_Reading c fd n q p0 pid) = [q]"
| "task_pipe (T_Waiting c fd n q p0 pid) = [q]"
| "task_pipe (T_Reaped c fd n q p0 pid w) = [q]"
| "task_pipe h = []"

fun pids_of :: "nat option \<Rightarrow> nat list" where
  "pids_of (Some p) = [p]"
| "pids_of None = []"

lemma pids_of_mem [simp]: "x \<in> set (pids_of pid) \<longleftrightarrow> pid = Some x"
  by (cases pid) auto

fun task_pid :: "task_fds \<Rightarrow> nat list" where
  "task_pid (T_Forked c fd n q p0 p1 pid) = pids_of pid"
| "task_pid (T_Reading c fd n q p0 pid) = pids_of pid"
| "task_pid (T_Waiting c fd n q p0 pid) = pids_of pid"
| "task_pid h = []"

definition only_other :: "fd_table \<Rightarrow> bool" where
  "only_other t \<longleftrightarrow> (\<forall>x \<in> snd ` set t. \<exists>n. x = Other n)"

definition ids_inv :: "psys \<Rightarrow> bool" where
  "ids_inv y \<longleftrightarrow>
     (\<forall>i < length (py_tasks y). \<forall>q \<in> set (task_pipe (py_tasks y ! i)). q < ps_pipes (py_procs y)) \<and>
     (\<forall>i < length (py_tasks y). \<forall>j < length (py_tasks y). i \<noteq> j \<longrightarrow>
        set (task_pipe (py_tasks y ! i)) \<inter> set (task_pipe (py_tasks y ! j)) = {}) \<and>
     (\<forall>i < length (py_tasks y). \<forall>pid \<in> set (task_pid (py_tasks y ! i)). pid < ps_pids (py_procs y)) \<and>
     (\<forall>k \<in> set (ps_kids (py_procs y)). kid_pid k < ps_pids (py_procs y))"

text \<open>What one step of a handler does to these numbers.\<close>

lemma task_step_pipe:
  assumes "task_step out h s = Some (h', s')"
  shows "(set (task_pipe h') \<subseteq> set (task_pipe h) \<and> ps_pipes s' = ps_pipes s) \<or>
    (task_pipe h' = [ps_pipes s] \<and> ps_pipes s' = Suc (ps_pipes s))"
  using assms by (cases h; cases out; auto split: if_splits prod.splits dest: wait_step_same sys_kill_kids [THEN subsetD])

lemma task_step_kids:
  assumes "task_step out h s = Some (h', s')"
  shows "(set (task_pid h') \<subseteq> set (task_pid h) \<and> ps_pids s' = ps_pids s \<and> set (ps_kids s') \<subseteq> set (ps_kids s)) \<or>
    (\<exists>c fd n q p0 p1. h = T_Piped c fd n q p0 p1 \<and> task_pid h' = [ps_pids s] \<and> ps_pids s' = Suc (ps_pids s) \<and>
       ps_kids s' = \<lparr>kid_pid = ps_pids s, kid_root = ps_pids s, kid_phase = Forked_At p0 p1, kid_table = ps_table s\<rparr> # ps_kids s)"
  using assms by (cases h; cases out; auto split: if_splits prod.splits dest: wait_step_same sys_kill_kids [THEN subsetD])

lemma nth_update_mem: "i < length ts \<Longrightarrow> j < length (ts[i := h]) \<Longrightarrow> ts[i := h] ! j = (if j = i then h else ts ! j)"
  by simp

lemma ids_inv_act:
  assumes "ids_inv y" "i < length (py_tasks y)" "task_step out (py_tasks y ! i) (py_procs y) = Some (h, s)"
  shows "ids_inv (psys_put i h s y)"
proof -
  let ?ts = "py_tasks y" and ?s = "py_procs y"
  have inv: "\<And>j q. j < length ?ts \<Longrightarrow> q \<in> set (task_pipe (?ts ! j)) \<Longrightarrow> q < ps_pipes ?s"
    "\<And>j k. j < length ?ts \<Longrightarrow> k < length ?ts \<Longrightarrow> j \<noteq> k \<Longrightarrow> set (task_pipe (?ts ! j)) \<inter> set (task_pipe (?ts ! k)) = {}"
    "\<And>j pid. j < length ?ts \<Longrightarrow> pid \<in> set (task_pid (?ts ! j)) \<Longrightarrow> pid < ps_pids ?s"
    "\<And>k. k \<in> set (ps_kids ?s) \<Longrightarrow> kid_pid k < ps_pids ?s"
    using assms(1) unfolding ids_inv_def by blast+
  have pipes: "\<forall>q \<in> set (task_pipe h). q < ps_pipes s" "ps_pipes ?s \<le> ps_pipes s"
    "j < length ?ts \<Longrightarrow> j \<noteq> i \<Longrightarrow> set (task_pipe (?ts ! j)) \<inter> set (task_pipe h) = {}" for j
    using task_step_pipe [OF assms(3)] inv(1) inv(2) [OF _ assms(2)] assms(2) by fastforce+
  have pids: "\<forall>pid \<in> set (task_pid h). pid < ps_pids s" "ps_pids ?s \<le> ps_pids s"
    "\<forall>k \<in> set (ps_kids s). kid_pid k < ps_pids s"
    using task_step_kids [OF assms(3)] inv(3) [OF assms(2)] inv(4) by (fastforce intro: less_SucI)+
  have "q < ps_pipes s" if "j < length ?ts" "q \<in> set (task_pipe (?ts[i := h] ! j))" for j q
    using that pipes(1,2) inv(1) [of j q] by (cases "j = i") auto
  moreover have "set (task_pipe (?ts[i := h] ! j)) \<inter> set (task_pipe (?ts[i := h] ! k)) = {}"
    if "j < length ?ts" "k < length ?ts" "j \<noteq> k" for j k
    using that inv(2) [of j k] pipes(3) [of j] pipes(3) [of k] by (cases "j = i"; cases "k = i") (auto simp: Int_commute)
  moreover have "pid < ps_pids s" if "j < length ?ts" "pid \<in> set (task_pid (?ts[i := h] ! j))" for j pid
    using that pids(1,2) inv(3) [of j pid] by (cases "j = i") auto
  ultimately show ?thesis using pids(3) unfolding ids_inv_def psys_simps length_list_update by blast
qed

lemma kid_at_mem:
  assumes "k \<in> set (ps_kids (kid_at j f s))" "j < length (ps_kids s)"
  obtains k0 where "k0 \<in> set (ps_kids s)" "k = k0 \<or> k = f k0"
proof -
  have "k \<in> insert (f (ps_kids s ! j)) (set (ps_kids s))"
    using assms(1) set_update_subset_insert by (fastforce simp: kid_at_def)
  then show ?thesis using that assms(2) by (metis insertE nth_mem)
qed

lemma ids_inv_step: "psys_step y y' \<Longrightarrow> ids_inv y \<Longrightarrow> ids_inv y'"
proof (erule sched_stepE)
  fix load ev assume y': "y' = psys_accept load ev y" and inv: "ids_inv y"
  show "ids_inv y'" using accept_tasks [of load ev y]
  proof
    assume "py_tasks (psys_accept load ev y) = py_tasks y"
    then show ?thesis using inv by (simp add: ids_inv_def y')
  next
    assume "\<exists>c fd. py_tasks (psys_accept load ev y) = py_tasks y @ [T_New c fd]"
    then obtain c fd where "py_tasks (psys_accept load ev y) = py_tasks y @ [T_New c fd]" by blast
    then show ?thesis using inv by (simp add: ids_inv_def y' nth_append)
  qed
next
  fix j assume "y' = on_procs (kid_at j kid_exec) y" "j < length (ps_kids (py_procs y))" "ids_inv y"
  then show "ids_inv y'" by (auto simp: ids_inv_def elim!: kid_at_mem) (simp_all add: kid_at_def)
next
  fix j fd assume "y' = on_procs (kid_at j (kid_table_update (fd_close fd))) y" "j < length (ps_kids (py_procs y))" "ids_inv y"
  then show "ids_inv y'" by (auto simp: ids_inv_def elim!: kid_at_mem) (simp_all add: kid_at_def)
next
  fix j assume "y' = on_procs (kid_forks j) y" "ids_inv y"
  then show "ids_inv y'" by (auto simp: ids_inv_def kid_forks_def less_Suc_eq)
next
  fix i out h s
  assume "y' = psys_put i h s y" "i < length (py_tasks y)" "ids_inv y"
    "task_step out (py_tasks y ! i) (py_procs y) = Some (h, s)"
  then show "ids_inv y'" by (simp only: ids_inv_act)
qed (simp add: ids_inv_def kid_gone_def)

section \<open>Schedules without a foreign fork\<close>

text \<open>A pipe is written only by the family of the child that was forked for it.\<close>

definition owns :: "kid \<Rightarrow> nat \<Rightarrow> nat option \<Rightarrow> bool" where
  "owns k q pid \<longleftrightarrow>
     (Pipe_Write q \<in> holds k \<longrightarrow> pid = Some (kid_root k)) \<and> (pid = Some (kid_pid k) \<longrightarrow> kid_root k = kid_pid k)"

fun own_writer :: "kid \<Rightarrow> task_fds \<Rightarrow> bool" where
  "own_writer k (T_Piped c fd n q p0 p1) = (Pipe_Write q \<notin> holds k)"
| "own_writer k (T_Forked c fd n q p0 p1 pid) = owns k q pid"
| "own_writer k (T_Reading c fd n q p0 pid) = owns k q pid"
| "own_writer k (T_Waiting c fd n q p0 pid) = (pid = Some (kid_pid k) \<longrightarrow> kid_root k = kid_pid k)"
| "own_writer k h = True"

definition family_inv :: "psys \<Rightarrow> bool" where
  "family_inv y \<longleftrightarrow> (\<forall>k \<in> set (ps_kids (py_procs y)).
     (\<forall>q. Pipe_Write q \<in> holds k \<longrightarrow> q < ps_pipes (py_procs y)) \<and> (\<forall>h \<in> set (py_tasks y). own_writer k h))"

lemma own_writer_step:
  assumes "task_step out h s = Some (h', s')" "\<forall>q. Pipe_Write q \<in> holds k \<longrightarrow> q < ps_pipes s" "kid_pid k < ps_pids s"
    and "own_writer k h"
  shows "own_writer k h'"
  using assms by (cases h; cases out; auto simp: owns_def split: if_splits prod.splits)

lemma own_writer_less:
  assumes "own_writer k h" "holds k' \<subseteq> holds k" "kid_root k' = kid_root k"
    and "kid_pid k' = kid_pid k \<or> kid_pid k' \<notin> set (task_pid h)"
  shows "own_writer k' h"
  using assms by (cases h) (auto simp: owns_def)

lemma owned_write: "(fd, Pipe_Write q) \<in> set (owned h) \<Longrightarrow> write_open h \<and> q \<in> set (task_pipe h)"
  by (cases h) auto

text \<open>Who has the writing end of a pipe open in the worker.\<close>

lemma table_write:
  assumes "fds_inv t0 y" "only_other t0" "Pipe_Write q \<in> snd ` set (ps_table (py_procs y))"
  obtains j where "j < length (py_tasks y)" "write_open (py_tasks y ! j)" "q \<in> set (task_pipe (py_tasks y ! j))"
proof -
  have "Pipe_Write q \<in> snd ` set_mset (mset t0 + all_owned (py_tasks y) + mset (py_orphans y))"
    using assms(1,3) table_of_snd unfolding fds_inv_def by blast
  moreover have "Pipe_Write q \<notin> snd ` set t0" using assms(2) by (auto simp: only_other_def)
  moreover have "Pipe_Write q \<notin> snd ` set (py_orphans y)" using assms(1) by (auto simp: fds_inv_def)
  ultimately obtain fd where "(fd, Pipe_Write q) \<in># all_owned (py_tasks y)" by (auto simp: image_iff)
  then obtain h where "h \<in> set (py_tasks y)" "(fd, Pipe_Write q) \<in> set (owned h)" by (auto simp: all_owned_def)
  then show ?thesis using owned_write that by (metis in_set_conv_nth)
qed

lemma family_kids:
  assumes "family_inv y"
    and "\<And>k'. k' \<in> set (ps_kids (f (py_procs y))) \<Longrightarrow> \<exists>k \<in> set (ps_kids (py_procs y)). holds k' \<subseteq> holds k \<and> kid_root k' = kid_root k \<and>
      (kid_pid k' = kid_pid k \<or> (\<forall>h \<in> set (py_tasks y). kid_pid k' \<notin> set (task_pid h)))"
    and "ps_pipes (f (py_procs y)) = ps_pipes (py_procs y)"
  shows "family_inv (on_procs f y)"
  unfolding family_inv_def psys_simps
proof (intro ballI conjI allI impI)
  fix k' assume "k' \<in> set (ps_kids (f (py_procs y)))"
  from assms(2) [OF this] obtain k where k: "k \<in> set (ps_kids (py_procs y))" "holds k' \<subseteq> holds k" "kid_root k' = kid_root k"
    "kid_pid k' = kid_pid k \<or> (\<forall>h \<in> set (py_tasks y). kid_pid k' \<notin> set (task_pid h))" by blast
  show "q < ps_pipes (f (py_procs y))" if "Pipe_Write q \<in> holds k'" for q
    using that k(1,2) assms(1,3) by (auto simp: family_inv_def)
  show "own_writer k' h" if "h \<in> set (py_tasks y)" for h
    using own_writer_less [of k h k'] that k assms(1) by (auto simp: family_inv_def)
qed

lemma close_holds: "holds (kid_table_update (fd_close fd) k) \<subseteq> holds k"
  using close_objs by (simp add: holds_def)

lemma family_act:
  assumes "family_inv y" "ids_inv y" "fds_inv t0 y" "only_other t0" "i < length (py_tasks y)"
    and "task_step out (py_tasks y ! i) (py_procs y) = Some (h, s)"
    and "forks (py_tasks y ! i) \<longrightarrow> (\<forall>j < length (py_tasks y). j \<noteq> i \<longrightarrow> \<not> write_open (py_tasks y ! j))"
  shows "family_inv (psys_put i h s y)"
proof -
  let ?ts = "py_tasks y" and ?s = "py_procs y"
  have old: "(\<forall>q. Pipe_Write q \<in> holds k \<longrightarrow> q < ps_pipes s) \<and> (\<forall>g \<in> set (?ts[i := h]). own_writer k g)"
    if "k \<in> set (ps_kids ?s)" for k
  proof -
    have k: "\<forall>q. Pipe_Write q \<in> holds k \<longrightarrow> q < ps_pipes ?s" "\<forall>g \<in> set ?ts. own_writer k g" "kid_pid k < ps_pids ?s"
      using assms(1,2) that by (auto simp: family_inv_def ids_inv_def)
    then have "own_writer k h" using own_writer_step [OF assms(6) k(1,3)] assms(5) by (metis nth_mem)
    moreover have "ps_pipes ?s \<le> ps_pipes s" using task_step_pipe [OF assms(6)] by auto
    ultimately show ?thesis using k set_update_subset_insert by (fastforce intro: less_le_trans)
  qed
  from task_step_kids [OF assms(6)] show ?thesis
  proof (elim disjE exE conjE)
    assume "set (ps_kids s) \<subseteq> set (ps_kids ?s)"
    then show ?thesis using old by (auto simp: family_inv_def)
  next
    fix c fd n q p0 p1
    let ?k = "\<lparr>kid_pid = ps_pids ?s, kid_root = ps_pids ?s, kid_phase = Forked_At p0 p1, kid_table = ps_table ?s\<rparr>"
    assume h: "?ts ! i = T_Piped c fd n q p0 p1" and kids: "ps_kids s = ?k # ps_kids ?s"
      and child: "task_pid h = [ps_pids ?s]"
    have hold: "r = q" if r: "Pipe_Write r \<in> holds ?k" for r
    proof -
      from r have "Pipe_Write r \<in> snd ` set (ps_table ?s)" by (simp add: holds_def)
      from table_write [OF assms(3,4) this] obtain j where "j < length ?ts" "write_open (?ts ! j)" "r \<in> set (task_pipe (?ts ! j))" .
      then show ?thesis using assms(7) h by (cases "j = i") auto
    qed
    have new: "h = T_Forked c fd n q p0 p1 (Some (ps_pids ?s))" "ps_pipes s = ps_pipes ?s"
      using assms(6) [unfolded h] child by (cases out; auto)+
    have "\<forall>r \<in> set (task_pipe (?ts ! i)). r < ps_pipes ?s" using assms(2,5) unfolding ids_inv_def by blast
    then have below: "q < ps_pipes ?s" by (simp add: h)
    have "own_writer ?k g" if g: "g \<in> set (?ts[i := h])" for g
    proof -
      obtain j where j: "j < length ?ts" "?ts[i := h] ! j = g" using g unfolding in_set_conv_nth by auto
      show ?thesis
      proof (cases "j = i")
        case True
        then show ?thesis using j new by (auto simp: owns_def simp flip: j(2))
      next
        case False
        have "set (task_pipe (?ts ! j)) \<inter> set (task_pipe (?ts ! i)) = {}"
          using assms(2,5) j(1) False unfolding ids_inv_def by blast
        then have "q \<notin> set (task_pipe (?ts ! j))" by (simp add: h)
        moreover have "ps_pids ?s \<notin> set (task_pid (?ts ! j))" using assms(2) j(1) by (auto simp: ids_inv_def)
        moreover have "\<not> write_open (?ts ! j)" using assms(7) h j(1) False by simp
        ultimately show ?thesis using hold j False by (cases "?ts ! j") (auto simp: owns_def)
      qed
    qed
    then show ?thesis using old hold new below by (auto simp: family_inv_def kids)
  qed
qed

lemma family_step: "quiet_step y y' \<Longrightarrow> family_inv y \<and> ids_inv y \<and> fds_inv t0 y \<Longrightarrow> only_other t0 \<Longrightarrow> family_inv y'"
proof (erule sched_stepE, goal_cases)
  case (1 load ev)
  then show ?case using accept_tasks [of load ev y] by (auto simp: family_inv_def)
next
  case (2 i out h s)
  then show ?case using family_act [of y t0 i out h s] by (simp add: quiet_def)
next
  case (3 j)
  have "\<exists>k \<in> set (ps_kids (py_procs y)). holds k' \<subseteq> holds k \<and> kid_root k' = kid_root k \<and> kid_pid k' = kid_pid k"
    if "k' \<in> set (ps_kids (kid_at j kid_exec (py_procs y)))" for k'
    using kid_at_mem [OF that 3(4)] exec_objs exec_same by (metis order_refl)
  then show ?case unfolding 3(3) using 3(1) by (intro family_kids) (blast, blast, simp add: kid_at_def)
next
  case (4 pid st)
  then show ?case by (auto simp: family_inv_def kid_gone_def)
next
  case (5 j fd)
  have "\<exists>k \<in> set (ps_kids (py_procs y)). holds k' \<subseteq> holds k \<and> kid_root k' = kid_root k \<and> kid_pid k' = kid_pid k"
    if "k' \<in> set (ps_kids (kid_at j (kid_table_update (fd_close fd)) (py_procs y)))" for k'
  proof -
    from kid_at_mem [OF that 5(4)] obtain k0 where "k0 \<in> set (ps_kids (py_procs y))"
      "k' = k0 \<or> k' = kid_table_update (fd_close fd) k0" .
    then show ?thesis using close_holds [of fd k0] by (intro bexI [of _ k0]) auto
  qed
  then show ?case unfolding 5(3) using 5(1) by (intro family_kids) (blast, blast, simp add: kid_at_def)
next
  case (6 j)
  let ?k = "ps_kids (py_procs y) ! j"
  have fresh: "ps_pids (py_procs y) \<notin> set (task_pid h)" if h: "h \<in> set (py_tasks y)" for h
  proof -
    obtain i where "i < length (py_tasks y)" "py_tasks y ! i = h" using h by (auto simp: in_set_conv_nth)
    then show ?thesis using 6(1) unfolding ids_inv_def by (metis less_irrefl)
  qed
  have "\<exists>k \<in> set (ps_kids (py_procs y)). holds k' \<subseteq> holds k \<and> kid_root k' = kid_root k \<and>
      (kid_pid k' = kid_pid k \<or> (\<forall>h \<in> set (py_tasks y). kid_pid k' \<notin> set (task_pid h)))"
    if "k' \<in> set (ps_kids (kid_forks j (py_procs y)))" for k'
  proof (cases "k' \<in> set (ps_kids (py_procs y))")
    case False
    then have "k' = ?k\<lparr>kid_pid := ps_pids (py_procs y), kid_phase := Started\<rparr>" using that by (simp add: kid_forks_def)
    then show ?thesis using 6(4) fresh by (intro bexI [of _ ?k]) (simp_all add: holds_def)
  qed blast
  then show ?case unfolding 6(3) using 6(1) by (intro family_kids) (blast, blast, simp add: kid_forks_def)
qed

interpretation family_kept: kept quiet_step "\<lambda>y. (family_inv y \<and> ids_inv y \<and> fds_inv t0 y) \<and> only_other t0" for t0
  by unfold_locales (blast intro: family_step ids_inv_step fds_inv_step sched_is_psys quiet_is_piped)

lemma all_inv_start: "distinct (map fst t0) \<Longrightarrow> family_inv (psys_start t0) \<and> ids_inv (psys_start t0) \<and> fds_inv t0 (psys_start t0)"
  by (simp add: family_inv_def ids_inv_def fds_inv_start) (simp add: psys_start_def)

interpretation ids_kept: kept psys_step ids_inv
  by unfold_locales (rule ids_inv_step)

section \<open>Entries of the worker's table\<close>

definition std_open :: "fd_table \<Rightarrow> bool" where
  "std_open t \<longleftrightarrow> {0, 1, 2} \<subseteq> fst ` set t"

lemma table_owned:
  assumes "fds_inv t0 y" "i < length (py_tasks y)" "(fd, x) \<in> set (owned (py_tasks y ! i))"
  shows "map_of (ps_table (py_procs y)) fd = Some x"
proof -
  have "(fd, x) \<in># all_owned (py_tasks y)" using assms(2,3) by (force simp: all_owned_def)
  then show ?thesis
    using table_of_mem [of "ps_table (py_procs y)" "mset t0 + all_owned (py_tasks y) + mset (py_orphans y)"] assms(1)
    by (simp add: fds_inv_def)
qed

lemma owned_pipe: "(fd, Pipe_Read q) \<in> set (owned h) \<or> (fd, Pipe_Write q) \<in> set (owned h) \<Longrightarrow> q \<in> set (task_pipe h)"
  by (cases h) auto

text \<open>Only the handler of a pipe has its ends open.\<close>

lemma table_pipe:
  assumes "fds_inv t0 y" "ids_inv y" "only_other t0" "i < length (py_tasks y)" "q \<in> set (task_pipe (py_tasks y ! i))"
    and "map_of (ps_table (py_procs y)) fd = Some x" "x = Pipe_Read q \<or> x = Pipe_Write q"
  shows "(fd, x) \<in> set (owned (py_tasks y ! i))"
proof -
  have "(fd, x) \<in># mset t0 + all_owned (py_tasks y) + mset (py_orphans y)"
    using assms(1,6) map_of_SomeD unfolding fds_inv_def table_of_def by (metis set_mset_mset)
  moreover have "(fd, x) \<notin> set t0" using assms(3,7) by (force simp: only_other_def)
  moreover have "(fd, x) \<notin> set (py_orphans y)" using assms(1,7) by (auto simp: fds_inv_def)
  ultimately obtain h where "h \<in> set (py_tasks y)" and own: "(fd, x) \<in> set (owned h)" by (auto simp: all_owned_def)
  then obtain j where j: "j < length (py_tasks y)" "py_tasks y ! j = h" by (auto simp: in_set_conv_nth)
  have "q \<in> set (task_pipe h)" using own assms(7) owned_pipe by blast
  then have "j = i" using assms(2,4,5) j unfolding ids_inv_def by blast
  then show ?thesis using own j by simp
qed

lemma table_std:
  assumes "fds_inv t0 y" "only_other t0" "std_open t0" "map_of (ps_table (py_procs y)) fd = Some x"
    and "\<And>n. x \<noteq> Other n"
  shows "2 < fd"
proof (rule ccontr)
  assume "\<not> 2 < fd"
  then have "fd \<in> {0, 1, 2}" by auto
  then obtain z where z: "(fd, z) \<in> set t0" using assms(3) by (auto simp: std_open_def)
  then have "(fd, z) \<in># mset t0 + all_owned (py_tasks y) + mset (py_orphans y)" by simp
  then have "map_of (ps_table (py_procs y)) fd = Some z" using assms(1) table_of_mem unfolding fds_inv_def by blast
  then show False using z assms(2,4,5) by (force simp: only_other_def)
qed

lemma wired:
  assumes "fds_inv t0 y" "ids_inv y" "only_other t0" "std_open t0" "i < length (py_tasks y)"
    and "py_tasks y ! i = T_Piped c fd n q p0 p1"
  shows "map_of (child_table p0 p1 (ps_table (py_procs y))) f =
    (if f = 1 \<or> f = 2 then Some (Pipe_Write q) else if f = p0 \<or> f = p1 then None else map_of (ps_table (py_procs y)) f)"
    "map_of (ps_table (py_procs y)) f = Some (Pipe_Read q) \<longleftrightarrow> f = p0"
    "map_of (ps_table (py_procs y)) f = Some (Pipe_Write q) \<longleftrightarrow> f = p1" "2 < p0" "2 < p1" "p0 \<noteq> p1"
proof -
  have m: "map_of (ps_table (py_procs y)) p0 = Some (Pipe_Read q)" "map_of (ps_table (py_procs y)) p1 = Some (Pipe_Write q)"
    using table_owned [OF assms(1,5)] assms(6) by simp_all
  then show r: "map_of (ps_table (py_procs y)) f = Some (Pipe_Read q) \<longleftrightarrow> f = p0"
    "map_of (ps_table (py_procs y)) f = Some (Pipe_Write q) \<longleftrightarrow> f = p1"
    using table_pipe [OF assms(1,2,3,5), of q f] assms(6) by auto
  show gt: "2 < p0" "2 < p1" using table_std [OF assms(1,3,4) m(1)] table_std [OF assms(1,3,4) m(2)] by simp_all
  show ne: "p0 \<noteq> p1" using m by auto
  show "map_of (child_table p0 p1 (ps_table (py_procs y))) f =
    (if f = 1 \<or> f = 2 then Some (Pipe_Write q) else if f = p0 \<or> f = p1 then None else map_of (ps_table (py_procs y)) f)"
    by (rule map_of_child [OF m(2) ne gt(2)])
qed

text \<open>A handler that reads has its end of the pipe, and the other end is not open in the worker.\<close>

lemma reader_table:
  assumes "fds_inv t0 y" "ids_inv y" "only_other t0" "i < length (py_tasks y)" "py_tasks y ! i = T_Reading c fd n q p0 pid"
  shows "map_of (ps_table (py_procs y)) p0 = Some (Pipe_Read q)" "Pipe_Write q \<notin> snd ` set (ps_table (py_procs y))"
proof -
  show "map_of (ps_table (py_procs y)) p0 = Some (Pipe_Read q)" using table_owned [OF assms(1,4)] assms(5) by simp
  show "Pipe_Write q \<notin> snd ` set (ps_table (py_procs y))"
  proof
    assume "Pipe_Write q \<in> snd ` set (ps_table (py_procs y))"
    from table_write [OF assms(1,3) this] obtain j where j: "j < length (py_tasks y)" "write_open (py_tasks y ! j)"
      "q \<in> set (task_pipe (py_tasks y ! j))" .
    have "q \<in> set (task_pipe (py_tasks y ! i))" using assms(5) by simp
    then have "j = i" using assms(2,4) j unfolding ids_inv_def by blast
    then show False using j(2) assms(5) by simp
  qed
qed

lemma reader_at_eof:
  assumes "fds_inv t0 y" "ids_inv y" "only_other t0" "i < length (py_tasks y)" "py_tasks y ! i = T_Reading c fd n q p0 pid"
    and "\<forall>k \<in> set (ps_kids (py_procs y)). Pipe_Write q \<notin> holds k"
  shows "at_eof p0 (py_procs y)"
  using reader_table [OF assms(1-5)] assms(6) by (force simp: at_eof_def held_def holds_def)

primrec task_run :: "outcome list \<Rightarrow> task_fds \<Rightarrow> procs \<Rightarrow> (task_fds \<times> procs) option" where
  "task_run [] h s = Some (h, s)"
| "task_run (out # outs) h s = (case task_step out h s of None \<Rightarrow> None | Some (h1, s1) \<Rightarrow> task_run outs h1 s1)"

text \<open>What another handler has open is inherited.\<close>

lemma inherited:
  assumes "fds_inv t0 y" "ids_inv y" "only_other t0" "std_open t0"
    and "j < length (py_tasks y)" "i < length (py_tasks y)" "i \<noteq> j" "(f, x) \<in> set (owned (py_tasks y ! j))"
    and "py_tasks y ! i = T_Piped c fd n q p0 p1"
  shows "map_of (child_table p0 p1 (ps_table (py_procs y))) f = Some x"
proof -
  have m: "map_of (ps_table (py_procs y)) f = Some x" by (rule table_owned [OF assms(1,5,8)])
  have "2 < f" by (rule table_std [OF assms(1,3,4) m]) (use assms(8) in \<open>cases "py_tasks y ! j"; auto\<close>)
  have "set (task_pipe (py_tasks y ! j)) \<inter> set (task_pipe (py_tasks y ! i)) = {}"
    using assms(2,5-7) unfolding ids_inv_def by metis
  then have "x \<noteq> Pipe_Read q \<and> x \<noteq> Pipe_Write q" using owned_pipe [of f q "py_tasks y ! j"] assms(8,9) by auto
  then have "f \<noteq> p0" "f \<noteq> p1" using wired(2,3) [OF assms(1-4,6,9), of f] m by auto
  then show ?thesis using m \<open>2 < f\<close> by (simp add: wired(1) [OF assms(1-4,6,9)])
qed

section \<open>Statuses\<close>

text \<open>A child of the worker that has not been waited for.\<close>

definition pid_live :: "nat \<Rightarrow> procs \<Rightarrow> bool" where
  "pid_live p s \<longleftrightarrow> (\<exists>k \<in> set (ps_kids s). kid_pid k = p \<and> kid_root k = p) \<or> p \<in> fst ` set (ps_zombies s)"

lemma live_more:
  "pid_live p s \<Longrightarrow> set (ps_kids s) \<subseteq> set (ps_kids s') \<Longrightarrow> ps_zombies s' = ps_zombies s \<Longrightarrow> pid_live p s'"
  unfolding pid_live_def by auto

lemma live_gone: "pid_live p s \<Longrightarrow> pid_live p (kid_gone pid st s)"
  by (cases "p = pid") (auto simp: pid_live_def kid_gone_def list_ex_iff image_Un)

lemma live_kill: "pid_live p s \<Longrightarrow> pid_live p (sys_kill pid s)"
  by (cases pid) (force simp: sys_kill_def pid_live_def all_gone_def, simp add: sys_kill_def live_gone)

lemma live_at:
  assumes "pid_live p s" "\<And>k. kid_pid (f k) = kid_pid k" "\<And>k. kid_root (f k) = kid_root k"
  shows "pid_live p (kid_at j f s)"
proof (cases "\<exists>k \<in> set (ps_kids s). kid_pid k = p \<and> kid_root k = p")
  case True
  then obtain i where i: "i < length (ps_kids s)" "kid_pid (ps_kids s ! i) = p" "kid_root (ps_kids s ! i) = p"
    by (auto simp: in_set_conv_nth)
  let ?ks = "(ps_kids s)[j := f (ps_kids s ! j)]"
  have "?ks ! i = f (ps_kids s ! i) \<or> ?ks ! i = ps_kids s ! i" using i(1) by (cases "j = i") simp_all
  then have "kid_pid (?ks ! i) = p" "kid_root (?ks ! i) = p" using i(2,3) assms(2,3) by metis+
  moreover have "?ks ! i \<in> set ?ks" using i(1) by (metis length_list_update nth_mem)
  ultimately show ?thesis by (auto simp: pid_live_def kid_at_def)
qed (use assms(1) in \<open>auto simp: pid_live_def kid_at_def\<close>)

lemma live_forks: "pid_live p s \<Longrightarrow> pid_live p (kid_forks j s)"
  by (erule live_more) (auto simp: kid_forks_def)

text \<open>A handler for which every \<^verbatim>\<open>fork\<close> and every wait has worked.\<close>

fun sound :: "task_fds \<Rightarrow> bool" where
  "sound (T_Forked c fd n q p0 p1 pid) = (pid \<noteq> None)"
| "sound (T_Reading c fd n q p0 pid) = (pid \<noteq> None)"
| "sound (T_Waiting c fd n q p0 pid) = (pid \<noteq> None)"
| "sound (T_Reaped c fd n q p0 pid w) = (\<exists>p st. pid = Some p \<and> w = Some (p, st))"
| "sound h = True"

lemma waitpid_live:
  assumes "sys_waitpid p s = Some (w, s')" "pid_live p s"
  shows "\<exists>st. w = Some (p, st)" "pid_live p' s \<Longrightarrow> p' \<noteq> p \<Longrightarrow> pid_live p' s'"
proof -
  show "\<exists>st. w = Some (p, st)"
  proof (cases "p \<in> fst ` set (ps_zombies s)")
    case True
    then obtain st where "map_of (ps_zombies s) p = Some st" by (metis map_of_eq_None_iff not_Some_eq)
    then show ?thesis using assms(1) by (auto simp: sys_waitpid_def)
  next
    case False
    then have "map_of (ps_zombies s) p = None" by (simp add: map_of_eq_None_iff)
    moreover have "kid_alive p s" using False assms(2) by (auto simp: pid_live_def kid_alive_def)
    ultimately show ?thesis using assms(1) by (simp add: sys_waitpid_def)
  qed
  show "pid_live p' s \<Longrightarrow> p' \<noteq> p \<Longrightarrow> pid_live p' s'"
    using assms(1) by (force simp: sys_waitpid_def pid_live_def split: option.splits if_splits)
qed

lemma sound_step:
  assumes "task_step out h s = Some (h', s')" "sound h" "forks h \<longrightarrow> out = Next" "\<forall>p \<in> set (task_pid h). pid_live p s"
  shows "sound h' \<and> (\<forall>p \<in> set (task_pid h'). pid_live p s') \<and> (\<forall>p. pid_live p s \<longrightarrow> p \<notin> set (task_pid h) \<longrightarrow> pid_live p s')"
proof (cases h)
  case (T_New c fd)
  then show ?thesis using assms(1) by (cases out) (auto intro: live_more split: if_splits prod.splits)
next
  case (T_Source c fd sf)
  then show ?thesis using assms(1) by (cases out) (auto intro: live_more split: if_splits prod.splits)
next
  case (T_Open c fd n)
  then show ?thesis using assms(1) by (cases out) (auto intro: live_more split: if_splits prod.splits)
next
  case (T_Piped c fd n q p0 p1)
  then have "h' = T_Forked c fd n q p0 p1 (Some (ps_pids s))" "set (ps_kids s) \<subseteq> set (ps_kids s')"
    "ps_zombies s' = ps_zombies s" "pid_live (ps_pids s) s'"
    using assms(1,3) by (auto simp: pid_live_def)
  then show ?thesis by (auto intro: live_more)
next
  case (T_Forked c fd n q p0 p1 pid)
  then show ?thesis using assms(1,2,4) by (cases out) (auto intro: live_more)
next
  case (T_Reading c fd n q p0 pid)
  then show ?thesis using assms(1,2,4) by (cases out) (auto intro: live_kill split: if_splits)
next
  case (T_Waiting c fd n q p0 pid)
  then obtain p w where p: "pid = Some p" "h' = T_Reaped c fd n q p0 pid w" "wait_step out pid s = Some (w, s')"
    using assms(1,2) by auto
  then have "sys_waitpid p s = Some (w, s')" by (cases out) (simp_all add: wait_step_def)
  from waitpid_live [OF this] show ?thesis using p T_Waiting assms(4) by auto
next
  case (T_Reaped c fd n q p0 pid w)
  then show ?thesis using assms(1) by (cases out) (auto intro: live_more)
qed (use assms(1) in simp)

definition wait_inv :: "psys \<Rightarrow> bool" where
  "wait_inv y \<longleftrightarrow>
     (\<forall>i < length (py_tasks y). sound (py_tasks y ! i) \<and> (\<forall>p \<in> set (task_pid (py_tasks y ! i)). pid_live p (py_procs y))) \<and>
     (\<forall>i < length (py_tasks y). \<forall>j < length (py_tasks y). i \<noteq> j \<longrightarrow>
        set (task_pid (py_tasks y ! i)) \<inter> set (task_pid (py_tasks y ! j)) = {})"

lemma wait_inv_procs:
  assumes "wait_inv y" "\<And>p. pid_live p (py_procs y) \<Longrightarrow> pid_live p (f (py_procs y))"
  shows "wait_inv (on_procs f y)"
  using assms unfolding wait_inv_def psys_simps by blast

lemma wait_inv_act:
  assumes "wait_inv y" "ids_inv y" "i < length (py_tasks y)" "task_step out (py_tasks y ! i) (py_procs y) = Some (h, s)"
    and "forks (py_tasks y ! i) \<longrightarrow> out = Next"
  shows "wait_inv (psys_put i h s y)"
proof -
  let ?ts = "py_tasks y" and ?s = "py_procs y"
  have inv: "\<And>j. j < length ?ts \<Longrightarrow> sound (?ts ! j)"
    "\<And>j p. j < length ?ts \<Longrightarrow> p \<in> set (task_pid (?ts ! j)) \<Longrightarrow> pid_live p ?s"
    "\<And>j k. j < length ?ts \<Longrightarrow> k < length ?ts \<Longrightarrow> j \<noteq> k \<Longrightarrow> set (task_pid (?ts ! j)) \<inter> set (task_pid (?ts ! k)) = {}"
    using assms(1) unfolding wait_inv_def by blast+
  have ids: "\<And>j p. j < length ?ts \<Longrightarrow> p \<in> set (task_pid (?ts ! j)) \<Longrightarrow> p < ps_pids ?s"
    using assms(2) unfolding ids_inv_def by blast
  have st: "sound h" "\<forall>p \<in> set (task_pid h). pid_live p s"
    "\<And>p. pid_live p ?s \<Longrightarrow> p \<notin> set (task_pid (?ts ! i)) \<Longrightarrow> pid_live p s"
    using sound_step [OF assms(4) inv(1) [OF assms(3)] assms(5)] inv(2) [OF assms(3)] by blast+
  have new: "set (task_pid h) \<subseteq> set (task_pid (?ts ! i)) \<or> task_pid h = [ps_pids ?s]"
    using task_step_kids [OF assms(4)] by blast
  have apart: "set (task_pid (?ts ! j)) \<inter> set (task_pid h) = {}" if "j < length ?ts" "j \<noteq> i" for j
    using new inv(3) [OF that(1) assms(3) that(2)] ids [OF that(1)] by fastforce
  have "sound (?ts[i := h] ! j)" if "j < length ?ts" for j
    using that st(1) inv(1) by (cases "j = i") auto
  moreover have "pid_live p s" if j: "j < length ?ts" "p \<in> set (task_pid (?ts[i := h] ! j))" for j p
  proof (cases "j = i")
    case False
    then have "p \<in> set (task_pid (?ts ! j))" using j by simp
    moreover from this have "p \<notin> set (task_pid (?ts ! i))" using inv(3) [OF j(1) assms(3) False] by blast
    ultimately show ?thesis using inv(2) [OF j(1)] st(3) by blast
  qed (use j st(2) in simp)
  moreover have "set (task_pid (?ts[i := h] ! j)) \<inter> set (task_pid (?ts[i := h] ! k)) = {}"
    if "j < length ?ts" "k < length ?ts" "j \<noteq> k" for j k
    using that inv(3) [of j k] apart [of j] apart [of k] by (cases "j = i"; cases "k = i") (auto simp: Int_commute)
  ultimately show ?thesis unfolding wait_inv_def psys_simps length_list_update by blast
qed

lemma wait_inv_step: "forked_step y y' \<Longrightarrow> wait_inv y \<and> ids_inv y \<Longrightarrow> wait_inv y'"
proof (erule sched_stepE)
  fix load ev assume y': "y' = psys_accept load ev y" and inv: "wait_inv y \<and> ids_inv y"
  show "wait_inv y'" using accept_tasks [of load ev y]
  proof
    assume "py_tasks (psys_accept load ev y) = py_tasks y"
    then show ?thesis using inv by (simp add: wait_inv_def y' pid_live_def)
  next
    assume "\<exists>c fd. py_tasks (psys_accept load ev y) = py_tasks y @ [T_New c fd]"
    then obtain c fd where "py_tasks (psys_accept load ev y) = py_tasks y @ [T_New c fd]" by blast
    then show ?thesis using inv by (simp add: wait_inv_def y' pid_live_def nth_append)
  qed
next
  fix i out h s
  assume "y' = psys_put i h s y" "i < length (py_tasks y)" "wait_inv y \<and> ids_inv y"
    "task_step out (py_tasks y ! i) (py_procs y) = Some (h, s)" "forks_work (py_tasks y) i out"
  then show "wait_inv y'" using wait_inv_act [of y i out h s] by (simp add: forks_work_def)
qed (auto intro!: wait_inv_procs live_at live_gone live_forks)

interpretation wait_kept: kept forked_step "\<lambda>y. wait_inv y \<and> ids_inv y"
  by unfold_locales (blast intro: wait_inv_step ids_inv_step sched_is_psys)

section \<open>Two handlers\<close>

lemma sched_act:
  assumes "rtranclp (sched_step allowed) y0 y" "i < length (py_tasks y)"
    and "task_step out (py_tasks y ! i) (py_procs y) = Some (h, s)" "allowed (py_tasks y) i out"
  shows "rtranclp (sched_step allowed) y0 (psys_put i h s y)"
proof -
  have "sched_step allowed y (psys_put i h s y)" using assms(2-4) by (rule sched_step.P_Act)
  with assms(1) show ?thesis by (rule rtranclp.rtrancl_into_rtrancl)
qed

lemma act_reach:
  assumes "rtranclp piped_step y0 y" "i < length (py_tasks y)" "task_step out (py_tasks y ! i) (py_procs y) = Some (h, s)"
    and "pipes_work (py_tasks y) i out"
  shows "rtranclp piped_step y0 (psys_put i h s y)"
  using assms by (rule sched_act)

lemma pipes_work_simps [simp]:
  "pipes_work ts i Next" "pipes_work ts i Fail" "pipes_work ts i Leave" "pipes_work ts i (Take j)"
  by (simp_all add: pipes_work_def)

text \<open>A schedule in which handlers may do what does not fork.\<close>

definition opens :: "(task_fds list \<Rightarrow> nat \<Rightarrow> outcome \<Rightarrow> bool) \<Rightarrow> bool" where
  "opens allowed \<longleftrightarrow> (\<forall>ts i. \<not> forks (ts ! i) \<longrightarrow> allowed ts i Next)"

lemma opens_all: "opens pipes_work" "opens quiet" "opens forks_work" "opens (\<lambda>ts i out. True)"
  "opens (\<lambda>ts i out. pipes_work ts i out \<and> forks_work ts i out)"
  by (simp_all add: opens_def quiet_def forks_work_def)

definition no_kids :: "psys \<Rightarrow> bool" where
  "no_kids y \<longleftrightarrow> ps_kids (py_procs y) = [] \<and> ps_pipes (py_procs y) = 0 \<and> ps_pids (py_procs y) = 0 \<and>
     ps_zombies (py_procs y) = []"

lemma accept_one:
  assumes "py_accepting y"
  obtains fd y' where "sched_step allowed y y'" "py_tasks y' = py_tasks y @ [T_New (py_conns y) fd]"
    "py_accepting y'" "py_conns y' = Suc (py_conns y)" "no_kids y' = no_kids y"
proof (rule that [OF sched_step.P_Accept])
  show "py_tasks (psys_accept load_init (Acc_Conn 0 True) y) =
      py_tasks y @ [T_New (py_conns y) (fst (fd_open (Socket (py_conns y)) (ps_table (py_procs y))))]"
    "py_accepting (psys_accept load_init (Acc_Conn 0 True) y)"
    "py_conns (psys_accept load_init (Acc_Conn 0 True) y) = Suc (py_conns y)"
    using assms by (simp_all add: psys_accept_def Let_def split_beta load_init_def load_get_active_tasks_def MAX_CONCURRENT_TASKS_def)
qed (simp add: no_kids_def)

text \<open>Two connections are accepted.\<close>

lemma two_new:
  obtains y fd0 fd1 where "rtranclp (sched_step allowed) (psys_start t0) y" "py_tasks y = [T_New 0 fd0, T_New 1 fd1]" "no_kids y"
proof -
  have s: "py_accepting (psys_start t0)" "no_kids (psys_start t0)" "py_tasks (psys_start t0) = []" "py_conns (psys_start t0) = 0"
    by (simp_all add: psys_start_def no_kids_def)
  obtain fd0 y1 where a: "sched_step allowed (psys_start t0) y1"
    "py_tasks y1 = py_tasks (psys_start t0) @ [T_New (py_conns (psys_start t0)) fd0]" "py_accepting y1"
    "py_conns y1 = Suc (py_conns (psys_start t0))" "no_kids y1 = no_kids (psys_start t0)" by (rule accept_one [OF s(1)])
  obtain fd1 y2 where b: "sched_step allowed y1 y2" "py_tasks y2 = py_tasks y1 @ [T_New (py_conns y1) fd1]"
    "py_accepting y2" "py_conns y2 = Suc (py_conns y1)" "no_kids y2 = no_kids y1" by (rule accept_one [OF a(3)])
  have "rtranclp (sched_step allowed) (psys_start t0) y2" using a(1) b(1) by (meson r_into_rtranclp rtranclp_trans)
  then show ?thesis by (rule that) (simp_all add: a b s)
qed

text \<open>A handler writes its source.\<close>

lemma source_written:
  assumes "opens allowed" "rtranclp (sched_step allowed) y0 y" "i < length (py_tasks y)" "py_tasks y ! i = T_New c fd" "no_kids y"
  obtains y' where "rtranclp (sched_step allowed) y0 y'" "py_tasks y' = (py_tasks y)[i := T_Open c fd 0]" "no_kids y'"
proof -
  obtain sf t where o: "fd_open (Source c) (ps_table (py_procs y)) = (sf, t)" by fastforce
  let ?s1 = "(py_procs y)\<lparr>ps_table := t\<rparr>"
  let ?y1 = "psys_put i (T_Source c fd sf) ?s1 y"
  let ?y2 = "psys_put i (T_Open c fd 0) (?s1\<lparr>ps_table := fd_close sf t\<rparr>) ?y1"
  have "rtranclp (sched_step allowed) y0 ?y1"
    by (rule sched_act [where out = Next, OF assms(2,3)]) (use assms(1,4) o in \<open>simp_all add: opens_def\<close>)
  then have "rtranclp (sched_step allowed) y0 ?y2"
    by (rule sched_act [where out = Next]) (use assms(1,3) in \<open>simp_all add: opens_def\<close>)
  then show ?thesis by (rule that) (use assms(5) in \<open>simp_all add: no_kids_def\<close>)
qed

lemma one_open:
  assumes "opens allowed"
  obtains y fd0 fd1 where "rtranclp (sched_step allowed) (psys_start t0) y" "py_tasks y = [T_New 0 fd0, T_Open 1 fd1 0]" "no_kids y"
proof -
  obtain y fd0 fd1 where y: "rtranclp (sched_step allowed) (psys_start t0) y" "py_tasks y = [T_New 0 fd0, T_New 1 fd1]"
    "no_kids y" by (rule two_new)
  show ?thesis by (rule source_written [OF assms y(1) _ _ y(3), of 1 1 fd1]) (use that in \<open>simp_all add: y(2)\<close>)
qed

lemma two_open:
  assumes "opens allowed"
  obtains y fd0 fd1 where "rtranclp (sched_step allowed) (psys_start t0) y" "py_tasks y = [T_Open 0 fd0 0, T_Open 1 fd1 0]"
    "ps_kids (py_procs y) = []" "ps_pipes (py_procs y) = 0" "ps_pids (py_procs y) = 0"
    "ps_zombies (py_procs y) = []"
proof -
  obtain y fd0 fd1 where y: "rtranclp (sched_step allowed) (psys_start t0) y" "py_tasks y = [T_New 0 fd0, T_Open 1 fd1 0]"
    "no_kids y" by (rule one_open [OF assms])
  show ?thesis
    by (rule source_written [OF assms y(1) _ _ y(3), of 0 0 fd0]) (use that in \<open>simp_all add: y(2) no_kids_def\<close>)
qed

text \<open>A handler begins its next block, and forks.\<close>

lemma open_pipe:
  assumes "n < 2"
  obtains p0 p1 t where "task_step Next (T_Open c fd n) s =
    Some (T_Piped c fd n (ps_pipes s) p0 p1, s\<lparr>ps_table := t, ps_pipes := Suc (ps_pipes s)\<rparr>)"
  using assms by (cases "sys_pipe (ps_pipes s) (ps_table s)") auto

definition new_kid :: "nat \<Rightarrow> nat \<Rightarrow> nat \<Rightarrow> fd_table \<Rightarrow> kid" where
  "new_kid pid p0 p1 t = \<lparr>kid_pid = pid, kid_root = pid, kid_phase = Forked_At p0 p1, kid_table = t\<rparr>"

lemma new_kid_simps [simp]:
  "kid_root (new_kid pid p0 p1 t) = pid" "kid_pid (new_kid pid p0 p1 t) = pid"
  "kid_phase (kid_exec (new_kid pid p0 p1 t)) = Started"
  "kid_table (kid_exec (new_kid pid p0 p1 t)) = child_table p0 p1 t"
  by (simp_all add: new_kid_def kid_exec_def)

text \<open>Both open a pipe before either forks.\<close>

lemma two_piped:
  obtains y fd0 fd1 a b a' b' where "rtranclp piped_step (psys_start t0) y"
    "py_tasks y = [T_Piped 0 fd0 0 0 a b, T_Piped 1 fd1 0 1 a' b']" "ps_kids (py_procs y) = []" "ps_pids (py_procs y) = 0"
    "ps_zombies (py_procs y) = []"
proof -
  obtain y fd0 fd1 where y: "rtranclp piped_step (psys_start t0) y" "py_tasks y = [T_Open 0 fd0 0, T_Open 1 fd1 0]"
    "ps_kids (py_procs y) = []" "ps_pipes (py_procs y) = 0" "ps_pids (py_procs y) = 0"
    "ps_zombies (py_procs y) = []" by (rule two_open [OF opens_all(1)])
  obtain a b t1 where s1: "task_step Next (T_Open 0 fd0 0) (py_procs y) =
    Some (T_Piped 0 fd0 0 0 a b, (py_procs y)\<lparr>ps_table := t1, ps_pipes := 1\<rparr>)"
    using open_pipe [of 0 0 fd0 "py_procs y"] y(4) by auto
  let ?y1 = "psys_put 0 (T_Piped 0 fd0 0 0 a b) ((py_procs y)\<lparr>ps_table := t1, ps_pipes := 1\<rparr>) y"
  have r1: "rtranclp piped_step (psys_start t0) ?y1"
    by (rule act_reach [where out = Next, OF y(1)]) (use s1 in \<open>simp_all add: y(2)\<close>)
  obtain a' b' t2 where s2: "task_step Next (T_Open 1 fd1 0) (py_procs ?y1) =
    Some (T_Piped 1 fd1 0 1 a' b', (py_procs ?y1)\<lparr>ps_table := t2, ps_pipes := 2\<rparr>)"
    using open_pipe [of 0 1 fd1 "py_procs ?y1"] by (auto simp: numeral_2_eq_2)
  let ?y2 = "psys_put 1 (T_Piped 1 fd1 0 1 a' b') ((py_procs ?y1)\<lparr>ps_table := t2, ps_pipes := 2\<rparr>) ?y1"
  have "rtranclp piped_step (psys_start t0) ?y2"
    by (rule act_reach [where out = Next, OF r1]) (use s2 in \<open>simp_all add: y(2)\<close>)
  then show ?thesis by (rule that) (simp_all add: y)
qed

text \<open>Both fork, and the first child is gone before the second handler has closed its writing end.\<close>

lemma two_forked:
  assumes "rtranclp piped_step (psys_start t0) y" "py_tasks y = [T_Piped 0 fd0 0 0 a b, T_Piped 1 fd1 0 1 a' b']"
    and "ps_kids (py_procs y) = []" "ps_pids (py_procs y) = 0"
  obtains z where "rtranclp piped_step (psys_start t0) z" "py_tasks z ! 0 = T_Reading 0 fd0 0 0 a (Some 0)"
    "ps_kids (py_procs z) = [kid_exec (new_kid 1 a' b' (ps_table (py_procs y)))]" "length (py_tasks z) = 2"
proof -
  let ?t = "ps_table (py_procs y)"
  let ?s1 = "(py_procs y)\<lparr>ps_kids := [new_kid 0 a b ?t], ps_pids := 1\<rparr>"
  let ?s2 = "?s1\<lparr>ps_kids := [new_kid 1 a' b' ?t, new_kid 0 a b ?t], ps_pids := 2\<rparr>"
  let ?y1 = "psys_put 0 (T_Forked 0 fd0 0 0 a b (Some 0)) ?s1 y"
  let ?y2 = "psys_put 1 (T_Forked 1 fd1 0 1 a' b' (Some 1)) ?s2 ?y1"
  let ?y3 = "psys_put 0 (T_Reading 0 fd0 0 0 a (Some 0)) (?s2\<lparr>ps_table := fd_close b ?t\<rparr>) ?y2"
  let ?y4 = "on_procs (kid_at 0 kid_exec) ?y3"
  have "rtranclp piped_step (psys_start t0) ?y1"
    by (rule act_reach [where out = Next, OF assms(1)]) (simp_all add: assms(2-4) new_kid_def)
  then have "rtranclp piped_step (psys_start t0) ?y2"
    by (rule act_reach [where out = Next]) (simp_all add: assms(2) new_kid_def)
  then have "rtranclp piped_step (psys_start t0) ?y3"
    by (rule act_reach [where out = Next]) (simp_all add: assms(2))
  moreover have "piped_step ?y3 ?y4" by (rule P_Exec) simp
  moreover have "piped_step ?y4 (on_procs (kid_gone 0 0) ?y4)" by (rule P_Exit)
  ultimately have "rtranclp piped_step (psys_start t0) (on_procs (kid_gone 0 0) ?y4)"
    by (meson rtranclp.rtrancl_into_rtrancl)
  then show ?thesis by (rule that) (simp_all add: assms(2) kid_at_def kid_gone_def)
qed

text \<open>One handler leaves its client while the child of the other one runs.\<close>

lemma quiet_act:
  assumes "rtranclp quiet_step y0 y" "i < length (py_tasks y)" "task_step out (py_tasks y ! i) (py_procs y) = Some (h, s)"
    and "forks (py_tasks y ! i) \<longrightarrow> (\<forall>j < length (py_tasks y). j \<noteq> i \<longrightarrow> \<not> write_open (py_tasks y ! j))"
    and "pipes_work (py_tasks y) i out"
  shows "rtranclp quiet_step y0 (psys_put i h s y)"
  using assms(1-3) by (rule sched_act) (simp add: quiet_def assms(4,5))

lemma one_piped:
  obtains y fd0 fd1 a b where "rtranclp quiet_step (psys_start t0) y"
    "py_tasks y = [T_New 0 fd0, T_Piped 1 fd1 0 0 a b]" "ps_kids (py_procs y) = []" "ps_pids (py_procs y) = 0"
proof -
  obtain y fd0 fd1 where y: "rtranclp quiet_step (psys_start t0) y" "py_tasks y = [T_New 0 fd0, T_Open 1 fd1 0]"
    "ps_kids (py_procs y) = []" "ps_pipes (py_procs y) = 0" "ps_pids (py_procs y) = 0"
    using one_open [OF opens_all(2)] unfolding no_kids_def by metis
  obtain a b t where s1: "task_step Next (T_Open 1 fd1 0) (py_procs y) =
    Some (T_Piped 1 fd1 0 0 a b, (py_procs y)\<lparr>ps_table := t, ps_pipes := 1\<rparr>)"
    using open_pipe [of 0 1 fd1 "py_procs y"] y(4) by auto
  have "rtranclp quiet_step (psys_start t0) (psys_put 1 (T_Piped 1 fd1 0 0 a b) ((py_procs y)\<lparr>ps_table := t, ps_pipes := 1\<rparr>) y)"
    by (rule quiet_act [where out = Next, OF y(1)]) (use s1 in \<open>simp_all add: y(2)\<close>)
  then show ?thesis by (rule that) (simp_all add: y)
qed

lemma one_forked:
  assumes "rtranclp quiet_step (psys_start t0) y" "py_tasks y = [T_New 0 fd0, T_Piped 1 fd1 0 0 a b]"
    and "ps_kids (py_procs y) = []" "ps_pids (py_procs y) = 0"
  obtains z where "rtranclp quiet_step (psys_start t0) z" "py_tasks z = [T_New 0 fd0, T_Forked 1 fd1 0 0 a b (Some 0)]"
    "ps_kids (py_procs z) = [new_kid 0 a b (ps_table (py_procs y))]"
proof -
  let ?s = "(py_procs y)\<lparr>ps_kids := [new_kid 0 a b (ps_table (py_procs y))], ps_pids := 1\<rparr>"
  have "rtranclp quiet_step (psys_start t0) (psys_put 1 (T_Forked 1 fd1 0 0 a b (Some 0)) ?s y)"
    by (rule quiet_act [where out = Next, OF assms(1)]) (simp_all add: assms(2-4) new_kid_def less_Suc_eq)
  then show ?thesis by (rule that) (simp_all add: assms(2))
qed

lemma one_left:
  assumes "distinct (map fst t0)" "only_other t0" "std_open t0"
  obtains z k where "rtranclp quiet_step (psys_start t0) z" "py_tasks z ! 0 = T_Closed"
    "ps_kids (py_procs z) = [k]" "kid_phase k = Started" "Socket 0 \<in> holds k"
proof -
  obtain x fd0 fd1 a b where x: "rtranclp quiet_step (psys_start t0) x"
    "py_tasks x = [T_New 0 fd0, T_Piped 1 fd1 0 0 a b]" "ps_kids (py_procs x) = []" "ps_pids (py_procs x) = 0"
    by (rule one_piped)
  obtain y where y: "rtranclp quiet_step (psys_start t0) y" "py_tasks y = [T_New 0 fd0, T_Forked 1 fd1 0 0 a b (Some 0)]"
    "ps_kids (py_procs y) = [new_kid 0 a b (ps_table (py_procs x))]" by (rule one_forked [OF x])
  let ?y = "psys_put 0 T_Closed ((py_procs y)\<lparr>ps_table := fd_close fd0 (ps_table (py_procs y))\<rparr>) y"
  have "rtranclp quiet_step (psys_start t0) ?y"
    by (rule quiet_act [where out = Leave, OF y(1)]) (simp_all add: y(2))
  moreover have "quiet_step ?y (on_procs (kid_at 0 kid_exec) ?y)" by (rule P_Exec) (simp add: y(3))
  ultimately have r: "rtranclp quiet_step (psys_start t0) (on_procs (kid_at 0 kid_exec) ?y)"
    by (rule rtranclp.rtrancl_into_rtrancl)
  have "fds_inv t0 x \<and> ids_inv x"
    using quiet.reach [OF x(1)] sched.reach [OF x(1)] fds_kept.reach ids_kept.reach all_inv_start [OF assms(1)] by blast
  then have "map_of (child_table a b (ps_table (py_procs x))) fd0 = Some (Socket 0)"
    using inherited [of t0 x 0 1 fd0 "Socket 0" 1 fd1 0 0 a b] assms(2,3) by (simp add: x(2))
  then have "Socket 0 \<in> holds (kid_exec (new_kid 0 a b (ps_table (py_procs x))))"
    by (force simp: holds_def dest: map_of_SomeD)
  then show ?thesis
    by (intro that [OF r, of "kid_exec (new_kid 0 a b (ps_table (py_procs x)))"]) (simp_all add: y(2,3) kid_at_def)
qed

text \<open>The first handler cannot fork; the second one's child runs and exits with the status \<open>st\<close>.\<close>

lemma failed_and_forked:
  assumes "distinct (map fst t0)" "only_other t0"
  obtains y fd0 fd1 a b where "rtranclp piped_step (psys_start t0) y"
    "py_tasks y = [T_Waiting 0 fd0 0 0 a None, T_Waiting 1 fd1 0 1 b (Some 0)]"
    "ps_zombies (py_procs y) = [(0, st)]" "ps_kids (py_procs y) = []"
proof -
  obtain y fd0 fd1 a b a' b' where y: "rtranclp piped_step (psys_start t0) y"
    "py_tasks y = [T_Piped 0 fd0 0 0 a b, T_Piped 1 fd1 0 1 a' b']" "ps_kids (py_procs y) = []"
    "ps_pids (py_procs y) = 0" "ps_zombies (py_procs y) = []" by (rule two_piped)
  let ?t = "ps_table (py_procs y)" and ?s = "py_procs y"
  let ?s2 = "?s\<lparr>ps_kids := [new_kid 0 a' b' ?t], ps_pids := 1\<rparr>"
  let ?s3 = "?s2\<lparr>ps_table := fd_close b ?t\<rparr>"
  let ?s4 = "?s3\<lparr>ps_table := fd_close b' (fd_close b ?t)\<rparr>"
  let ?y1 = "psys_put 0 (T_Forked 0 fd0 0 0 a b None) ?s y"
  let ?y2 = "psys_put 1 (T_Forked 1 fd1 0 1 a' b' (Some 0)) ?s2 ?y1"
  let ?y3 = "psys_put 0 (T_Reading 0 fd0 0 0 a None) ?s3 ?y2"
  let ?y4 = "psys_put 1 (T_Reading 1 fd1 0 1 a' (Some 0)) ?s4 ?y3"
  let ?y5 = "on_procs (kid_gone 0 st) ?y4"
  have "rtranclp piped_step (psys_start t0) ?y1"
    by (rule act_reach [where out = Fail, OF y(1)]) (simp_all add: y(2-5))
  then have "rtranclp piped_step (psys_start t0) ?y2"
    by (rule act_reach [where out = Next]) (simp_all add: y(2-5) new_kid_def)
  then have "rtranclp piped_step (psys_start t0) ?y3"
    by (rule act_reach [where out = Next]) (simp_all add: y(2-5))
  then have "rtranclp piped_step (psys_start t0) ?y4"
    by (rule act_reach [where out = Next]) (simp_all add: y(2-5))
  then have r: "rtranclp piped_step (psys_start t0) ?y5"
    by (rule rtranclp.rtrancl_into_rtrancl) (rule P_Exit)
  then have inv: "fds_inv t0 ?y5" "ids_inv ?y5"
    using fds_kept.reach ids_kept.reach sched.reach all_inv_start [OF assms(1)] by blast+
  define z where "z = ?y5"
  have z: "py_tasks z = [T_Reading 0 fd0 0 0 a None, T_Reading 1 fd1 0 1 a' (Some 0)]" "ps_kids (py_procs z) = []"
    "ps_zombies (py_procs z) = [(0, st)]" by (simp_all add: z_def y(2-5) kid_gone_def)
  note inv = inv [folded z_def] and r = r [folded z_def]
  have "at_eof a (py_procs z)" "at_eof a' (py_procs z)"
    using reader_at_eof [OF inv assms(2), of 0] reader_at_eof [OF inv assms(2), of 1] by (simp_all add: z)
  note eof = this
  let ?z1 = "psys_put 0 (T_Waiting 0 fd0 0 0 a None) (py_procs z) z"
  let ?z2 = "psys_put 1 (T_Waiting 1 fd1 0 1 a' (Some 0)) (py_procs z) ?z1"
  have "rtranclp piped_step (psys_start t0) ?z1"
    by (rule act_reach [where out = Next, OF r]) (simp_all add: z eof)
  then have "rtranclp piped_step (psys_start t0) ?z2"
    by (rule act_reach [where out = Next]) (simp_all add: z eof)
  then show ?thesis by (rule that) (simp_all add: z)
qed

text \<open>A start for the witnesses.\<close>

definition demo_table :: fd_table where
  "demo_table = [(0, Other 0), (1, Other 1), (2, Other 2), (3, Other 3)]"

lemma demo_table: "distinct (map fst demo_table)" "only_other demo_table" "std_open demo_table"
  by (simp_all add: demo_table_def only_other_def std_open_def)

section \<open>Properties\<close>

text \<open>C10: in every reachable state, whatever the accept loop, the handlers and the children do
  in whatever order and however their calls turn out, the second \<^verbatim>\<open>pipe\<close> excepted, the worker's
  descriptor table is the one of the start, the connections, source files and ends of pipes of the
  handlers that are at work, and the connections that got no thread, each once and no number twice. So
  every file, pipe and served connection is closed again, and when all handlers have ended only the
  connections without a thread are left over.\<close>

theorem pipes_accounted:
  assumes "rtranclp piped_step (psys_start t0) y" "distinct (map fst t0)"
  shows "distinct (map fst (ps_table (py_procs y))) \<and>
    mset (ps_table (py_procs y)) = mset t0 + all_owned (py_tasks y) + mset (py_orphans y) \<and>
    (\<forall>(fd, x) \<in> set (py_orphans y). \<exists>c. x = Socket c) \<and>
    ((\<forall>h \<in> set (py_tasks y). h = T_Closed) \<longrightarrow> mset (ps_table (py_procs y)) = mset t0 + mset (py_orphans y))"
proof -
  have "fds_inv t0 y" using fds_kept.reach [OF assms(1)] fds_inv_start [OF assms(2)] by blast
  moreover have "all_owned (py_tasks y) = {#}" if "\<forall>h \<in> set (py_tasks y). h = T_Closed"
    using that by (force simp: all_owned_def)
  ultimately show ?thesis by (simp add: fds_inv_def table_of_def)
qed

theorem pipes_accounted_witness:
  "\<exists>(y::psys) a b a' b' fd0 fd1. py_tasks y = [T_Piped 0 fd0 0 0 a b, T_Piped 1 fd1 0 1 a' b'] \<and>
     distinct (map fst (ps_table (py_procs y))) \<and> mset (ps_table (py_procs y)) = mset demo_table +
       {#(fd0, Socket 0), (a, Pipe_Read 0), (b, Pipe_Write 0), (fd1, Socket 1), (a', Pipe_Read 1), (b', Pipe_Write 1)#} +
       mset (py_orphans y)"
proof -
  obtain y fd0 fd1 a b a' b' where y: "rtranclp piped_step (psys_start demo_table) y"
    "py_tasks y = [T_Piped 0 fd0 0 0 a b, T_Piped 1 fd1 0 1 a' b']" by (rule two_piped)
  have "all_owned (py_tasks y) =
    {#(fd0, Socket 0), (a, Pipe_Read 0), (b, Pipe_Write 0), (fd1, Socket 1), (a', Pipe_Read 1), (b', Pipe_Write 1)#}"
    by (simp add: y(2) all_owned_def)
  with pipes_accounted [OF y(1) demo_table(1)] y(2) show ?thesis by (intro exI [of _ y] exI) simp
qed

text \<open>As long as the second \<^verbatim>\<open>pipe\<close> does not fail, a child has its standard output and standard error
  connected to the pipe of its own handler when it executes its program, and no other descriptor for that
  pipe; everything else that was open in the worker when it was forked is open in the child too.\<close>

theorem child_wired:
  assumes "rtranclp piped_step (psys_start t0) y" "distinct (map fst t0)" "only_other t0" "std_open t0"
    and "i < length (py_tasks y)" "py_tasks y ! i = T_Piped c fd n q p0 p1"
    and "task_step Next (py_tasks y ! i) (py_procs y) = Some (h, s)"
  shows "\<exists>k. ps_kids s = k # ps_kids (py_procs y) \<and> (let t = kid_table (kid_exec k) in
    map_of t 1 = Some (Pipe_Write q) \<and> map_of t 2 = Some (Pipe_Write q) \<and>
    (\<forall>f. map_of t f = Some (Pipe_Write q) \<longrightarrow> f = 1 \<or> f = 2) \<and> (\<forall>f. map_of t f \<noteq> Some (Pipe_Read q)) \<and>
    (\<forall>f. f \<notin> {1, 2, p0, p1} \<longrightarrow> map_of t f = map_of (ps_table (py_procs y)) f))"
proof -
  have inv: "fds_inv t0 y" "ids_inv y"
    using fds_kept.reach [OF assms(1)] ids_kept.reach [OF sched.reach [OF assms(1)]] all_inv_start [OF assms(2)] by blast+
  note w = wired [OF inv assms(3-6)]
  show ?thesis using assms(7) w(2-6) by (auto simp: assms(6) kid_exec_def w(1) Let_def)
qed

theorem child_wired_witness:
  "\<exists>y s k. rtranclp piped_step (psys_start demo_table) y \<and> task_step Next (py_tasks y ! 0) (py_procs y) = Some s \<and>
     ps_kids (snd s) = [k] \<and> map_of (kid_table (kid_exec k)) 1 = Some (Pipe_Write 0) \<and>
     map_of (kid_table (kid_exec k)) 2 = Some (Pipe_Write 0)"
proof -
  obtain y fd0 fd1 a b a' b' where y: "rtranclp piped_step (psys_start demo_table) y"
    "py_tasks y = [T_Piped 0 fd0 0 0 a b, T_Piped 1 fd1 0 1 a' b']" "ps_kids (py_procs y) = []" by (rule two_piped)
  obtain h s where st: "task_step Next (py_tasks y ! 0) (py_procs y) = Some (h, s)" by (simp add: y(2))
  show ?thesis
    using child_wired [OF y(1) demo_table, of 0 0 fd0 0 0 a b h s] st y
    by (intro exI [of _ y] exI [of _ "(h, s)"]) (auto simp: Let_def)
qed

text \<open>C17: as long as no second \<^verbatim>\<open>pipe\<close> fails and no handler forks while another one has the writing end of its
  pipe open in the worker, a handler waits for its own child only: when no process is left that its child
  is or has started, the read of the pipe comes to its end, \<^verbatim>\<open>waitpid\<close> returns, and the handler closes the
  pipe and goes on.\<close>

theorem reads_end_with_family:
  assumes "rtranclp quiet_step (psys_start t0) y" "distinct (map fst t0)" "only_other t0"
    and "i < length (py_tasks y)" "py_tasks y ! i = T_Reading c fd n q p0 (Some pid)"
    and "\<forall>k \<in> set (ps_kids (py_procs y)). kid_root k \<noteq> pid"
  shows "\<exists>s. task_run [Next, Next, Next] (py_tasks y ! i) (py_procs y) = Some (T_Open c fd (Suc n), s) \<and>
    ps_table s = fd_close p0 (ps_table (py_procs y))"
proof -
  have inv: "family_inv y" "ids_inv y" "fds_inv t0 y"
    using family_kept.reach [OF assms(1)] all_inv_start [OF assms(2)] assms(3) by blast+
  have own: "owns k q (Some pid)" if "k \<in> set (ps_kids (py_procs y))" for k
    using inv(1) assms(4,5) that unfolding family_inv_def by (metis nth_mem own_writer.simps(3))
  have "at_eof p0 (py_procs y)"
    using reader_at_eof [OF inv(3,2) assms(3-5)] own assms(6) by (auto simp: owns_def)
  moreover have "\<not> kid_alive pid (py_procs y)" using own assms(6) by (auto simp: kid_alive_def owns_def)
  ultimately show ?thesis
    by (auto simp: assms(5) wait_step_def sys_waitpid_def split: option.split)
qed

theorem reads_end_with_family_witness:
  "\<exists>y c fd n q p0 pid s. rtranclp quiet_step (psys_start demo_table) y \<and> py_tasks y ! 1 = T_Reading c fd n q p0 (Some pid) \<and>
     task_run [Next, Next, Next] (py_tasks y ! 1) (py_procs y) = Some (T_Open c fd (Suc n), s)"
proof -
  obtain x fd0 fd1 a b where x: "rtranclp quiet_step (psys_start demo_table) x"
    "py_tasks x = [T_New 0 fd0, T_Piped 1 fd1 0 0 a b]" "ps_kids (py_procs x) = []" "ps_pids (py_procs x) = 0"
    by (rule one_piped)
  obtain y where y: "rtranclp quiet_step (psys_start demo_table) y" "py_tasks y = [T_New 0 fd0, T_Forked 1 fd1 0 0 a b (Some 0)]"
    "ps_kids (py_procs y) = [new_kid 0 a b (ps_table (py_procs x))]" by (rule one_forked [OF x])
  let ?y = "psys_put 1 (T_Reading 1 fd1 0 0 a (Some 0)) ((py_procs y)\<lparr>ps_table := fd_close b (ps_table (py_procs y))\<rparr>) y"
  have "rtranclp quiet_step (psys_start demo_table) ?y"
    by (rule quiet_act [where out = Next, OF y(1)]) (simp_all add: y(2))
  then have r: "rtranclp quiet_step (psys_start demo_table) (on_procs (kid_gone 0 0) ?y)"
    by (rule rtranclp.rtrancl_into_rtrancl) (rule P_Exit)
  have t: "py_tasks (on_procs (kid_gone 0 0) ?y) ! 1 = T_Reading 1 fd1 0 0 a (Some 0)" by (simp add: y(2))
  have "1 < length (py_tasks (on_procs (kid_gone 0 0) ?y))"
    "\<forall>k \<in> set (ps_kids (py_procs (on_procs (kid_gone 0 0) ?y))). kid_root k \<noteq> 0"
    by (simp_all add: y(2,3) kid_gone_def)
  from reads_end_with_family [OF r demo_table(1,2) this(1) t this(2)] r t show ?thesis by blast
qed

text \<open>C22: but the code does not exclude such forks, and no descriptor is closed on
  \<^verbatim>\<open>exec\<close>. With two clients, first, a handler can wait at the pipe of its own child when nothing of the
  child's family is left, because the child of the other handler was forked in between and has inherited
  the writing end: the client gets its exit code only when the other client's program has ended.
  Secondly, even without such a fork, the connection of a handler that has ended can still be open in the
  child of another one, so that its client sees no end of the connection.\<close>

theorem inherited_descriptors:
  assumes "distinct (map fst t0)" "only_other t0" "std_open t0"
  shows "(\<exists>y c fd n q p0 pid. rtranclp psys_step (psys_start t0) y \<and> py_tasks y ! 0 = T_Reading c fd n q p0 (Some pid) \<and>
      (\<forall>k \<in> set (ps_kids (py_procs y)). kid_root k \<noteq> pid) \<and> task_step Next (py_tasks y ! 0) (py_procs y) = None) \<and>
    (\<exists>y. rtranclp quiet_step (psys_start t0) y \<and> py_tasks y ! 0 = T_Closed \<and>
      (\<exists>k \<in> set (ps_kids (py_procs y)). kid_phase k = Started \<and> Socket 0 \<in> holds k))"
proof -
  have inv: "fds_inv t0 y" "ids_inv y" if "rtranclp piped_step (psys_start t0) y" for y
    using fds_kept.reach [OF that] ids_kept.reach [OF sched.reach [OF that]] all_inv_start [OF assms(1)] by blast+
  show ?thesis
  proof
    obtain y fd0 fd1 a b a' b' where y: "rtranclp piped_step (psys_start t0) y"
      "py_tasks y = [T_Piped 0 fd0 0 0 a b, T_Piped 1 fd1 0 1 a' b']" "ps_kids (py_procs y) = []" "ps_pids (py_procs y) = 0"
      by (rule two_piped)
    obtain z where z: "rtranclp piped_step (psys_start t0) z" "py_tasks z ! 0 = T_Reading 0 fd0 0 0 a (Some 0)"
      "ps_kids (py_procs z) = [kid_exec (new_kid 1 a' b' (ps_table (py_procs y)))]" "length (py_tasks z) = 2"
      by (rule two_forked [OF y])
    have "map_of (child_table a' b' (ps_table (py_procs y))) b = Some (Pipe_Write 0)"
      using inherited [OF inv [OF y(1)] assms(2,3), of 0 1 b "Pipe_Write 0" 1 fd1 0 1 a' b'] by (simp add: y(2))
    then have "held (Pipe_Write 0) (py_procs z)"
      by (force simp: held_def z(3) dest: map_of_SomeD)
    moreover have "map_of (ps_table (py_procs z)) a = Some (Pipe_Read 0)"
      using table_owned [OF inv(1) [OF z(1)], of 0] by (simp add: z(2,4))
    ultimately have "task_step Next (py_tasks z ! 0) (py_procs z) = None" by (simp add: z(2) at_eof_def)
    then show "\<exists>y c fd n q p0 pid. rtranclp psys_step (psys_start t0) y \<and> py_tasks y ! 0 = T_Reading c fd n q p0 (Some pid) \<and>
      (\<forall>k \<in> set (ps_kids (py_procs y)). kid_root k \<noteq> pid) \<and> task_step Next (py_tasks y ! 0) (py_procs y) = None"
      using sched.reach [OF z(1)] z(2,3) by (intro exI [of _ z]) simp
  next
    obtain z k where z: "rtranclp quiet_step (psys_start t0) z" "py_tasks z ! 0 = T_Closed"
      "ps_kids (py_procs z) = [k]" "kid_phase k = Started" "Socket 0 \<in> holds k" by (rule one_left [OF assms])
    then show "\<exists>y. rtranclp quiet_step (psys_start t0) y \<and> py_tasks y ! 0 = T_Closed \<and>
      (\<exists>k \<in> set (ps_kids (py_procs y)). kid_phase k = Started \<and> Socket 0 \<in> holds k)"
      by (intro exI [of _ z]) simp
  qed
qed

theorem inherited_descriptors_witness:
  "\<exists>y. rtranclp psys_step (psys_start demo_table) y \<and> task_step Next (py_tasks y ! 0) (py_procs y) = None"
  using inherited_descriptors [OF demo_table] by blast

text \<open>C16: as long as no \<^verbatim>\<open>fork\<close> fails, every \<^verbatim>\<open>waitpid\<close> of a handler succeeds and gives
  the status of the handler's own child, whatever the other handlers fork, kill and wait for in the
  meantime; so the exit code a client is sent is that of its own compiler or program.\<close>

theorem wait_own_child:
  assumes "rtranclp forked_step (psys_start t0) y" "i < length (py_tasks y)"
    and "py_tasks y ! i = T_Reaped c fd n q p0 pid w"
  shows "\<exists>p st. pid = Some p \<and> w = Some (p, st)"
proof -
  have "wait_inv (psys_start t0) \<and> ids_inv (psys_start t0)" by (simp add: wait_inv_def ids_inv_def psys_start_def)
  with wait_kept.reach [OF assms(1)] have "wait_inv y" by blast
  then have "sound (py_tasks y ! i)" using assms(2) unfolding wait_inv_def by blast
  then show ?thesis using assms(3) by simp
qed

theorem wait_own_child_witness:
  "\<exists>y c fd n q p0 p st. rtranclp forked_step (psys_start demo_table) y \<and>
     py_tasks y ! 0 = T_Reaped c fd n q p0 (Some p) (Some (p, st))"
proof -
  obtain y fd0 fd1 where y: "rtranclp sane_step (psys_start demo_table) y" "py_tasks y = [T_Open 0 fd0 0, T_Open 1 fd1 0]"
    "ps_kids (py_procs y) = []" "ps_pipes (py_procs y) = 0" "ps_pids (py_procs y) = 0"
    "ps_zombies (py_procs y) = []" by (rule two_open [OF opens_all(5)])
  obtain a b t where s1: "task_step Next (T_Open 0 fd0 0) (py_procs y) =
    Some (T_Piped 0 fd0 0 0 a b, (py_procs y)\<lparr>ps_table := t, ps_pipes := 1\<rparr>)"
    using open_pipe [of 0 0 fd0 "py_procs y"] y(4) by auto
  let ?s1 = "(py_procs y)\<lparr>ps_table := t, ps_pipes := 1\<rparr>"
  let ?s2 = "?s1\<lparr>ps_kids := [new_kid 0 a b t], ps_pids := 1\<rparr>"
  let ?s3 = "?s2\<lparr>ps_table := fd_close b t\<rparr>"
  let ?y1 = "psys_put 0 (T_Piped 0 fd0 0 0 a b) ?s1 y"
  let ?y2 = "psys_put 0 (T_Forked 0 fd0 0 0 a b (Some 0)) ?s2 ?y1"
  let ?y3 = "psys_put 0 (T_Reading 0 fd0 0 0 a (Some 0)) ?s3 ?y2"
  let ?y5 = "on_procs (kid_gone 0 5) ?y3"
  have "rtranclp sane_step (psys_start demo_table) ?y1"
    by (rule sched_act [where out = Next, OF y(1)]) (use s1 in \<open>simp_all add: y(2) pipes_work_def forks_work_def\<close>)
  then have "rtranclp sane_step (psys_start demo_table) ?y2"
    by (rule sched_act [where out = Next]) (simp_all add: y(2-5) new_kid_def pipes_work_def forks_work_def)
  then have "rtranclp sane_step (psys_start demo_table) ?y3"
    by (rule sched_act [where out = Next]) (simp_all add: y(2-5) pipes_work_def forks_work_def)
  then have r: "rtranclp sane_step (psys_start demo_table) ?y5"
    by (rule rtranclp.rtrancl_into_rtrancl) (rule P_Exit)
  define z where "z = ?y5"
  have z: "py_tasks z = [T_Reading 0 fd0 0 0 a (Some 0), T_Open 1 fd1 0]" "ps_kids (py_procs z) = []"
    "ps_zombies (py_procs z) = [(0, 5)]" by (simp_all add: z_def y(2-6) kid_gone_def)
  note r = r [folded z_def]
  have "fds_inv demo_table z" "ids_inv z"
    using fds_kept.reach ids_kept.reach sane_is_piped.reach [OF r] sched.reach [OF r] all_inv_start [OF demo_table(1)] by blast+
  then have e: "at_eof a (py_procs z)" using reader_at_eof [of demo_table z 0] demo_table(2) by (simp add: z)
  let ?z1 = "psys_put 0 (T_Waiting 0 fd0 0 0 a (Some 0)) (py_procs z) z"
  let ?w = "T_Reaped 0 fd0 0 0 a (Some 0) (Some (0, 5))"
  let ?z2 = "psys_put 0 ?w ((py_procs z)\<lparr>ps_zombies := []\<rparr>) ?z1"
  have "rtranclp sane_step (psys_start demo_table) ?z1"
    by (rule sched_act [where out = Next, OF r]) (simp_all add: z e pipes_work_def forks_work_def)
  then have r2: "rtranclp sane_step (psys_start demo_table) ?z2"
    by (rule sched_act [where out = Next]) (simp_all add: z pipes_work_def forks_work_def wait_step_def sys_waitpid_def)
  note r2 = sane_is_forked.reach [OF r2]
  from wait_own_child [OF r2, of 0] r2 show ?thesis by (auto simp: z)
qed

text \<open>C23: \<^verbatim>\<open>fork\<close> is not checked. A handler whose \<^verbatim>\<open>fork\<close> fails waits for the process
  \<open>-1\<close>, that is for any child: it takes the exit status of another handler's child and reports it as its
  client's, and the other handler, whose child is gone, is left with an undefined status for its own.\<close>

theorem fork_failure_steals:
  assumes "distinct (map fst t0)" "only_other t0"
  shows "\<exists>y fd0 fd1 a b. rtranclp psys_step (psys_start t0) y \<and>
    py_tasks y = [T_Reaped 0 fd0 0 0 a None (Some (0, st)), T_Reaped 1 fd1 0 1 b (Some 0) None]"
proof -
  obtain y fd0 fd1 a b where y: "rtranclp piped_step (psys_start t0) y"
    "py_tasks y = [T_Waiting 0 fd0 0 0 a None, T_Waiting 1 fd1 0 1 b (Some 0)]"
    "ps_zombies (py_procs y) = [(0, st)]" "ps_kids (py_procs y) = []" by (rule failed_and_forked [OF assms])
  let ?s = "(py_procs y)\<lparr>ps_zombies := []\<rparr>"
  let ?y1 = "psys_put 0 (T_Reaped 0 fd0 0 0 a None (Some (0, st))) ?s y"
  let ?y2 = "psys_put 1 (T_Reaped 1 fd1 0 1 b (Some 0) None) ?s ?y1"
  have "rtranclp psys_step (psys_start t0) ?y1"
    by (rule sched_act [where out = "Take 0", OF sched.reach [OF y(1)]]) (simp_all add: y(2-4) wait_step_def sys_wait_any_def)
  then have "rtranclp psys_step (psys_start t0) ?y2"
    by (rule sched_act [where out = Next]) (simp_all add: y(2-4) wait_step_def sys_waitpid_def kid_alive_def)
  then show ?thesis by (intro exI [of _ ?y2]) (simp add: y(2))
qed

theorem fork_failure_steals_witness:
  "\<exists>y fd0 fd1 a b. rtranclp psys_step (psys_start demo_table) y \<and>
    py_tasks y = [T_Reaped 0 fd0 0 0 a None (Some (0, 0x100)), T_Reaped 1 fd1 0 1 b (Some 0) None]"
  using fork_failure_steals [OF demo_table(1,2)] by blast

text \<open>The second \<^verbatim>\<open>pipe\<close> is not checked either. When it fails, the handler goes on with the undefined values
  of its array, and when one of them is the number of another handler's connection it closes that
  connection under the handler that serves it.\<close>

theorem stray_pipe_closes:
  "\<exists>y fd0 fd1. rtranclp psys_step (psys_start t0) y \<and> py_tasks y ! 0 = T_Open 0 fd0 0 \<and>
    (\<exists>a. py_tasks y ! 1 = T_Reading 1 fd1 1 0 a None) \<and> map_of (ps_table (py_procs y)) fd0 = None"
proof -
  obtain y fd0 fd1 where y: "rtranclp psys_step (psys_start t0) y" "py_tasks y = [T_Open 0 fd0 0, T_Open 1 fd1 0]"
    "ps_kids (py_procs y) = []" "ps_pipes (py_procs y) = 0" "ps_pids (py_procs y) = 0"
    "ps_zombies (py_procs y) = []" by (rule two_open [OF opens_all(4)])
  let ?s = "py_procs y"
  let ?s1 = "?s\<lparr>ps_pipes := 1\<rparr>"
  let ?y1 = "psys_put 1 (T_Open 1 fd1 1) ?s y"
  let ?y2 = "psys_put 1 (T_Piped 1 fd1 1 0 0 fd0) ?s1 ?y1"
  let ?y3 = "psys_put 1 (T_Forked 1 fd1 1 0 0 fd0 None) ?s1 ?y2"
  let ?y4 = "psys_put 1 (T_Reading 1 fd1 1 0 0 None) (?s1\<lparr>ps_table := fd_close fd0 (ps_table ?s)\<rparr>) ?y3"
  have "rtranclp psys_step (psys_start t0) ?y1"
    by (rule sched_act [where out = Fail, OF y(1)]) (simp_all add: y(2))
  then have "rtranclp psys_step (psys_start t0) ?y2"
    by (rule sched_act [where out = "Stray 0 fd0"]) (simp_all add: y(2,4))
  then have "rtranclp psys_step (psys_start t0) ?y3"
    by (rule sched_act [where out = Fail]) (simp_all add: y(2,4))
  then have "rtranclp psys_step (psys_start t0) ?y4"
    by (rule sched_act [where out = Next]) (simp_all add: y(2))
  then show ?thesis by (intro exI [of _ ?y4] exI [of _ fd0] exI [of _ fd1]) (simp add: y(2) map_of_close)
qed

end
