(* ===== verification/Sample_Jobs.thy ===== *)
theory Sample_Jobs
  imports P2P_Prelude
begin

text \<open>
  The two sample programs that the repository submits as tasks: \<^verbatim>\<open>program.c\<close>, a matrix product,
  and \<^verbatim>\<open>web_upload_proj.c\<close>, the first thousand primes. Both are modelled with what they print. The
  C type \<^verbatim>\<open>int\<close> is an \<open>int\<close> with the bound \<open>2 ^ 31\<close> written out where the code can reach it;
  an operation that overflows is undefined and ends the model with \<open>None\<close>.
\<close>

section \<open>program.c\<close>

type_synonym matrix = "int list list"

definition cell :: "matrix \<Rightarrow> nat \<Rightarrow> nat \<Rightarrow> int" where
  "cell m i j = m ! i ! j"

definition set_cell :: "matrix \<Rightarrow> nat \<Rightarrow> nat \<Rightarrow> int \<Rightarrow> matrix" where
  "set_cell m i j v = m[i := (m ! i)[j := v]]"

text \<open>The loops, from the innermost: over \<open>k\<close>, over \<open>j\<close>, over \<open>i\<close>.\<close>

definition loop_k :: "matrix \<Rightarrow> matrix \<Rightarrow> nat \<Rightarrow> nat \<Rightarrow> nat \<Rightarrow> matrix \<Rightarrow> matrix" where
  "loop_k a b c1 i j = fold (\<lambda>k r. set_cell r i j (cell r i j + cell a i k * cell b k j)) [0..<c1]"

definition loop_j :: "matrix \<Rightarrow> matrix \<Rightarrow> nat \<Rightarrow> nat \<Rightarrow> nat \<Rightarrow> matrix \<Rightarrow> matrix" where
  "loop_j a b c1 c2 i = fold (loop_k a b c1 i) [0..<c2]"

definition mat_mult :: "matrix \<Rightarrow> matrix \<Rightarrow> nat \<Rightarrow> nat \<Rightarrow> nat \<Rightarrow> matrix \<Rightarrow> matrix" where
  "mat_mult a b r1 c1 c2 = fold (loop_j a b c1 c2) [0..<r1]"

definition clear :: "nat \<Rightarrow> nat \<Rightarrow> matrix \<Rightarrow> matrix" where
  "clear r1 c2 = fold (\<lambda>i. fold (\<lambda>j r. set_cell r i j 0) [0..<c2]) [0..<r1]"

definition show_matrix :: "nat \<Rightarrow> nat \<Rightarrow> matrix \<Rightarrow> string" where
  "show_matrix r1 c2 m =
     concat (map (\<lambda>i. concat (map (\<lambda>j. dec_int (cell m i j) @ '' '') [0..<c2]) @ [CHR 0x0A]) [0..<r1])"

definition matrix_a :: matrix where "matrix_a = [[1, 2, 3], [4, 5, 6]]"
definition matrix_b :: matrix where "matrix_b = [[7, 8], [9, 10], [11, 12]]"

text \<open>The array \<^verbatim>\<open>result\<close> is uninitialised: \<open>junk\<close> is what it holds at first.\<close>

definition program_main :: "matrix \<Rightarrow> string" where
  "program_main junk =
     (let r1 = 2; c1 = 3; c2 = 2;
          result = mat_mult matrix_a matrix_b r1 c1 c2 (clear r1 c2 junk)
      in ''Resultant matrix:'' @ [CHR 0x0A] @ show_matrix r1 c2 result)"

definition shape :: "nat \<Rightarrow> nat \<Rightarrow> matrix \<Rightarrow> bool" where
  "shape r c m \<longleftrightarrow> length m = r \<and> (\<forall>row \<in> set m. length row = c)"

lemma shape_set_cell: "shape r c m \<Longrightarrow> i < r \<Longrightarrow> shape r c (set_cell m i j v)"
  by (auto simp: shape_def set_cell_def dest!: set_update_subset_insert [THEN subsetD])

lemma cell_set_cell:
  "shape r c m \<Longrightarrow> i < r \<Longrightarrow> j < c \<Longrightarrow> cell (set_cell m i j v) x y = (if x = i \<and> y = j then v else cell m x y)"
  by (auto simp: shape_def cell_def set_cell_def nth_list_update)

lemma loop_k_spec:
  assumes "shape r c m" "i < r" "j < c"
  shows "shape r c (loop_k a b n i j m)"
    "cell (loop_k a b n i j m) x y =
       (if x = i \<and> y = j then cell m i j + (\<Sum>k < n. cell a i k * cell b k j) else cell m x y)"
  using assms
  by (induction n) (auto simp: loop_k_def shape_set_cell cell_set_cell)

lemma loop_j_spec:
  assumes "shape r c m" "i < r"
  shows "n \<le> c \<Longrightarrow> shape r c (loop_j a b l n i m) \<and>
    (\<forall>x y. cell (loop_j a b l n i m) x y =
       (if x = i \<and> y < n then cell m i y + (\<Sum>k < l. cell a i k * cell b k y) else cell m x y))"
proof (induction n)
  case 0
  then show ?case using assms by (simp add: loop_j_def)
next
  case (Suc n)
  let ?m = "loop_j a b l n i m"
  have ih: "shape r c ?m" "\<And>x y. cell ?m x y =
      (if x = i \<and> y < n then cell m i y + (\<Sum>k < l. cell a i k * cell b k y) else cell m x y)"
    using Suc by auto
  have "loop_j a b l (Suc n) i m = loop_k a b l i n ?m" by (simp add: loop_j_def)
  then show ?case using loop_k_spec [OF ih(1) assms(2), of n a b l] Suc.prems ih(2)
    by (auto simp: less_Suc_eq)
qed

lemma mat_mult_spec:
  assumes "shape r c m"
  shows "n \<le> r \<Longrightarrow> shape r c (mat_mult a b n l c m) \<and>
    (\<forall>x y. y < c \<longrightarrow> cell (mat_mult a b n l c m) x y =
       (if x < n then cell m x y + (\<Sum>k < l. cell a x k * cell b k y) else cell m x y))"
proof (induction n)
  case 0
  then show ?case using assms by (simp add: mat_mult_def)
next
  case (Suc n)
  let ?m = "mat_mult a b n l c m"
  have ih: "shape r c ?m" "\<And>x y. y < c \<Longrightarrow> cell ?m x y =
      (if x < n then cell m x y + (\<Sum>k < l. cell a x k * cell b k y) else cell m x y)"
    using Suc by auto
  have "mat_mult a b (Suc n) l c m = loop_j a b l c n ?m" by (simp add: mat_mult_def)
  then show ?case using loop_j_spec [OF ih(1), of n c a b l] Suc.prems ih(2)
    by (auto simp: less_Suc_eq)
qed

section \<open>web_upload_proj.c\<close>

text \<open>The trial divisors \<open>6 k - 1\<close> and \<open>6 k + 1\<close>; \<^verbatim>\<open>i * i\<close> is the operation that can overflow.\<close>

function prime_loop :: "int \<Rightarrow> int \<Rightarrow> bool option" where
  "prime_loop n i =
     (if 2 ^ 31 \<le> i * i \<or> i < 5 then None
      else if i * i \<le> n then
        (if n mod i = 0 \<or> n mod (i + 2) = 0 then Some False else prime_loop n (i + 6))
      else Some True)"
  by pat_completeness auto
termination
proof (relation "measure (\<lambda>(n, i). nat (n - i))")
  fix n i :: int
  assume "\<not> (2 ^ 31 \<le> i * i \<or> i < 5)" "i * i \<le> n"
  then have "5 \<le> i" "i * 5 \<le> i * i" "i * i \<le> n" by (auto intro: mult_left_mono)
  then have "i < n" by linarith
  then show "((n, i + 6), (n, i)) \<in> measure (\<lambda>(n, i). nat (n - i))" by simp
qed simp

declare prime_loop.simps [simp del]

definition is_prime :: "int \<Rightarrow> bool option" where
  "is_prime n =
     (if n < 2 then Some False
      else if n = 2 \<or> n = 3 then Some True
      else if n mod 2 = 0 \<or> n mod 3 = 0 then Some False
      else prime_loop n 5)"

text \<open>The loop of \<^verbatim>\<open>main\<close>, with fuel for its rounds; what it prints is appended to \<open>out\<close>.\<close>

fun primes_loop :: "nat \<Rightarrow> nat \<Rightarrow> nat \<Rightarrow> int \<Rightarrow> string \<Rightarrow> string option" where
  "primes_loop 0 limit count num out = (if count < limit then None else Some out)"
| "primes_loop (Suc fuel) limit count num out =
     (if count < limit then
        (case is_prime num of
           None \<Rightarrow> None
         | Some True \<Rightarrow>
             primes_loop fuel limit (count + 1) (num + 1)
               (out @ dec_int num @ '' '' @ (if (count + 1) mod 10 = 0 then [CHR 0x0A] else []))
         | Some False \<Rightarrow> primes_loop fuel limit count (num + 1) out)
      else Some out)"

definition primes_main :: "nat \<Rightarrow> string option" where
  "primes_main fuel =
     primes_loop fuel 1000 0 2 (''The first 1000 prime numbers are:'' @ [CHR 0x0A])"

definition prime_int :: "int \<Rightarrow> bool" where
  "prime_int n \<longleftrightarrow> 1 < n \<and> (\<forall>d. 1 < d \<longrightarrow> d < n \<longrightarrow> \<not> d dvd n)"

definition no_divisor_below :: "int \<Rightarrow> int \<Rightarrow> bool" where
  "no_divisor_below n i \<longleftrightarrow> (\<forall>d. 1 < d \<longrightarrow> d < i \<longrightarrow> \<not> d dvd n)"

lemma not_prime: "d dvd n \<Longrightarrow> 1 < d \<Longrightarrow> d < n \<Longrightarrow> \<not> prime_int n"
  by (auto simp: prime_int_def)

lemma no_divisor_step:
  assumes "no_divisor_below n i" "i mod 6 = 5" "\<not> 2 dvd n" "\<not> 3 dvd n" "\<not> i dvd n" "\<not> (i + 2) dvd n"
  shows "no_divisor_below n (i + 6)"
  unfolding no_divisor_below_def
proof (intro allI impI)
  fix d assume d: "1 < d" "d < i + 6"
  have "2 dvd (i + 1)" "2 dvd (i + 3)" "2 dvd (i + 5)" "3 dvd (i + 4)" using assms(2) by presburger+
  then have "\<not> (i + 1) dvd n" "\<not> (i + 3) dvd n" "\<not> (i + 5) dvd n" "\<not> (i + 4) dvd n"
    using assms(3,4) dvd_trans by blast+
  moreover consider "d < i" | "d = i" | "d = i + 1" | "d = i + 2" | "d = i + 3" | "d = i + 4" | "d = i + 5"
    using d by linarith
  ultimately show "\<not> d dvd n" using assms(1,5,6) d(1) by cases (auto simp: no_divisor_below_def)
qed

lemma prime_when_small_divisors_gone:
  assumes "no_divisor_below n i" "n < i * i" "1 < n" "1 < i"
  shows "prime_int n"
  unfolding prime_int_def
proof (intro conjI allI impI notI)
  fix d assume d: "1 < d" "d < n" "d dvd n"
  then obtain e where e: "n = d * e" by blast
  have "0 < e" using d e assms(3) by (metis zero_less_mult_pos order_less_trans zero_less_one)
  moreover have "e \<noteq> 1" using d e by auto
  ultimately have "1 < e" by linarith
  moreover have "e dvd n" using e by simp
  ultimately have "i \<le> e" "i \<le> d" using assms(1) d by (auto simp: no_divisor_below_def not_less [symmetric])
  then have "i * i \<le> d * e" using assms(4) d(1) by (intro mult_mono) auto
  with e assms(2) show False by simp
qed (rule assms(3))

text \<open>
  The loop on an \<^verbatim>\<open>int\<close>: it decides primality, unless \<open>n\<close> is a prime from the square of 46337 on.
  Then the divisor reaches 46343, whose square does not fit.
\<close>

lemma last_divisor:
  "46337 * 46337 \<le> n \<Longrightarrow> n < 2 ^ 31 \<Longrightarrow> no_divisor_below n 46343 \<Longrightarrow> prime_loop n 46343 = None \<and> prime_int n"
  using prime_when_small_divisors_gone [of n 46343] by (simp add: prime_loop.simps [of n 46343])

lemma prime_loop_correct:
  "i mod 6 = 5 \<Longrightarrow> 5 \<le> i \<Longrightarrow> i \<le> 46337 \<Longrightarrow> no_divisor_below n i \<Longrightarrow> \<not> 2 dvd n \<Longrightarrow> \<not> 3 dvd n \<Longrightarrow> 3 < n \<Longrightarrow>
     n < 2 ^ 31 \<Longrightarrow> prime_loop n i = (if prime_int n \<and> 46337 * 46337 \<le> n then None else Some (prime_int n))"
proof (induction n i rule: prime_loop.induct)
  case (1 n i)
  note unf = prime_loop.simps [of n i]
  have sq: "i * i \<le> 46337 * 46337" using 1(3,4) by (intro mult_mono) auto
  then have in_range: "\<not> (2 ^ 31 \<le> i * i \<or> i < 5)" using 1(3) by simp
  show ?case
  proof (cases "i * i \<le> n")
    case False
    then have "prime_int n" "n < 46337 * 46337"
      using 1(3,5,8) sq prime_when_small_divisors_gone [of n i] by simp_all
    then show ?thesis using False in_range by (simp add: unf)
  next
    case le: True
    have "5 * i \<le> i * i" using 1(3) by (intro mult_right_mono) auto
    then have small: "i < n" "i + 2 < n" using le 1(3) by linarith+
    show ?thesis
    proof (cases "n mod i = 0 \<or> n mod (i + 2) = 0")
      case True
      then have "\<not> prime_int n" using small 1(3) not_prime [of i n] not_prime [of "i + 2" n]
        by (auto simp: mod_eq_0_iff_dvd)
      then show ?thesis using in_range le True by (simp add: unf)
    next
      case False
      then have "\<not> i dvd n" "\<not> (i + 2) dvd n" by (auto simp: mod_eq_0_iff_dvd)
      with no_divisor_step 1(2,5-7) have nd: "no_divisor_below n (i + 6)" by blast
      have m: "(i + 6) mod 6 = 5" "5 \<le> i + 6" using 1(2,3) by simp_all
      have step: "prime_loop n i = prime_loop n (i + 6)" using in_range le False by (simp add: unf)
      show ?thesis
      proof (cases "i + 6 \<le> 46337")
        case True
        show ?thesis unfolding step using 1(1) [OF in_range le False m True nd 1(6-9)] .
      next
        case beyond: False
        then have "i = 46337" using 1(2,4) by presburger
        then show ?thesis unfolding step using last_divisor [of n] nd le 1(9) by simp
      qed
    qed
  qed
qed

lemma is_prime_int:
  assumes "n < 2 ^ 31"
  shows "is_prime n = (if prime_int n \<and> 46337 * 46337 \<le> n then None else Some (prime_int n))"
proof -
  consider "n < 2" | "n = 2 \<or> n = 3" | "3 < n" "n mod 2 = 0 \<or> n mod 3 = 0" | "3 < n" "\<not> 2 dvd n" "\<not> 3 dvd n"
    by (auto simp: mod_eq_0_iff_dvd) linarith+
  then show ?thesis
  proof cases
    case 2
    moreover have "prime_int 2" by (auto simp: prime_int_def)
    moreover have "prime_int 3"
      unfolding prime_int_def
    proof (intro conjI allI impI)
      fix d :: int assume "1 < d" "d < 3"
      then have "d = 2" by simp
      then show "\<not> d dvd 3" by simp
    qed simp
    ultimately show ?thesis by (auto simp: is_prime_def)
  next
    case 3
    then have "\<not> prime_int n" using not_prime [of 2 n] not_prime [of 3 n] by (auto simp: mod_eq_0_iff_dvd)
    then show ?thesis using 3 by (simp add: is_prime_def)
  next
    case 4
    have "\<not> d dvd n" if "1 < d" "d < 5" for d
    proof -
      have "d = 2 \<or> d = 3 \<or> d = 4" using that by linarith
      moreover have "\<not> 4 dvd n" using 4(2) by (metis dvd_trans dvd_triv_left mult_2_right numeral_Bit0)
      ultimately show ?thesis using 4 by auto
    qed
    then have "no_divisor_below n 5" by (simp add: no_divisor_below_def)
    then show ?thesis using prime_loop_correct [of 5 n] 4 assms by (simp add: is_prime_def mod_eq_0_iff_dvd)
  qed (auto simp: is_prime_def prime_int_def)
qed

lemma is_prime_correct: "n < 46337 * 46337 \<Longrightarrow> is_prime n = Some (prime_int n)"
  using is_prime_int [of n] by simp

section \<open>The matrix program prints the product\<close>

lemma clear_row:
  assumes "shape r c m" "i < r"
  shows "n \<le> c \<Longrightarrow> shape r c (fold (\<lambda>j r. set_cell r i j 0) [0..<n] m) \<and>
    (\<forall>x y. cell (fold (\<lambda>j r. set_cell r i j 0) [0..<n] m) x y = (if x = i \<and> y < n then 0 else cell m x y))"
  using assms by (induction n) (auto simp: shape_set_cell cell_set_cell less_Suc_eq)

lemma clear_spec:
  assumes "shape r c m"
  shows "n \<le> r \<Longrightarrow> shape r c (clear n c m) \<and>
    (\<forall>x y. y < c \<longrightarrow> cell (clear n c m) x y = (if x < n then 0 else cell m x y))"
proof (induction n)
  case 0
  then show ?case using assms by (simp add: clear_def)
next
  case (Suc n)
  then have ih: "shape r c (clear n c m)" "\<And>x y. y < c \<Longrightarrow> cell (clear n c m) x y = (if x < n then 0 else cell m x y)"
    by auto
  have "clear (Suc n) c m = fold (\<lambda>j r. set_cell r n j 0) [0..<c] (clear n c m)" by (simp add: clear_def)
  then show ?case using clear_row [OF ih(1), of n c] Suc.prems ih(2) by (auto simp: less_Suc_eq)
qed

section \<open>The prime program prints the first primes\<close>

fun primes_from :: "int \<Rightarrow> nat \<Rightarrow> int list" where
  "primes_from n 0 = []"
| "primes_from n (Suc k) = (if prime_int n then n # primes_from (n + 1) k else primes_from (n + 1) k)"

fun render :: "nat \<Rightarrow> int list \<Rightarrow> string" where
  "render c [] = []"
| "render c (p # ps) = dec_int p @ '' '' @ (if (c + 1) mod 10 = 0 then [CHR 0x0A] else []) @ render (c + 1) ps"

lemma primes_loop_eq:
  "num + int fuel \<le> 46337 * 46337 \<Longrightarrow> count \<le> limit \<Longrightarrow>
     primes_loop fuel limit count num out =
       (let ps = take (limit - count) (primes_from num fuel) in
        if length ps = limit - count then Some (out @ render count ps) else None)"
proof (induction fuel arbitrary: count num out)
  case (Suc fuel)
  have p: "is_prime num = Some (prime_int num)" using Suc.prems by (intro is_prime_correct) simp
  show ?case
  proof (cases "count < limit")
    case True
    then obtain k where k: "limit - count = Suc k" "limit - (count + 1) = k" by (cases "limit - count") auto
    then show ?thesis using Suc.IH [of "num + 1"] Suc.prems True p by (simp add: Let_def)
  qed (use Suc.prems in simp)
qed simp

lemma primes_loop_more:
  "primes_loop fuel limit count num out = Some r \<Longrightarrow> primes_loop (fuel + k) limit count num out = Some r"
proof (induction fuel arbitrary: count num out)
  case 0
  then show ?case by (cases k) (auto split: if_splits)
next
  case (Suc fuel)
  then show ?case by (auto split: option.splits bool.splits if_splits)
qed

lemma primes_from_append: "primes_from n (a + b) = primes_from n a @ primes_from (n + int a) b"
  by (induction a arbitrary: n) (simp_all add: add.commute add.left_commute)

lemma set_primes_from: "set (primes_from n k) = {p. prime_int p \<and> n \<le> p \<and> p < n + int k}"
  by (induction k arbitrary: n) (auto simp: order_le_less)

lemma sorted_primes_from: "sorted_wrt (<) (primes_from n k)"
  by (induction k arbitrary: n) (auto simp: set_primes_from)

text \<open>Counting them with the program's own test, in pieces the simplifier evaluates.\<close>

fun count_primes :: "nat \<Rightarrow> int \<Rightarrow> nat \<Rightarrow> nat" where
  "count_primes 0 n c = c"
| "count_primes (Suc k) n c = count_primes k (n + 1) (if is_prime n = Some True then Suc c else c)"

lemma count_primes_length:
  "n + int k \<le> 46337 * 46337 \<Longrightarrow> count_primes k n c = c + length (primes_from n k)"
proof (induction k arbitrary: n c)
  case (Suc k)
  then show ?case using is_prime_correct [of n] Suc.IH [of "n + 1"] by simp
qed simp

lemma count_primes_add: "count_primes (a + b) n c = count_primes b (n + int a) (count_primes a n c)"
  by (induction a arbitrary: n c) (simp_all add: add.commute add.left_commute)

lemma count_1: "count_primes 1000 2 0 = 168" by code_simp
lemma count_2: "count_primes 1000 1002 168 = 303" by code_simp
lemma count_3: "count_primes 1000 2002 303 = 431" by code_simp
lemma count_4: "count_primes 1000 3002 431 = 551" by code_simp
lemma count_5: "count_primes 1000 4002 551 = 669" by code_simp
lemma count_6: "count_primes 1000 5002 669 = 783" by code_simp
lemma count_7: "count_primes 1000 6002 783 = 901" by code_simp
lemma count_8: "count_primes 918 7002 901 = 1000" by code_simp

lemma thousand_primes: "length (primes_from 2 7918) = 1000"
proof -
  have "count_primes (1000 + (1000 + (1000 + (1000 + (1000 + (1000 + (1000 + 918))))))) 2 0 = 1000"
    unfolding count_primes_add by (simp add: count_1 count_2 count_3 count_4 count_5 count_6 count_7 count_8)
  then have "count_primes 7918 2 0 = 1000" by simp
  then show ?thesis using count_primes_length [of 2 7918 0] by simp
qed

section \<open>Properties\<close>

text \<open>Whatever the uninitialised result array holds, the loops of
  \<^verbatim>\<open>program.c\<close> compute the matrix product, for any dimensions, and the program prints the product
  of its two matrices.\<close>

theorem matrix_product:
  assumes "shape r c m" "shape 2 2 junk"
  shows "(\<forall>x < r. \<forall>y < c. cell (mat_mult a b r l c (clear r c m)) x y = (\<Sum>k < l. cell a x k * cell b k y)) \<and>
    program_main junk = ''Resultant matrix:'' @ [CHR 0x0A] @ ''58 64 '' @ [CHR 0x0A] @ ''139 154 '' @ [CHR 0x0A]"
proof -
  have gen: "cell (mat_mult a b r l c (clear r c m)) x y = (\<Sum>k < l. cell a x k * cell b k y)"
    if "shape r c m" "x < r" "y < c" for r c m a b l x y
    using mat_mult_spec [of r c "clear r c m" r a b l] clear_spec [OF that(1), of r] that(2,3) by simp
  have n: "dec_int 58 = ''58''" "dec_int 64 = ''64''" "dec_int 139 = ''139''" "dec_int 154 = ''154''"
    by (simp_all add: dec_int_def dec.simps digit_def char_of_eq_iff)
  have "cell (mat_mult matrix_a matrix_b 2 3 2 (clear 2 2 junk)) x y =
      (\<Sum>k < 3. cell matrix_a x k * cell matrix_b k y)" if "x < 2" "y < 2" for x y
    using gen [OF assms(2) that] .
  then have "program_main junk = ''Resultant matrix:'' @ [CHR 0x0A] @ ''58 64 '' @ [CHR 0x0A] @ ''139 154 '' @ [CHR 0x0A]"
    using n by (simp add: program_main_def show_matrix_def upt_rec matrix_a_def matrix_b_def cell_def
        numeral_3_eq_3 lessThan_Suc)
  then show ?thesis using gen [OF assms(1)] by blast
qed

theorem matrix_product_witness:
  "program_main [[9, 9], [9, 9]] = ''Resultant matrix:'' @ [CHR 0x0A] @ ''58 64 '' @ [CHR 0x0A] @ ''139 154 '' @ [CHR 0x0A]"
  using matrix_product [of 2 2 "[[9, 9], [9, 9]]" "[[9, 9], [9, 9]]"] by (simp add: shape_def)

text \<open>C39: for every \<^verbatim>\<open>int\<close> the trial division by \<open>6 k - 1\<close> and \<open>6 k + 1\<close> decides
  primality, except for the primes from \<open>46337 * 46337\<close> on: there, and only there, \<^verbatim>\<open>i * i\<close>
  overflows before the loop ends.\<close>

theorem is_prime_exact:
  assumes "n < 2 ^ 31"
  shows "is_prime n =
    (let p = (1 < n \<and> (\<forall>d. 1 < d \<longrightarrow> d < n \<longrightarrow> \<not> d dvd n))
     in if p \<and> 46337 * 46337 \<le> n then None else Some p)"
  using is_prime_int [OF assms] by (simp add: prime_int_def Let_def)

theorem is_prime_exact_witness:
  "is_prime 49 = Some False \<and> is_prime (- 5) = Some False \<and> is_prime (46339 * 46339) = Some False"
proof -
  have "\<not> (\<forall>d. 1 < d \<longrightarrow> d < (49::int) \<longrightarrow> \<not> d dvd 49)"
    by (intro notI, elim allE [of _ 7]) simp
  moreover have "\<not> (\<forall>d. 1 < d \<longrightarrow> d < (2147302921::int) \<longrightarrow> \<not> d dvd 2147302921)"
    by (intro notI, elim allE [of _ 46339]) simp
  ultimately show ?thesis
    using is_prime_exact [of 49] is_prime_exact [of "- 5"] is_prime_exact [of 2147302921] by (simp add: Let_def)
qed

text \<open>C40: the second program ends and prints, in order and ten to a line,
  exactly the primes up to 7919, which are a thousand; 7918 rounds of its loop are enough.\<close>

theorem thousand_primes_printed:
  "\<exists>ps. length ps = 1000 \<and> sorted_wrt (<) ps \<and> set ps = {p. prime_int p \<and> p \<le> 7919} \<and>
     primes_main (7918 + k) = Some (''The first 1000 prime numbers are:'' @ [CHR 0x0A] @ render 0 ps)"
proof (intro exI conjI)
  let ?ps = "primes_from 2 7918"
  show "length ?ps = 1000" by (rule thousand_primes)
  show "sorted_wrt (<) ?ps" by (rule sorted_primes_from)
  show "set ?ps = {p. prime_int p \<and> p \<le> 7919}"
    by (auto simp: set_primes_from prime_int_def)
  have "primes_main 7918 = Some (''The first 1000 prime numbers are:'' @ [CHR 0x0A] @ render 0 ?ps)"
    unfolding primes_main_def by (subst primes_loop_eq) (simp_all add: thousand_primes)
  then show "primes_main (7918 + k) = Some (''The first 1000 prime numbers are:'' @ [CHR 0x0A] @ render 0 ?ps)"
    unfolding primes_main_def by (rule primes_loop_more)
qed

end
