(* ===== verification/Spec2Isabelle.thy ===== *)
theory Spec2Isabelle
  imports Timing Handlers Processes Sample_Jobs
begin

text \<open>
  A model of the peer-to-peer task runner under \<^verbatim>\<open>src/New_socket_proj\<close>: a C program that finds
  its peers by UDP broadcast, sends a C file to the least loaded of them, where it is compiled and run,
  and prints what the run prints.

  \<^bold>\<open>The program.\<close> Each node is one process. \<^verbatim>\<open>main.c\<close> reads the arguments, starts the
  subsystems and runs the command loop. \<^verbatim>\<open>discovery.c\<close> has three threads: one broadcasts HELLO,
  one receives HELLO and BYE and updates the table of \<^verbatim>\<open>peer_list.c\<close>, one removes silent peers.
  A fourth thread in \<^verbatim>\<open>main.c\<close> answers load queries with the numbers of
  \<^verbatim>\<open>load_monitor.c\<close>. On \<^verbatim>\<open>submit\<close>, \<^verbatim>\<open>dispatcher.c\<close> queries every known peer,
  chooses the smallest score, its own included, sends the file over TCP and prints the reply.
  \<^verbatim>\<open>worker.c\<close> accepts such connections, one thread each, compiles and runs. All TCP traffic is
  framed by \<^verbatim>\<open>net_utils.c\<close> with the structures of \<^verbatim>\<open>common.h\<close>.

  \<^bold>\<open>The theories.\<close>
  \<^item> \<open>P2P_Prelude\<close>: bytes, words in memory and in network order, decimal numbers, dotted quads
    (the parts of libc the sources use), facts on lists. The locales \<open>kept\<close> (an invariant of a
    step relation) and \<open>restricts\<close> (a schedule of a machine) are interpreted for the step relations
    of the theories below.
  \<^item> \<open>Float32\<close>: IEEE single precision, executable, with round to nearest even; monotonicity of
    the operations. The scores are computed in it.
  \<^item> \<open>Wire\<close> (\<^verbatim>\<open>common.h\<close>): limits, message types, packed structures with their images in
    memory. The locale \<open>codec\<close> is the contract of an image, interpreted for all four of them.
  \<^item> \<open>Net_Utils\<close> (\<^verbatim>\<open>net_utils.c\<close>): \<open>send_all\<close>, \<open>recv_all\<close>, \<open>send_msg\<close>,
    \<open>recv_msg\<close> over a connection that lists the answers of future system calls: segments,
    interruptions, errors, the end. The outer \<open>None\<close> of a result is a call that blocks for ever.
    The contract \<open>msg_spec\<close> speaks of the byte stream only; the locale \<open>byte_source\<close> is
    what the reader of messages needs of the transport.
  \<^item> \<open>Sockets\<close> (\<^verbatim>\<open>net_utils.c\<close>): \<open>get_local_ip\<close> and the socket constructors over an explicit
    table of descriptors.
  \<^item> \<open>Peer_List\<close> (\<^verbatim>\<open>peer_list.c\<close>): the array of slots and its operations, the invariant
    \<open>peers_ok\<close>, and the refinement to a finite map by \<open>lookup\<close>; the locale
    \<open>peer_registry\<close> states that map for its clients.
  \<^item> \<open>Discovery\<close> (\<^verbatim>\<open>discovery.c\<close>), \<open>Load_Monitor\<close> (\<^verbatim>\<open>load_monitor.c\<close>, with the
    locale \<open>task_counter\<close>), \<open>Dispatcher\<close> (\<^verbatim>\<open>dispatcher.c\<close>), \<open>Worker\<close>
    (\<^verbatim>\<open>worker.c\<close>), \<open>Main_Node\<close> (\<^verbatim>\<open>main.c\<close>): one definition per C function or round
    of a thread, state passed explicitly.
  \<^item> \<open>Node_System\<close>: two nodes together, the table under all threads as the step relation
    \<open>table_step\<close>, heartbeats in time, the handlers of a worker as the step relation
    \<open>pool_step\<close>.
  \<^item> \<open>Timing\<close>: the announcer of a node against the table of another, in seconds: joining,
    staying in spite of losses, being forgotten, and the pause before the shell (\<open>START_PAUSE\<close>).
  \<^item> \<open>Cluster\<close>: the UDP port that two threads of a node share, the least loaded node of a
    network, a \<^verbatim>\<open>submit\<close> from the file to the printed exit code, a dispatch while the other threads
    run, and many tasks in one worker.
  \<^item> \<open>Handlers\<close>: the handler threads of one worker process, one action at a time
    (\<open>handler_step\<close>) on the counters, files and descriptors they share, interleaved by
    \<open>hsys_step\<close>. Each action is one group of calls on one shared object: receiving the task,
    the start in the load monitor, the source file, a run of the compiler, its output, the start of the
    program, its output and the answer, the removal of the files, the end in the load monitor, the close.
    The accept loop can find no thread for a connection, and an error ends it; \<open>hs_taken\<close> keeps
    what became of each connection that was taken, and \<open>sent_back\<close> what its client has been sent.
    Alone a handler is \<open>handle_connection\<close> (\<open>handler_sequential\<close>); together they refine
    \<open>pool_step\<close> and leave nothing behind; \<open>excl_step\<close> has the schedules in which they do not
    meet in \<^verbatim>\<open>/tmp\<close>.
  \<^item> \<open>Processes\<close> (\<^verbatim>\<open>worker.c\<close>): the descriptors of the accept loop, the handlers and their
    children. The worker's table, the tables of the processes it has forked, the statuses that wait to be
    collected, and the handlers from the source file over the two blocks of \<^verbatim>\<open>compile_and_stream\<close>,
    each from \<^verbatim>\<open>pipe\<close> over \<^verbatim>\<open>fork\<close>, \<^verbatim>\<open>kill\<close> and \<^verbatim>\<open>waitpid\<close> to the last \<^verbatim>\<open>close\<close>
    (\<open>task_step\<close>), interleaved with the rounds of the accept loop (\<open>psys_accept\<close>) by
    \<open>psys_step\<close>. Three of its schedules have names: \<open>piped_step\<close>, where the second
    \<^verbatim>\<open>pipe\<close> never fails, \<open>quiet_step\<close>, where besides no handler forks while another holds a
    writing end, and \<open>forked_step\<close>, where \<^verbatim>\<open>fork\<close> succeeds. In \<open>Worker\<close> and
    \<open>Handlers\<close> a child is only what its pipe delivers; here is why it delivers what the child writes
    (\<open>child_wired\<close>), why files and pipes need not appear in their descriptor table
    (\<open>pipes_accounted\<close>), when the end of the output comes (\<open>reads_end_with_family\<close>), whose
    exit status a handler gets (\<open>wait_own_child\<close>, \<open>fork_failure_steals\<close>), and what a
    failure of the second \<^verbatim>\<open>pipe\<close> can do (\<open>stray_pipe_closes\<close>).
  \<^item> \<open>Sample_Jobs\<close> (\<^verbatim>\<open>program.c\<close>, \<^verbatim>\<open>web_upload_proj.c\<close>): the two sample tasks.

  \<^bold>\<open>What is shown.\<close> The transport delivers what was sent whatever TCP does to it. The table is a
  bounded map that never contains the node itself, under every interleaving of the threads; live peers
  appear within the announcements that their losses leave and stay although HELLOs are lost, silent
  ones go within 45 seconds. The dispatcher chooses a node that
  no reachable one undercuts and its own node wins ties; it leaks no descriptor, and a task that runs on
  another node is shown as if it had run here. The worker reports every byte and an exit code that cannot
  be mistaken for a failure, which is that of its own child. The command loop ends. Defects are theorems too: the limit on concurrent
  tasks is not kept, concurrent tasks share their files, so that a client can be sent the answer to another
  client's task or the exit code of a program that never ran (as long as they keep out of each other's
  way there, every one gets its own answer), a client can wait for the program of another one, a failed
  \<^verbatim>\<open>fork\<close> takes the exit code of another client's program, Ctrl-C at the prompt still runs a line,
  an error of \<^verbatim>\<open>accept\<close> makes a node that swallows tasks for ever,
  the first \<^verbatim>\<open>submit\<close> can come before the peers are known, a node
  that cannot read its load looks idle, a load query can be swallowed by the wrong thread, and failures
  that are not looked at run the wrong program.

  \<^bold>\<open>Environment.\<close> The kernel's answers, the clock, the contents of files, the load average, the
  compiler and the compiled programs are parameters. The compiler is a function from the source to a
  child process and perhaps a binary, a binary a function from its bytes to a child process, both perhaps
  \<open>None\<close> when they cannot be executed; then, or when the file is missing, the child is
  \<open>exec_failed\<close>, which exits with 127 as the code has it. A child is what its pipe delivers and its
  exit status. Hosts are little-endian. \<^verbatim>\<open>atoi\<close> is glibc's.

  \<^bold>\<open>Bounds.\<close> Every loop is a total function: the transfer loops end because each call uses up
  an answer of the kernel, the command loop because each round uses up input. Only the loop of the
  prime program has fuel, and 7918 rounds are shown to be enough.

  \<^bold>\<open>Not modelled.\<close> Log and error messages on stderr; \<^verbatim>\<open>setsockopt\<close>, apart from what
  \<open>Cluster\<close> says of \<^verbatim>\<open>SO_REUSEPORT\<close> (which of the two sockets a datagram reaches is a
  parameter); failures of \<^verbatim>\<open>pthread_create\<close> for the threads of the start and of the worker's
  \<^verbatim>\<open>malloc\<close>, which the code does not check. A failed \<^verbatim>\<open>fork\<close> and a failed second
  \<^verbatim>\<open>pipe\<close> are steps of \<open>Processes\<close> only: in \<open>Worker\<close> and \<open>Handlers\<close> a child always
  starts, though its \<^verbatim>\<open>execl\<close> may fail, and the descriptors of files and pipes are left to \<open>Processes\<close>. In
  \<open>run_repl\<close> the discovery threads act between commands; \<open>table_step\<close> and
  \<open>query_loop_among\<close> have the finer interleaving. The web front end and the scripts are not C and
  are left out.
\<close>

end
